(* ===== verification/Prelude.thy ===== *)
theory Prelude
  imports Main "HOL-Library.Word"
begin

text \<open>
  Shared vocabulary of the development: the machine integers of the estimator, the
  collections of simplification facts, and generic lemmas on bits, options and lists.

  A C++ \<open>std::uint64_t\<close> is a 64-bit word.  Bit vectors of a width that is only known at
  run time are integers read through \<open>take_bit\<close>, so that the bit lemmas of the library
  apply to every width.
\<close>

unbundle bit_operations_syntax

type_synonym u64 = "64 word"
type_synonym u32 = "32 word"

named_theorems width_simps \<open>widths of the results of the expression constructors\<close>
named_theorems eval_simps \<open>values of the results of the expression constructors\<close>

subsection \<open>First match\<close>

text \<open>
  The simplifiers of \<open>expr.hpp\<close> try a list of rewriting helpers in order and return the
  result of the first one that applies; a helper that does not apply is \<open>None\<close>.
\<close>

fun first_some :: "'a option list \<Rightarrow> 'a option" where
  "first_some [] = None"
| "first_some (Some x # xs) = Some x"
| "first_some (None # xs) = first_some xs"

lemma first_some_mem: "first_some xs = Some r \<Longrightarrow> Some r \<in> set xs"
  by (induction xs rule: first_some.induct) auto

lemma first_some_NoneD: "first_some xs = None \<Longrightarrow> x \<in> set xs \<Longrightarrow> x = None"
  by (induction xs rule: first_some.induct) auto

lemma first_some_all:
  "first_some xs = Some r \<Longrightarrow> (\<And>x. Some x \<in> set xs \<Longrightarrow> P x) \<Longrightarrow> P r"
  by (blast dest: first_some_mem)

subsection \<open>Words of the host machine\<close>

text \<open>
  The all-ones value of the low \<open>n\<close> bits, \<open>(1LU << n) - 1\<close> in the source.  The shift by 64, which C++
  leaves undefined, is guarded in the constructor of constants, and no instruction negates or masks an
  expression of 64 bits; the model has all ones for it.
\<close>

definition lowmask :: "nat \<Rightarrow> u64" where
  "lowmask n = push_bit n 1 - 1"

lemma lowmask_mask: "lowmask n = mask n"
  by (simp add: lowmask_def mask_eq_decr_exp push_bit_eq_mult)

lemma uint_and_lowmask: "uint (v AND lowmask n) = take_bit n (uint v)" for v :: u64
  by (rule bit_eqI) (auto simp: bit_simps lowmask_mask dest: bit_imp_le_length)

text \<open>
  Shifts of a \<open>std::uint64_t\<close> by an amount known only at run time.  C++ leaves amounts of 64
  and more undefined; the model takes what the x86-64 shift instructions do, which use the
  amount modulo 64.  The theorems ask for amounts below 64.
\<close>

definition shl64 :: "u64 \<Rightarrow> u64 \<Rightarrow> u64" where
  "shl64 v n = push_bit (unat n mod 64) v"

definition shr64 :: "u64 \<Rightarrow> u64 \<Rightarrow> u64" where
  "shr64 v n = drop_bit (unat n mod 64) v"

lemma uint_push_bit_take: "n \<le> 64 \<Longrightarrow> take_bit n (uint (push_bit k v)) = take_bit n (push_bit k (uint v))"
  for v :: u64
  by (rule bit_eqI) (auto simp: bit_simps)

lemma uint_drop_bit_eq: "uint (drop_bit k v) = drop_bit k (uint v)" for v :: u64
  by (rule bit_eqI) (auto simp: bit_simps intro: bit_imp_possible_bit dest: bit_imp_le_length)

lemma uint_mod_add: "n \<le> 64 \<Longrightarrow> take_bit n (uint (a + b)) = take_bit n (uint a + uint b)"
  for a b :: u64
  by (simp add: uint_word_arith_bintrs min_def)

lemma uint_mod_sub: "n \<le> 64 \<Longrightarrow> take_bit n (uint (a - b)) = take_bit n (uint a - uint b)"
  for a b :: u64
  by (simp add: uint_word_arith_bintrs min_def)

subsection \<open>Bits of integers\<close>

lemma bit_take_bit_self:
  "take_bit n x = x \<Longrightarrow> bit x i \<Longrightarrow> i < n" for x :: int
  by (metis bit_take_bit_iff)

lemma take_bit_eqI:
  fixes x y :: int
  assumes "take_bit n x = x" "take_bit n y = y" "\<And>i. i < n \<Longrightarrow> bit x i = bit y i"
  shows "x = y"
  using assms by (metis bit_eqI bit_take_bit_iff)

lemma in_range_take_bit: "0 \<le> x \<Longrightarrow> x < 2 ^ n \<Longrightarrow> take_bit n x = x" for x :: int
  by (simp add: take_bit_int_eq_self)

lemma take_bit_bounds: "take_bit n x = x \<Longrightarrow> 0 \<le> x \<and> x < 2 ^ n" for x :: int
  by (metis take_bit_int_less_exp take_bit_nonnegative)

subsection \<open>Decimal numbers\<close>

text \<open>\<open>std::to_string\<close> of an unsigned number, and its inverse.\<close>

definition digit :: "nat \<Rightarrow> char" where
  "digit d = char_of (48 + d)"

fun decimal :: "nat \<Rightarrow> string" where
  "decimal n = (if n < 10 then [digit n] else decimal (n div 10) @ [digit (n mod 10)])"

declare decimal.simps [simp del]

definition undecimal :: "string \<Rightarrow> nat" where
  "undecimal s = foldl (\<lambda>a c. a * 10 + (of_char c - 48)) 0 s"

definition is_digit :: "char \<Rightarrow> bool" where
  "is_digit c \<longleftrightarrow> of_char c \<in> {48..57 :: nat}"

lemma of_char_digit: "d < 10 \<Longrightarrow> of_char (digit d) = (48 + d :: nat)"
  by (simp add: digit_def)

lemma undecimal_decimal [simp]: "undecimal (decimal n) = n"
  by (induction n rule: decimal.induct) (subst decimal.simps, auto simp: undecimal_def of_char_digit)

lemma decimal_eq_iff [simp]: "decimal m = decimal n \<longleftrightarrow> m = n"
  by (metis undecimal_decimal)

lemma digits_decimal: "c \<in> set (decimal n) \<Longrightarrow> is_digit c"
proof (induction n rule: decimal.induct)
  case (1 n)
  then show ?case by (subst (asm) (2) decimal.simps)
      (auto simp: is_digit_def of_char_digit split: if_splits)
qed

lemma decimal_nonempty [simp]: "decimal n \<noteq> []"
  by (subst decimal.simps) simp

text \<open>A number is separated from what follows by the first character that is no digit.\<close>

lemma decimal_append_eq:
  assumes "decimal m @ s = decimal n @ t" "s = [] \<or> \<not> is_digit (hd s)" "t = [] \<or> \<not> is_digit (hd t)"
  shows "m = n" "s = t"
proof -
  have take: "takeWhile is_digit (decimal k @ u) = decimal k"
    if "u = [] \<or> \<not> is_digit (hd u)" for k u
    using that digits_decimal [of _ k] by (subst takeWhile_append2) (auto simp: takeWhile_eq_Nil_iff)
  have "decimal m = decimal n" using assms take by metis
  then show "m = n" "s = t" using assms(1) by simp_all
qed

subsection \<open>Loops\<close>

text \<open>A loop whose body may fail.\<close>

fun each :: "('a \<Rightarrow> 'b \<Rightarrow> 'b option) \<Rightarrow> 'a list \<Rightarrow> 'b \<Rightarrow> 'b option" where
  "each f [] s = Some s"
| "each f (x # xs) s = Option.bind (f x s) (each f xs)"

lemma each_append: "each f (xs @ ys) s = Option.bind (each f xs s) (each f ys)"
proof (induction xs arbitrary: s)
  case (Cons x xs)
  then show ?case by (cases "f x s") simp_all
qed simp

lemma each_keeps: "each f xs s = Some t \<Longrightarrow> (\<And>x s t. f x s = Some t \<Longrightarrow> P t = P s) \<Longrightarrow> P t = P s"
  by (induction xs arbitrary: s) (fastforce simp: bind_eq_Some_conv)+

text \<open>An invariant of a loop over the indices of an array: the body takes it from each index to the next.\<close>

lemma each_upt:
  assumes "\<And>i s. m \<le> i \<Longrightarrow> i < n \<Longrightarrow> P i s \<Longrightarrow> \<exists>t. f i s = Some t \<and> P (Suc i) t" "m \<le> n" "P m s"
  shows "\<exists>t. each f [m..<n] s = Some t \<and> P n t"
  using assms
proof (induction "n - m" arbitrary: m s)
  case (Suc d)
  then have "m < n" by linarith
  then obtain t where "f m s = Some t" "P (Suc m) t" using Suc.prems by blast
  moreover have "\<exists>u. each f [Suc m..<n] t = Some u \<and> P n u"
    by (rule Suc.hyps(1)) (use Suc.hyps(2) Suc.prems \<open>m < n\<close> \<open>P (Suc m) t\<close> in auto)
  ultimately show ?case using \<open>m < n\<close> by (simp add: upt_conv_Cons)
qed simp

text \<open>An array is accessed within its bounds, or the behaviour is undefined.\<close>

definition rd :: "'a list \<Rightarrow> nat \<Rightarrow> 'a option" where
  "rd a i = (if i < length a then Some (a ! i) else None)"

definition wr :: "'a list \<Rightarrow> nat \<Rightarrow> 'a \<Rightarrow> 'a list option" where
  "wr a i v = (if i < length a then Some (a[i := v]) else None)"

lemma rd_Some [simp]: "i < length a \<Longrightarrow> rd a i = Some (a ! i)"
  by (simp add: rd_def)

lemma wr_Some [simp]: "i < length a \<Longrightarrow> wr a i v = Some (a[i := v])"
  by (simp add: wr_def)

end
