(* ===== verification/Radix.thy ===== *)
theory Radix
  imports Prelude "HOL-Library.Multiset" "HOL-Library.Monad_Syntax"
begin

text \<open>
  The sort of the measured values by the upper and then by the lower sixteen bits,
  \<open>radix_sort\<close> and \<open>radix_sort16\<close> of \<open>statistics.c\<close>.

  The sort moves the values to the bucket of their upper half in place, along cycles: a value that
  is taken from the array is put at the next free place of its bucket, which gives the next value to
  place.  Every access to the array is checked; the sort is shown to stay in bounds, to end and to
  sort.
\<close>

subsection \<open>The sort\<close>

definition digits :: nat where
  "digits = 65536"

definition upper :: "u32 \<Rightarrow> nat" where
  "upper v = unat (drop_bit 16 v AND 0xFFFF)"

definition lower :: "u32 \<Rightarrow> nat" where
  "lower v = unat (v AND 0xFFFF)"

definition count_by :: "(u32 \<Rightarrow> nat) \<Rightarrow> u32 list \<Rightarrow> nat \<Rightarrow> nat \<Rightarrow> (nat \<Rightarrow> nat) option" where
  "count_by key a m n = each (\<lambda>i f. map_option (\<lambda>v. f(key v := f (key v) + 1)) (rd a i)) [m..<n] (\<lambda>_. 0)"

definition emit :: "nat \<Rightarrow> u32 \<Rightarrow> u32 list \<times> nat \<Rightarrow> (u32 list \<times> nat) option" where
  "emit k v = each (\<lambda>_ (a, ptr). map_option (\<lambda>a. (a, ptr + 1)) (wr a ptr v)) [0..<k]"

definition radix_sort16 :: "nat \<Rightarrow> nat \<Rightarrow> u32 list \<Rightarrow> u32 list option" where
  "radix_sort16 off e a = do {
     v \<leftarrow> rd a off;
     f \<leftarrow> count_by lower a off e;
     map_option fst (each (\<lambda>x. emit (f x) ((v AND 0xFFFF0000) + of_nat x)) [0..<digits] (a, off))
   }"

text \<open>The ends of the buckets; \<open>pointer\<close> starts at their beginnings.\<close>

definition bounds :: "(nat \<Rightarrow> nat) \<Rightarrow> (nat \<Rightarrow> nat) \<times> (nat \<Rightarrow> nat)" where
  "bounds ends = fold (\<lambda>x (pointer, ends). (pointer(x := ends (x - 1)), ends(x := ends x + ends (x - 1))))
     [1..<digits] (\<lambda>_. 0, ends)"

partial_function (option) place :: "nat \<Rightarrow> u32 list \<Rightarrow> (nat \<Rightarrow> nat) \<Rightarrow> u32 \<Rightarrow> (u32 list \<times> (nat \<Rightarrow> nat) \<times> u32) option" where
  "place x a pointer v =
     (let y = upper v in
      if x = y then Some (a, pointer, v)
      else do {
        t \<leftarrow> rd a (pointer y);
        a \<leftarrow> wr a (pointer y) v;
        place x a (pointer(y := pointer y + 1)) t
      })"

partial_function (option) fill :: "nat \<Rightarrow> (nat \<Rightarrow> nat) \<Rightarrow> u32 list \<Rightarrow> (nat \<Rightarrow> nat) \<Rightarrow> (u32 list \<times> (nat \<Rightarrow> nat)) option" where
  "fill x ends a pointer =
     (if pointer x = ends x then Some (a, pointer)
      else do {
        v \<leftarrow> rd a (pointer x);
        (a, pointer, v) \<leftarrow> place x a pointer v;
        a \<leftarrow> wr a (pointer x) v;
        fill x ends a (pointer(x := pointer x + 1))
      })"

declare place.simps [code]
declare fill.simps [code]

definition radix_sort :: "u32 list \<Rightarrow> u32 list option" where
  "radix_sort a = do {
     ends \<leftarrow> count_by upper a 0 (length a);
     let (pointer, ends) = bounds ends;
     (a, pointer) \<leftarrow> each (\<lambda>x (a, pointer). fill x ends a pointer) [0..<digits] (a, pointer);
     a \<leftarrow> (if pointer 0 \<noteq> 0 then radix_sort16 0 (pointer 0) a else Some a);
     each (\<lambda>x a. if pointer x \<noteq> pointer (x - 1) then radix_sort16 (pointer (x - 1)) (pointer x) a else Some a) [1..<digits] a
   }"

subsection \<open>Digits\<close>

lemma mask_16: "(0xFFFF :: u32) = mask 16"
  by (simp add: mask_eq_exp_minus_1)

lemma upper_div: "upper v = unat v div 65536"
proof -
  have "upper v = take_bit 16 (drop_bit 16 (unat v))"
    unfolding upper_def mask_16 by (simp only: take_bit_eq_mask [symmetric] unsigned_take_bit_eq unsigned_drop_bit_eq)
      (simp add: drop_bit_take_bit)
  then show ?thesis using unsigned_less [of v, where ?'a = nat]
    by (simp add: take_bit_eq_mod drop_bit_eq_div less_mult_imp_div_less)
qed

lemma lower_mod: "lower v = unat v mod 65536"
proof -
  have "lower v = take_bit 16 (unat v)"
    unfolding lower_def mask_16 by (simp only: take_bit_eq_mask [symmetric] unsigned_take_bit_eq)
  then show ?thesis by (simp add: take_bit_eq_mod)
qed

lemma digit_bounds [simp]: "upper v < digits" "lower v < digits"
  using unsigned_less [of v, where ?'a = nat] by (auto simp: upper_div lower_mod digits_def less_mult_imp_div_less)

lemma digits_split: "unat v = 65536 * upper v + lower v"
  by (simp add: upper_div lower_mod)

lemma word_of_digits: "(v AND 0xFFFF0000) + of_nat x = (of_nat (65536 * upper v + x) :: u32)"
proof -
  have n: "(0xFFFF0000 :: u32) = NOT (mask 16)" by (simp add: mask_eq_exp_minus_1)
  have "v AND 0xFFFF0000 = push_bit 16 (drop_bit 16 v)" unfolding n
    by (intro bit_eqI) (auto simp: bit_and_iff bit_not_iff bit_mask_iff bit_push_bit_iff bit_drop_bit_eq not_less)
  also have "\<dots> = 65536 * drop_bit 16 v" by (simp add: push_bit_eq_mult)
  also have "drop_bit 16 v = of_nat (upper v)" by (simp add: upper_div flip: drop_bit_eq_div [of 16, simplified] unat_drop_bit_eq)
  finally show ?thesis by simp
qed

lemma less_by_hi: "upper v < upper w \<Longrightarrow> v \<le> w"
  unfolding upper_div word_le_nat_alt by (meson div_le_mono not_less order.strict_implies_order nle_le)


subsection \<open>Counting\<close>

text \<open>Values sorted by a key that orders them: the keys up to \<open>x\<close>, then the values with key \<open>x\<close>.\<close>

lemma sort_by_key:
  fixes xs :: "'a::linorder list" and key :: "'a \<Rightarrow> nat"
  assumes "\<And>v w. v \<in> set xs \<Longrightarrow> w \<in> set xs \<Longrightarrow> key v < key w \<Longrightarrow> v \<le> w"
  shows "sort (filter (\<lambda>v. key v < Suc x) xs) = sort (filter (\<lambda>v. key v < x) xs) @ sort (filter (\<lambda>v. key v = x) xs)"
proof (rule properties_for_sort)
  show "mset (sort (filter (\<lambda>v. key v < x) xs) @ sort (filter (\<lambda>v. key v = x) xs)) = mset (filter (\<lambda>v. key v < Suc x) xs)"
    by (induction xs) (auto simp: less_Suc_eq)
  show "sorted (sort (filter (\<lambda>v. key v < x) xs) @ sort (filter (\<lambda>v. key v = x) xs))"
    using assms by (auto simp: sorted_append)
qed

lemma length_filter_Suc:
  "length (filter (\<lambda>v. key v < Suc x) xs) = length (filter (\<lambda>v. key v < x) xs) + length (filter (\<lambda>v. key v = x) xs)" for key :: "'a \<Rightarrow> nat"
  by (induction xs) (auto simp: less_Suc_eq)

lemma count_by_filter:
  assumes "m \<le> n" "n \<le> length a"
  shows "count_by key a m n = Some (\<lambda>k. length (filter (\<lambda>v. key v = k) (drop m (take n a))))"
proof -
  have "\<exists>f. count_by key a m n = Some f \<and> f = (\<lambda>k. length (filter (\<lambda>v. key v = k) (drop m (take n a))))"
    unfolding count_by_def
  proof (rule each_upt [where P = "\<lambda>i f. f = (\<lambda>k. length (filter (\<lambda>v. key v = k) (drop m (take i a))))"], goal_cases)
    case (1 i f)
    then have "drop m (take (Suc i) a) = drop m (take i a) @ [a ! i]"
      using assms by (simp add: take_Suc_conv_app_nth)
    moreover have "f = (\<lambda>k. length (filter (\<lambda>v. key v = k) (drop m (take i a))))" by (rule 1)
    ultimately show ?case using 1 assms by (intro exI conjI) (auto simp: rd_def intro!: ext)
  qed (use assms in auto)
  then show ?thesis by simp
qed

lemma emit_replicate:
  assumes "ptr + k \<le> length a"
  shows "emit k v (a, ptr) = Some (take ptr a @ replicate k v @ drop (ptr + k) a, ptr + k)"
proof -
  have "\<exists>s. emit k v (a, ptr) = Some s \<and> s = (take ptr a @ replicate k v @ drop (ptr + k) a, ptr + k)"
    unfolding emit_def
  proof (rule each_upt [where P = "\<lambda>i s. s = (take ptr a @ replicate i v @ drop (ptr + i) a, ptr + i)"], goal_cases)
    case (1 i s)
    then have "drop (ptr + i) a = a ! (ptr + i) # drop (Suc (ptr + i)) a"
      using assms by (simp add: Cons_nth_drop_Suc)
    with 1 show ?case using assms
      by (auto simp: list_update_append min_def replicate_append_same [symmetric] simp del: replicate.simps(2))
        (simp add: replicate_app_Cons_same)
  qed (use assms in auto)
  then show ?thesis by simp
qed

subsection \<open>The lower digits\<close>

lemma radix_sort16_sorts:
  assumes "off < e" "e \<le> length a" and upper: "\<And>v. v \<in> set (drop off (take e a)) \<Longrightarrow> upper v = h"
  shows "radix_sort16 off e a = Some (take off a @ sort (drop off (take e a)) @ drop e a)"
proof -
  define seg where "seg = drop off (take e a)"
  have inseg: "a ! off \<in> set seg" using assms(1,2) unfolding seg_def
    by (auto simp: in_set_conv_nth intro!: exI [of _ 0])
  have word: "(a ! off AND 0xFFFF0000) + of_nat (lower w) = w" if "w \<in> set seg" for w
    using upper [of w] upper [of "a ! off"] that inseg digits_split [of w] unfolding seg_def word_of_digits
    by (metis of_nat_unat ucast_id)
  have order: "v \<le> w" if "v \<in> set seg" "w \<in> set seg" "lower v < lower w" for v w
    using that upper [of v] upper [of w] digits_split [of v] digits_split [of w] unfolding seg_def word_le_nat_alt by simp
  let ?S = "\<lambda>x. sort (filter (\<lambda>v. lower v < x) seg)"
  have len: "length (filter (\<lambda>v. lower v < x) seg) \<le> e - off" for x
    using length_filter_le [of _ seg] assms by (simp add: seg_def)
  have "\<exists>s. each (\<lambda>x. emit (length (filter (\<lambda>v. lower v = x) seg)) ((a ! off AND 0xFFFF0000) + of_nat x)) [0..<digits] (a, off) = Some s
      \<and> s = (take off a @ ?S digits @ drop (off + length (?S digits)) a, off + length (?S digits))"
  proof (rule each_upt [where P = "\<lambda>x s. s = (take off a @ ?S x @ drop (off + length (?S x)) a, off + length (?S x))"], goal_cases)
    case (1 x s)
    have same: "sort (filter (\<lambda>v. lower v = x) seg) = replicate (length (filter (\<lambda>v. lower v = x) seg)) ((a ! off AND 0xFFFF0000) + of_nat x)"
      by (intro replicate_eqI) (auto dest: word)
    have "length (filter (\<lambda>v. lower v < Suc x) seg) \<le> e - off" by (rule len)
    with 1 show ?case using assms(1,2)
      by (auto simp: emit_replicate sort_by_key [OF order] same length_filter_Suc [where key = lower] ac_simps min_def)
  qed (use assms in auto)
  moreover have "filter (\<lambda>v. lower v < digits) seg = seg" by (simp add: filter_id_conv)
  ultimately show ?thesis using assms(1,2) unfolding radix_sort16_def seg_def
    by (simp add: count_by_filter)
qed

subsection \<open>The buckets\<close>

text \<open>The number of values of \<open>a\<close> whose upper digit is below \<open>y\<close>: where the bucket of \<open>y\<close> starts.\<close>

definition starts :: "u32 list \<Rightarrow> nat \<Rightarrow> nat" where
  "starts a y = length (filter (\<lambda>v. upper v < y) a)"

lemma starts_0 [simp]: "starts a 0 = 0"
  by (simp add: starts_def)

lemma starts_Suc: "starts a (Suc y) = starts a y + length (filter (\<lambda>v. upper v = y) a)"
  unfolding starts_def by (rule length_filter_Suc)

lemma starts_end [simp]: "starts a digits = length a"
  by (simp add: starts_def filter_id_conv)

lemma starts_mono: "y \<le> z \<Longrightarrow> starts a y \<le> starts a z"
  by (rule lift_Suc_mono_le [where f = "starts a"]) (simp_all add: starts_Suc)

lemma starts_le: "y \<le> digits \<Longrightarrow> starts a y \<le> length a"
  using starts_mono [of y digits a] by simp

lemma starts_cong: "mset a = mset b \<Longrightarrow> starts a = starts b"
  by (rule ext) (metis mset_filter size_mset starts_def)

text \<open>Every index is in one bucket.\<close>

lemma bucket_of: "i < starts a k \<Longrightarrow> \<exists>y<k. starts a y \<le> i \<and> i < starts a (Suc y)"
proof (induction k)
  case (Suc k)
  then show ?case by (cases "i < starts a k") (auto intro: less_SucI)
qed simp

lemma bucket_unique:
  "starts a y \<le> i \<Longrightarrow> i < starts a (Suc y) \<Longrightarrow> starts a z \<le> i \<Longrightarrow> i < starts a (Suc z) \<Longrightarrow> y = z"
  using starts_mono [of "Suc y" z a] starts_mono [of "Suc z" y a] by (cases y z rule: linorder_cases) auto

lemma bounds_starts:
  fixes a :: "u32 list"
  assumes "bounds (\<lambda>k. length (filter (\<lambda>v. upper v = k) a)) = (p, e)" "y < digits"
  shows "p y = starts a y" "e y = starts a (Suc y)"
proof -
  define st where "st n = fold (\<lambda>x (pointer, ends). (pointer(x := ends (x - 1)), ends(x := ends x + ends (x - 1))))
    [1..<n] (\<lambda>_. 0, \<lambda>k. length (filter (\<lambda>v. upper v = k) a))" for n
  have inv: "(\<forall>y<n. fst (st n) y = starts a y \<and> snd (st n) y = starts a (Suc y))
      \<and> (\<forall>y\<ge>n. snd (st n) y = length (filter (\<lambda>v. upper v = y) a))" if "1 \<le> n" for n
    using that
  proof (induction n rule: dec_induct)
    case base
    then show ?case by (simp add: st_def starts_Suc)
  next
    case (step n)
    have "st (Suc n) = (\<lambda>(pointer, ends). (pointer(n := ends (n - 1)), ends(n := ends n + ends (n - 1)))) (st n)"
      using step.hyps by (simp add: st_def)
    with step show ?case by (cases "st n") (auto simp: less_Suc_eq starts_Suc [of a n] Suc_le_eq)
  qed
  have "st digits = (p, e)" using assms(1) by (simp add: st_def bounds_def)
  with inv [of digits] assms(2) show "p y = starts a y" "e y = starts a (Suc y)"
    by (auto simp: digits_def)
qed

text \<open>
  The invariant of the distribution: below the pointer of each bucket there are values of that
  bucket only.  \<open>b\<close> is the array with the value in hand put back where it was taken.
\<close>

definition placed :: "u32 list \<Rightarrow> (nat \<Rightarrow> nat) \<Rightarrow> u32 list \<Rightarrow> bool" where
  "placed a p b \<longleftrightarrow> mset b = mset a
     \<and> (\<forall>y<digits. starts a y \<le> p y \<and> p y \<le> starts a (Suc y) \<and> (\<forall>i. starts a y \<le> i \<longrightarrow> i < p y \<longrightarrow> upper (b ! i) = y))"

lemma placed_length: "placed a p b \<Longrightarrow> length b = length a"
  by (auto simp: placed_def dest: mset_eq_length)

lemma placed_le: "placed a p b \<Longrightarrow> y < digits \<Longrightarrow> starts a y \<le> p y \<and> p y \<le> starts a (Suc y)"
  by (simp add: placed_def)

text \<open>A value outside the placed part of its bucket finds room there.\<close>

lemma placed_room:
  assumes p: "placed a p b" and j: "j < length b" "upper (b ! j) = y" "\<not> (starts a y \<le> j \<and> j < p y)"
  shows "p y < starts a (Suc y)"
proof -
  have y: "y < digits" using j by auto
  have "insert j {starts a y..<p y} \<subseteq> {i. i < length b \<and> upper (b ! i) = y}"
    using p y j starts_le [of "Suc y" a] placed_length [OF p] unfolding placed_def
    by (auto simp: Suc_le_eq dest: less_le_trans)
  then have "card (insert j {starts a y..<p y}) \<le> length (filter (\<lambda>v. upper v = y) b)"
    unfolding length_filter_conv_card by (rule card_mono [rotated]) simp
  also have "\<dots> = length (filter (\<lambda>v. upper v = y) a)"
    using p unfolding placed_def by (metis mset_filter size_mset)
  finally show ?thesis using j(3) placed_le [OF p y] by (simp add: starts_Suc)
qed

subsection \<open>A cycle\<close>

lemma sum_advance: "y < digits \<Longrightarrow> sum (p(y := p y + 1)) {..<digits} = Suc (sum p {..<digits})" for p :: "nat \<Rightarrow> nat"
  by (simp add: sum.remove [of "{..<digits}" y])

lemma placed_sum_less:
  assumes "placed a p b" "y < digits" "p y < starts a (Suc y)"
  shows "sum p {..<digits} < sum (\<lambda>y. starts a (Suc y)) {..<digits}"
  by (rule sum_strict_mono_ex1) (use assms placed_le [OF assms(1)] in auto)

text \<open>Putting the value in hand at the free place of its bucket and taking the one that was there.\<close>

lemma placed_swap:
  assumes p: "placed a p (xs[p x := v])" and len: "length xs = length a"
    and x: "x < digits" "p x < starts a (Suc x)" and y: "upper v \<noteq> x"
  defines "q \<equiv> p (upper v)"
  shows "q < length xs" "p x \<noteq> q" "q < starts a (Suc (upper v))"
    "placed a (p(upper v := q + 1)) ((xs[q := v])[p x := xs ! q])"
proof -
  let ?ys = "xs[p x := v]"
  have h: "p x < length xs" using x starts_le [of "Suc x" a] len by simp
  have bx: "starts a x \<le> p x" using placed_le [OF p x(1)] by simp
  have out: "\<not> (starts a (upper v) \<le> p x \<and> p x < p (upper v))"
    using bucket_unique [OF bx x(2), of "upper v"] placed_le [OF p digit_bounds(1)] y by (metis order.strict_trans2)
  show room: "q < starts a (Suc (upper v))" unfolding q_def
    by (rule placed_room [OF p, of "p x"]) (use h out in auto)
  have bq: "starts a (upper v) \<le> q" using placed_le [OF p digit_bounds(1)] by (simp add: q_def)
  show q: "q < length xs" using room starts_le [of "Suc (upper v)" a] len
    by (simp add: Suc_le_eq)
  show ne: "p x \<noteq> q" using bucket_unique [OF bx x(2), of "upper v"] bq room y by auto
  let ?zs = "(xs[q := v])[p x := xs ! q]"
  have "?zs = ?ys[p x := ?ys ! q, q := ?ys ! (p x)]"
    using ne h by (simp add: list_update_swap)
  then have "mset ?zs = mset ?ys" using mset_swap [of q ?ys "p x"] h q by simp
  moreover have "upper (?zs ! i) = z"
    if "z < digits" "starts a z \<le> i" "i < (p(upper v := q + 1)) z" for z i
  proof (cases "i = q")
    case True
    then have "z = upper v" using that bucket_unique [OF bq room, of z] placed_le [OF p that(1)]
      by (auto split: if_splits)
    then show ?thesis using True ne q by simp
  next
    case False
    then have i: "i < p z" using that by (auto simp: q_def split: if_splits)
    then have "i \<noteq> p x" using bucket_unique [OF bx x(2), of z] that placed_le [OF p that(1)] by auto
    then have "?zs ! i = ?ys ! i" using False by simp
    then show ?thesis using p i that unfolding placed_def by metis
  qed
  ultimately show "placed a (p(upper v := q + 1)) ?zs"
    using p room bq unfolding placed_def by (auto simp: Suc_le_eq)
qed

lemma place_ok:
  assumes "placed a p (xs[p x := v])" "length xs = length a" "x < digits" "p x < starts a (Suc x)"
  shows "\<exists>ys q w. place x xs p v = Some (ys, q, w) \<and> length ys = length a \<and> placed a q (ys[q x := w])
    \<and> upper w = x \<and> q x = p x \<and> (\<forall>z. p z \<le> q z)"
  using assms
proof (induction "sum (\<lambda>y. starts a (Suc y)) {..<digits} - sum p {..<digits}" arbitrary: xs p v rule: less_induct)
  case less
  show ?case
  proof (cases "upper v = x")
    case True
    with less.prems show ?thesis by (subst place.simps) auto
  next
    case False
    let ?q = "p (upper v)" let ?p = "p(upper v := ?q + 1)"
    note swap = placed_swap [OF less.prems False]
    have "\<exists>ys q w. place x (xs[?q := v]) ?p (xs ! ?q) = Some (ys, q, w) \<and> length ys = length a \<and> placed a q (ys[q x := w])
        \<and> upper w = x \<and> q x = ?p x \<and> (\<forall>z. ?p z \<le> q z)"
    proof (rule less.hyps)
      show "sum (\<lambda>y. starts a (Suc y)) {..<digits} - sum ?p {..<digits} < sum (\<lambda>y. starts a (Suc y)) {..<digits} - sum p {..<digits}"
        unfolding sum_advance [OF digit_bounds(1)]
        using placed_sum_less [OF less.prems(1) digit_bounds(1) swap(3)] by linarith
    qed (use False swap less.prems in auto)
    then obtain ys q w where "place x (xs[?q := v]) ?p (xs ! ?q) = Some (ys, q, w)" "length ys = length a"
      "placed a q (ys[q x := w])" "upper w = x" "q x = ?p x" "\<forall>z. ?p z \<le> q z" by blast
    moreover have "p z \<le> ?p z" for z by simp
    ultimately show ?thesis using False swap(1)
      by (subst place.simps) (auto simp: Let_def intro: order_trans)
  qed
qed

subsection \<open>The distribution\<close>

lemma placed_advance:
  assumes "placed a p b" "x < digits" "p x < starts a (Suc x)" "upper (b ! p x) = x"
  shows "placed a (p(x := p x + 1)) b"
  using assms unfolding placed_def by (auto simp: less_Suc_eq)

lemma fill_ok:
  assumes "placed a p xs" "x < digits" "ends x = starts a (Suc x)"
  shows "\<exists>ys q. fill x ends xs p = Some (ys, q) \<and> placed a q ys \<and> q x = starts a (Suc x) \<and> (\<forall>z. p z \<le> q z)"
  using assms(1)
proof (induction "starts a (Suc x) - p x" arbitrary: xs p rule: less_induct)
  case less
  show ?case
  proof (cases "p x = ends x")
    case True
    then have "fill x ends xs p = Some (xs, p)" by (subst fill.simps) simp
    with less.prems assms True show ?thesis by auto
  next
    case False
    then have room: "p x < starts a (Suc x)" using placed_le [OF less.prems assms(2)] assms(3) by simp
    have len: "length xs = length a" by (rule placed_length [OF less.prems])
    have h: "p x < length xs" using room starts_le [of "Suc x" a] assms(2) len by simp
    obtain ys q w where 1: "place x xs p (xs ! p x) = Some (ys, q, w)" "length ys = length a"
      "placed a q (ys[q x := w])" "upper w = x" "q x = p x" "\<And>z. p z \<le> q z"
      using place_ok [of a p xs x "xs ! p x", simplified, OF less.prems len assms(2) room] by blast
    let ?q = "q(x := q x + 1)"
    have 2: "placed a ?q (ys[q x := w])"
      by (rule placed_advance [OF 1(3) assms(2)]) (use 1(2,4,5) room h len in simp_all)
    have "\<exists>zs r. fill x ends (ys[q x := w]) ?q = Some (zs, r) \<and> placed a r zs \<and> r x = starts a (Suc x) \<and> (\<forall>z. ?q z \<le> r z)"
      by (rule less.hyps [OF _ 2]) (use 1(5) room in simp)
    then obtain zs r where 3: "fill x ends (ys[q x := w]) ?q = Some (zs, r)" "placed a r zs"
      "r x = starts a (Suc x)" "\<And>z. ?q z \<le> r z" by blast
    have "p z \<le> r z" for z using 1(6) [of z] 3(4) [of z] by (auto split: if_splits)
    moreover have "fill x ends xs p = Some (zs, r)"
      using 1(1,2,5) 3(1) False h len by (subst fill.simps) simp
    ultimately show ?thesis using 3(2,3) by blast
  qed
qed

text \<open>The array after the distribution: each value is in its bucket.\<close>

definition bucketed :: "u32 list \<Rightarrow> u32 list \<Rightarrow> bool" where
  "bucketed a b \<longleftrightarrow> mset b = mset a \<and> (\<forall>i<length a. \<forall>y<digits. starts a y \<le> i \<longrightarrow> i < starts a (Suc y) \<longrightarrow> upper (b ! i) = y)"

lemma distribute:
  assumes "bounds (\<lambda>k. length (filter (\<lambda>v. upper v = k) a)) = (p, ends)"
  shows "\<exists>b q. each (\<lambda>x (a, pointer). fill x ends a pointer) [0..<digits] (a, p) = Some (b, q)
    \<and> bucketed a b \<and> (\<forall>y<digits. q y = starts a (Suc y))"
proof -
  have "\<exists>s. each (\<lambda>x (a, pointer). fill x ends a pointer) [0..<digits] (a, p) = Some s
    \<and> placed a (snd s) (fst s) \<and> (\<forall>y<digits. snd s y = starts a (Suc y))"
  proof (rule each_upt [where P = "\<lambda>x s. placed a (snd s) (fst s) \<and> (\<forall>y<x. snd s y = starts a (Suc y))"], goal_cases)
    case (1 x s)
    then obtain b q where "fill x ends (fst s) (snd s) = Some (b, q)" "placed a q b" "q x = starts a (Suc x)"
      "\<And>z. snd s z \<le> q z"
      using fill_ok [of a "snd s" "fst s" x ends] bounds_starts [OF assms] by blast
    moreover from this have "q y = starts a (Suc y)" if "y < x" for y
      using that 1 placed_le [of a q b y] by (metis le_antisym less_trans)
    ultimately show ?case by (auto simp: case_prod_unfold less_Suc_eq)
  qed (use bounds_starts [OF assms] starts_mono [of _ "Suc _" a] in \<open>auto simp: placed_def\<close>)
  then obtain b q where "each (\<lambda>x (a, pointer). fill x ends a pointer) [0..<digits] (a, p) = Some (b, q)"
    "placed a q b" "\<forall>y<digits. q y = starts a (Suc y)" by auto
  then show ?thesis by (auto simp: placed_def bucketed_def)
qed

text \<open>The bucket of \<open>z\<close> holds the values with digit \<open>z\<close>.\<close>

lemma bucketed_take:
  assumes b: "bucketed a b" and z: "z \<le> digits"
  shows "mset (take (starts a z) b) = mset (filter (\<lambda>v. upper v < z) a)"
proof -
  have len: "length b = length a" using b by (auto simp: bucketed_def dest: mset_eq_length)
  have at: "upper (b ! i) < z \<longleftrightarrow> i < starts a z" if "i < length a" for i
  proof -
    obtain y where y: "y < digits" "starts a y \<le> i" "i < starts a (Suc y)"
      using bucket_of [of i a digits] \<open>i < length a\<close> by auto
    then have "upper (b ! i) = y" using b that unfolding bucketed_def by blast
    moreover have "y < z \<longleftrightarrow> i < starts a z"
      using y starts_mono [of "Suc y" z a] starts_mono [of z y a] by (cases "y < z") auto
    ultimately show ?thesis by simp
  qed
  have "filter (\<lambda>v. upper v < z) (take (starts a z) b) = take (starts a z) b"
    using at len starts_le [OF z, of a] by (auto simp: filter_id_conv in_set_conv_nth)
  moreover have "filter (\<lambda>v. upper v < z) (drop (starts a z) b) = []"
    using at len starts_le [OF z, of a] by (auto simp: filter_empty_conv in_set_conv_nth)
  ultimately have "filter (\<lambda>v. upper v < z) b = take (starts a z) b"
    by (metis append_Nil2 append_take_drop_id filter_append)
  then show ?thesis using b unfolding bucketed_def by (metis mset_filter)
qed

lemma bucketed_segment:
  assumes b: "bucketed a b" and z: "z < digits"
  shows "mset (drop (starts a z) (take (starts a (Suc z)) b)) = mset (filter (\<lambda>v. upper v = z) a)"
proof -
  have "take (starts a (Suc z)) b = take (starts a z) b @ drop (starts a z) (take (starts a (Suc z)) b)"
    using starts_mono [of z "Suc z" a] append_take_drop_id [of "starts a z" "take (starts a (Suc z)) b"] by (simp add: min_def)
  then have "mset (take (starts a (Suc z)) b) = mset (take (starts a z) b) + mset (drop (starts a z) (take (starts a (Suc z)) b))"
    by (metis mset_append)
  moreover have "mset (filter (\<lambda>v. upper v < Suc z) a) = mset (filter (\<lambda>v. upper v < z) a) + mset (filter (\<lambda>v. upper v = z) a)"
    by (induction a) (auto simp: less_Suc_eq)
  moreover have "mset (take (starts a (Suc z)) b) = mset (filter (\<lambda>v. upper v < Suc z) a)"
    "mset (take (starts a z) b) = mset (filter (\<lambda>v. upper v < z) a)"
    by (rule bucketed_take [OF b], use z in simp)+
  ultimately show ?thesis by (metis add_left_cancel)
qed

text \<open>
  After the buckets below \<open>z\<close> have been sorted, the array starts with the sorted values with a
  digit below \<open>z\<close> and is the distributed array from there on.
\<close>

definition sorted_below :: "u32 list \<Rightarrow> u32 list \<Rightarrow> nat \<Rightarrow> u32 list" where
  "sorted_below a b z = sort (filter (\<lambda>v. upper v < z) a) @ drop (starts a z) b"

lemma sorted_below_0 [simp]: "sorted_below a b 0 = b"
  by (simp add: sorted_below_def)

lemma sorted_below_Suc:
  assumes b: "bucketed a b" and z: "z < digits"
  shows "(if starts a z \<noteq> starts a (Suc z) then radix_sort16 (starts a z) (starts a (Suc z)) (sorted_below a b z) else Some (sorted_below a b z))
    = Some (sorted_below a b (Suc z))"
proof -
  have len: "length b = length a" using b by (auto simp: bucketed_def dest: mset_eq_length)
  have le: "starts a z \<le> starts a (Suc z)" "starts a (Suc z) \<le> length a"
    using starts_mono [of z "Suc z" a] starts_le [of "Suc z" a] z by simp_all
  have l: "length (filter (\<lambda>v. upper v < z) a) = starts a z" by (simp add: starts_def)
  have lsb: "length (sorted_below a b z) = length a"
    using le len by (simp add: sorted_below_def l)
  let ?seg = "drop (starts a z) (take (starts a (Suc z)) b)"
  have seg: "drop (starts a z) (take (starts a (Suc z)) (sorted_below a b z)) = ?seg"
    using le unfolding sorted_below_def by (simp add: l drop_take)
  have "sort ?seg = sort (filter (\<lambda>v. upper v = z) a)"
    by (rule properties_for_sort) (simp_all add: bucketed_segment [OF b z])
  then have split: "sort (filter (\<lambda>v. upper v < Suc z) a) = sort (filter (\<lambda>v. upper v < z) a) @ sort ?seg"
    by (simp add: sort_by_key less_by_hi)
  show ?thesis
  proof (cases "starts a z = starts a (Suc z)")
    case True
    then have "?seg = []" by simp
    with True split show ?thesis by (simp add: sorted_below_def)
  next
    case False
    have "upper v = z" if "v \<in> set ?seg" for v
      
    using that arg_cong [where f = "\<lambda>m. v \<in> set_mset m", OF bucketed_segment [OF b z]] by (simp only: set_mset_mset) simp
    then have "radix_sort16 (starts a z) (starts a (Suc z)) (sorted_below a b z)
      = Some (take (starts a z) (sorted_below a b z) @ sort (drop (starts a z) (take (starts a (Suc z)) (sorted_below a b z))) @ drop (starts a (Suc z)) (sorted_below a b z))"
      using False le lsb by (intro radix_sort16_sorts [where h = z]) (simp_all add: seg)
    also have "\<dots> = Some (sorted_below a b (Suc z))"
      unfolding seg using le by (simp add: sorted_below_def split l)
    finally show ?thesis using False by simp
  qed
qed

text \<open>The sort stays in bounds, ends and sorts.\<close>

lemma radix_sort_eq: "radix_sort a = Some (sort a)"
proof -
  obtain p e where pe: "bounds (\<lambda>k. length (filter (\<lambda>v. upper v = k) a)) = (p, e)" by fastforce
  obtain b q where b: "each (\<lambda>x (a, pointer). fill x e a pointer) [0..<digits] (a, p) = Some (b, q)"
    "bucketed a b" and q: "\<And>y. y < digits \<Longrightarrow> q y = starts a (Suc y)"
    using distribute [OF pe] by blast
  have d: "0 < digits" "1 \<le> digits" by (simp_all add: digits_def)
  have start: "(if q 0 \<noteq> 0 then radix_sort16 0 (q 0) b else Some b) = Some (sorted_below a b 1)"
    using sorted_below_Suc [OF b(2) d(1), unfolded starts_0 sorted_below_0] d(1) by (simp add: q split: if_splits)
  have "\<exists>c. each (\<lambda>x a. if q x \<noteq> q (x - 1) then radix_sort16 (q (x - 1)) (q x) a else Some a) [1..<digits] (sorted_below a b 1) = Some c
    \<and> c = sorted_below a b digits"
  proof (rule each_upt [where P = "\<lambda>z c. c = sorted_below a b z"], goal_cases)
    case (1 z c)
    with sorted_below_Suc [OF b(2), of z] show ?case by (auto simp: q split: if_splits)
  qed (use d in auto)
  moreover have "sorted_below a b digits = sort a"
    using mset_eq_length [of b a] b(2) by (simp add: sorted_below_def filter_id_conv bucketed_def)
  ultimately show ?thesis using b(1) start pe
    by (simp add: radix_sort_def count_by_filter)
qed

text \<open>
  C17: \<open>radix_sort\<close> reads and writes within the array, ends and sorts it, for every array: the
  distribution along cycles with its 65536 buckets and the counting sort of each bucket.
\<close>

theorem radix_sort_sorts: "radix_sort a = Some (sort a)"
  by (rule radix_sort_eq)

end
