(* ===== verification/Statistics.thy ===== *)
theory Statistics
  imports Radix
begin

text \<open>
  The statistics over measured values, \<open>statistics_print\<close> of \<open>statistics.c\<close>: the quantiles it reads
  off the sorted array and the bars of the histogram.  Every access to the array is checked.  The
  number of values is the length of an array, so \<open>num\<close>, an \<open>int64_t\<close>, is an integer that does not
  overflow.  The mean and the deviations are computed in floating point and are not modelled.
\<close>

subsection \<open>Quantiles\<close>

definition rdi :: "u32 list \<Rightarrow> int \<Rightarrow> u32 option" where
  "rdi a i = (if i < 0 then None else rd a (nat i))"

text \<open>The mean of two elements, computed with 64 bits.\<close>

definition mid :: "u32 \<Rightarrow> u32 \<Rightarrow> u32" where
  "mid a b = ucast ((ucast a + ucast b :: u64) div 2)"

record summary =
  minimum :: u32
  p01 :: u32
  p05 :: u32
  q1 :: u32
  median :: u32
  q3 :: u32
  p95 :: u32
  p99 :: u32
  maximum :: u32

text \<open>The mean of the element at \<open>i\<close> and, for an even number of values, the one before it.\<close>

definition at_quantile :: "u32 list \<Rightarrow> int \<Rightarrow> u32 option" where
  "at_quantile d i = do {
     a \<leftarrow> rdi d (i + int (length d) mod 2 - 1);
     b \<leftarrow> rdi d i;
     Some (mid a b)
   }"

text \<open>A low quantile starts with the first element if there are too few values for it.\<close>

definition at_low_quantile :: "u32 list \<Rightarrow> int \<Rightarrow> u32 option" where
  "at_low_quantile d k = do {
     a \<leftarrow> (if int (length d) < k then rdi d 0 else rdi d (int (length d) div k + int (length d) mod 2 - 1));
     b \<leftarrow> rdi d (int (length d) div k);
     Some (mid a b)
   }"

definition summarize :: "u32 list \<Rightarrow> (u32 list \<times> summary) option" where
  "summarize data = (let num = int (length data) in do {
     d \<leftarrow> radix_sort data;
     median \<leftarrow> at_quantile d (num div 2);
     q1 \<leftarrow> at_low_quantile d 4;
     q3 \<leftarrow> at_quantile d (num * 3 div 4);
     p01 \<leftarrow> at_low_quantile d 100;
     p05 \<leftarrow> at_low_quantile d 20;
     p95 \<leftarrow> at_quantile d (num * 19 div 20);
     p99 \<leftarrow> at_quantile d (num * 99 div 100);
     min \<leftarrow> rdi d 0;
     max \<leftarrow> rdi d (num - 1);
     Some (d, \<lparr>minimum = min, p01 = p01, p05 = p05, q1 = q1, median = median, q3 = q3,
       p95 = p95, p99 = p99, maximum = max\<rparr>)
   })"

lemma unat_mid: "unat (mid a b) = (unat a + unat b) div 2"
proof -
  have ab: "unat a < 2 ^ 32" "unat b < 2 ^ 32"
    using unsigned_less [of a, where ?'a = nat] unsigned_less [of b, where ?'a = nat] by simp_all
  then have "unat ((ucast a + ucast b :: u64) div 2) = (unat a + unat b) div 2"
    by (simp add: unat_div unat_word_ariths unsigned_ucast_eq take_bit_nat_eq_self)
  then show ?thesis using ab
    by (simp add: mid_def unsigned_ucast_eq take_bit_nat_eq_self)
qed

lemma mid_mono: "a \<le> c \<Longrightarrow> b \<le> d \<Longrightarrow> mid a b \<le> mid c d"
  by (simp add: word_le_nat_alt unat_mid div_le_mono add_mono)

lemma mid_same [simp]: "mid a a = a"
  by (rule unsigned_word_eqI [where ?'a = nat]) (simp add: unat_mid)

text \<open>
  A quantile is determined by two indices; the quantiles are ordered because their indices are.
\<close>

definition between :: "u32 list \<Rightarrow> int \<Rightarrow> int \<Rightarrow> u32" where
  "between d i j = mid (d ! nat i) (d ! nat j)"

lemma between_mono:
  assumes "sorted d" "i \<le> k" "j \<le> l" "k < int (length d)" "l < int (length d)" "0 \<le> i" "0 \<le> j"
  shows "between d i j \<le> between d k l"
  unfolding between_def by (intro mid_mono sorted_nth_mono [OF assms(1)]) (use assms in auto)

lemma rdi_Some [simp]: "0 \<le> i \<Longrightarrow> i < int (length d) \<Longrightarrow> rdi d i = Some (d ! nat i)"
  by (simp add: rdi_def)

lemma at_quantile_between:
  assumes b: "b = int (length d) mod 2 - 1" and "b \<le> 0" "0 \<le> i + b" "i < int (length d)"
  shows "at_quantile d i = Some (between d (i + b) i)"
proof -
  have "i + int (length d) mod 2 - 1 = i + b" unfolding b by (rule add_diff_eq [symmetric])
  with assms(2-) show ?thesis by (simp only: at_quantile_def between_def) simp
qed

definition low_index :: "int \<Rightarrow> int \<Rightarrow> int" where
  "low_index n k = (if n < k then 0 else n div k + (n mod 2 - 1))"

lemma low_index_bounds:
  assumes "0 < n" "0 < k"
  shows "0 \<le> low_index n k" "low_index n k \<le> n div k"
proof -
  have "1 \<le> n div k" if "k \<le> n" using that assms using zdiv_mono1 [of k n k] by simp
  moreover have "0 \<le> n div k" using assms by (simp add: pos_imp_zdiv_nonneg_iff)
  ultimately show "0 \<le> low_index n k" "low_index n k \<le> n div k"
    using pos_mod_bound [of 2 n] pos_mod_sign [of 2 n] by (auto simp: low_index_def)
qed

lemma at_low_quantile_between:
  assumes "0 < length d" "1 < k"
  shows "at_low_quantile d k = Some (between d (low_index (int (length d)) k) (int (length d) div k))"
proof -
  let ?n = "int (length d)"
  have "?n div k < ?n" using assms by (simp add: int_div_less_self)
  moreover have "(if ?n < k then rdi d 0 else rdi d (?n div k + ?n mod 2 - 1)) = rdi d (low_index ?n k)"
    by (simp add: low_index_def add_diff_eq)
  ultimately show ?thesis using low_index_bounds [of ?n k] assms
    by (simp add: at_low_quantile_def between_def)
qed

lemma quantile_less: "0 \<le> n \<Longrightarrow> 0 < b \<Longrightarrow> 0 < e \<Longrightarrow> a * e \<le> c * b \<Longrightarrow> n * a div b \<le> n * c div e" for n :: int
proof -
  assume n: "0 \<le> n" "0 < b" "0 < e" "a * e \<le> c * b"
  have "n * a div b = (n * (a * e)) div (b * e)" using n by (simp add: mult.assoc [symmetric])
  also have "\<dots> \<le> (n * (c * b)) div (b * e)"
    using n by (intro zdiv_mono1 mult_left_mono) simp_all
  also have "\<dots> = n * c div e" using n by (simp add: mult.assoc [symmetric] mult.commute [of b e])
  finally show ?thesis .
qed

lemma quantile_indices:
  fixes n :: int
  assumes "0 < n"
  shows "n div 100 \<le> n div 20" "n div 20 \<le> n div 4" "n div 4 \<le> n div 2" "n div 2 \<le> n * 3 div 4"
    "n * 3 div 4 \<le> n * 19 div 20" "n * 19 div 20 \<le> n * 99 div 100" "n * 99 div 100 \<le> n - 1"
    "0 \<le> n div 2 + (n mod 2 - 1)" "0 \<le> n div 100"
proof -
  show "n div 2 \<le> n * 3 div 4" using quantile_less [of n 2 4 1 3] assms by simp
  show "n * 3 div 4 \<le> n * 19 div 20" "n * 19 div 20 \<le> n * 99 div 100"
    by (rule quantile_less, use assms in simp_all)+
  have "n * 99 div 100 < n" using assms by (simp add: div_less_iff_less_mult)
  then show "n * 99 div 100 \<le> n - 1" by simp
  show "0 \<le> n div 2 + (n mod 2 - 1)" using assms by presburger
  show "0 \<le> n div 100" using assms by (simp add: pos_imp_zdiv_nonneg_iff)
qed (use assms in \<open>simp_all add: zdiv_mono2\<close>)

lemma low_index_mono:
  assumes "0 < n" "0 < m" "m \<le> k" "n div k \<le> n div m"
  shows "low_index n k \<le> low_index n m"
proof (cases "n < k")
  case True
  then show ?thesis using low_index_bounds(1) [of n m] assms by (simp add: low_index_def)
qed (use assms in \<open>simp add: low_index_def\<close>)

lemma low_index_le:
  assumes "n div k \<le> i" "0 \<le> i + (n mod 2 - 1)"
  shows "low_index n k \<le> i + (n mod 2 - 1)"
  using assms by (simp add: low_index_def)

lemma middle_indices:
  "0 < k \<Longrightarrow> nat (int k div 2 + (int k mod 2 - 1)) = (k - 1) div 2 \<and> nat (int k div 2) = k div 2"
  by (cases "even k") (auto elim!: evenE oddE simp: nat_add_distrib)

lemma sorted_ends:
  assumes "a \<noteq> []"
  shows "sort a ! 0 = Min (set a)" "sort a ! (length a - 1) = Max (set a)"
proof -
  have "sort a ! 0 \<in> set (sort a)" "sort a ! (length a - 1) \<in> set (sort a)"
    by (rule nth_mem, use assms in simp)+
  moreover have "sort a ! 0 \<le> x \<and> x \<le> sort a ! (length a - 1)" if "x \<in> set a" for x
  proof -
    have "x \<in> set (sort a)" using that by simp
    then obtain i where "i < length a" "x = sort a ! i" unfolding in_set_conv_nth by auto
    then show ?thesis using sorted_nth_mono [of "sort a" 0 i] sorted_nth_mono [of "sort a" i "length a - 1"] by simp
  qed
  ultimately show "sort a ! 0 = Min (set a)" "sort a ! (length a - 1) = Max (set a)"
    using Min_eqI [of "set a" "sort a ! 0"] Max_eqI [of "set a" "sort a ! (length a - 1)"] by simp_all
qed

text \<open>
  C18: for every non-empty array of values the quantiles are read within the array; they are ordered
  from the minimum to the maximum, these are the least and the greatest value, and the median is the
  mean of the two values in the middle of the sorted array.
\<close>

theorem quantiles_ordered:
  assumes "data \<noteq> []"
  shows "\<exists>s. summarize data = Some (sort data, s)
    \<and> sorted [minimum s, p01 s, p05 s, q1 s, median s, q3 s, p95 s, p99 s, maximum s]
    \<and> minimum s = Min (set data) \<and> maximum s = Max (set data)
    \<and> median s = mid (sort data ! ((length data - 1) div 2)) (sort data ! (length data div 2))"
proof -
  define d where "d = sort data"
  define n where "n = int (length d)"
  have n: "0 < n" "length data = length d" "0 < length d" using assms by (simp_all add: d_def n_def)
  define b where "b = n mod 2 - 1"
  define l100 l20 l4 where l: "l100 = low_index n 100" "l20 = low_index n 20" "l4 = low_index n 4"
  define i100 i20 i4 i2 where i: "i100 = n div 100" "i20 = n div 20" "i4 = n div 4" "i2 = n div 2"
  define j3 j95 j99 where j: "j3 = n * 3 div 4" "j95 = n * 19 div 20" "j99 = n * 99 div 100"
  have b: "b \<le> 0" by (simp add: b_def)
  have q: "0 \<le> i100" "i100 \<le> i20" "i20 \<le> i4" "i4 \<le> i2" "i2 \<le> j3" "j3 \<le> j95" "j95 \<le> j99" "j99 \<le> n - 1" "0 \<le> i2 + b"
    unfolding i j b_def by (rule quantile_indices [OF n(1)])+
  have low: "0 \<le> l100" "l100 \<le> l20" "l20 \<le> l4" "l4 \<le> i2 + b"
    unfolding i l b_def
    by (rule low_index_bounds(1) [OF n(1)] low_index_mono [OF n(1) _ _ quantile_indices(1) [OF n(1)]]
        low_index_mono [OF n(1) _ _ quantile_indices(2) [OF n(1)]] low_index_le [OF quantile_indices(3,8) [OF n(1)]]; simp)+
  have sorted: "sorted d" by (simp add: d_def)
  have aq: "at_quantile d k = Some (between d (k + b) k)" if "i2 \<le> k" "k \<le> n - 1" for k
    using that q(9) n_def b by (intro at_quantile_between b_def [unfolded n_def]) linarith+
  have al: "at_low_quantile d k = Some (between d (low_index n k) (n div k))" if "1 < k" for k
    unfolding n_def by (rule at_low_quantile_between) (use that n(3) in simp_all)
  define s where "s = \<lparr>minimum = d ! 0, p01 = between d l100 i100, p05 = between d l20 i20,
    q1 = between d l4 i4, median = between d (i2 + b) i2, q3 = between d (j3 + b) j3,
    p95 = between d (j95 + b) j95, p99 = between d (j99 + b) j99, maximum = d ! nat (n - 1)\<rparr>"
  have "at_quantile d i2 = Some (median s)" "at_quantile d j3 = Some (q3 s)"
    "at_quantile d j95 = Some (p95 s)" "at_quantile d j99 = Some (p99 s)"
    using aq q by (simp_all add: s_def)
  moreover have "at_low_quantile d 4 = Some (q1 s)" "at_low_quantile d 20 = Some (p05 s)" "at_low_quantile d 100 = Some (p01 s)"
    using al by (simp_all add: s_def i l)
  moreover have "rdi d 0 = Some (minimum s)" "rdi d (n - 1) = Some (maximum s)"
    using n by (simp_all add: s_def n_def)
  moreover have "\<lparr>minimum = minimum s, p01 = p01 s, p05 = p05 s, q1 = q1 s, median = median s, q3 = q3 s,
    p95 = p95 s, p99 = p99 s, maximum = maximum s\<rparr> = s" by simp
  ultimately have "summarize data = Some (d, s)"
    unfolding summarize_def n(2) n_def [symmetric] Let_def radix_sort_eq d_def [symmetric] i [symmetric] j [symmetric] by simp
  moreover have "sorted [minimum s, p01 s, p05 s, q1 s, median s, q3 s, p95 s, p99 s, maximum s]"
  proof -
    have ends: "minimum s = between d 0 0" "maximum s = between d (n - 1) (n - 1)"
      by (simp_all add: s_def between_def)
    show ?thesis unfolding sorted2_simps ends
      unfolding s_def summary.simps
      by (intro conjI between_mono [OF sorted]; (fold n_def)?; (rule TrueI | use q low b n(1) in linarith | simp))
  qed
  moreover have "minimum s = Min (set data)" "maximum s = Max (set data)"
  proof -
    have "nat (n - 1) = length data - 1" using n by (simp add: n_def nat_diff_distrib)
    then show "minimum s = Min (set data)" "maximum s = Max (set data)"
      using sorted_ends [OF assms] by (simp_all only: s_def summary.simps d_def)
  qed
  moreover have "median s = mid (sort data ! ((length data - 1) div 2)) (sort data ! (length data div 2))"
    using middle_indices [of "length d"] n
    by (simp only: s_def summary.simps between_def i b_def n_def n(2) d_def [symmetric] simp_thms)
  ultimately show ?thesis unfolding d_def by blast
qed

lemma quantiles_ordered_witness:
  "\<exists>s. summarize [7, 2, 9, 2, 5] = Some ([2, 2, 5, 7, 9], s) \<and> minimum s = 2 \<and> maximum s = 9 \<and> median s = 5"
proof -
  have "sort [7, 2, 9, 2, 5] = ([2, 2, 5, 7, 9] :: u32 list)" by simp
  then show ?thesis using quantiles_ordered [of "[7, 2, 9, 2, 5]"] by auto
qed

subsection \<open>The histogram\<close>

text \<open>
  \<open>human\<close> and \<open>cdf\<close> are the flags of \<open>statistics_params\<close>, \<open>bin\<close> is its \<open>bin_size\<close>, which is not 0
  when a histogram is printed.  A call of \<open>print_bar\<close> is the pair of its point and its count.  The
  state of the loop is the threshold, the count and the bars printed so far.
\<close>

definition shown :: "bool \<Rightarrow> u32 \<Rightarrow> u32 \<Rightarrow> u32 \<Rightarrow> u32 \<Rightarrow> bool" where
  "shown human bin low high threshold \<longleftrightarrow> \<not> human \<or> (threshold + bin > low \<and> threshold \<le> high)"

definition bin_step :: "bool \<Rightarrow> bool \<Rightarrow> u32 \<Rightarrow> u32 \<Rightarrow> u32 \<Rightarrow> u32 \<Rightarrow> u32 \<times> nat \<times> (u32 \<times> nat) list \<Rightarrow> u32 \<times> nat \<times> (u32 \<times> nat) list" where
  "bin_step human cdf bin low high v = (\<lambda>(threshold, count, out).
     if v > threshold then
       let next_threshold = (((v - 1) div bin) + 1) * bin;
           out = (if shown human bin low high threshold then out @ [(threshold, count)] else out);
           count = (if \<not> cdf then 0 else count);
           out = (if \<not> human \<and> next_threshold > threshold + bin then out @ [(threshold + bin, count)] else out);
           out = (if \<not> human \<and> next_threshold > threshold + 2 * bin then out @ [(next_threshold - bin, count)] else out)
       in (next_threshold, count + 1, out)
     else (threshold, count + 1, out))"

definition histogram :: "bool \<Rightarrow> bool \<Rightarrow> u32 \<Rightarrow> u32 \<Rightarrow> u32 \<Rightarrow> u32 list \<Rightarrow> (u32 \<times> nat) list option" where
  "histogram human cdf bin low high data = do {
     v \<leftarrow> rd data 0;
     let (threshold, count, out) = fold (bin_step human cdf bin low high) (drop 1 data) (v div bin * bin, 1, []);
     Some (if shown human bin low high threshold then out @ [(threshold, count)] else out)
   }"

text \<open>The point of the bar that a value belongs to.\<close>

definition ceiling_to :: "nat \<Rightarrow> nat \<Rightarrow> nat" where
  "ceiling_to b v = (v + b - 1) div b * b"

lemma ceiling_to_le: "0 < b \<Longrightarrow> ceiling_to b v < v + b"
  unfolding ceiling_to_def by (rule le_less_trans [OF div_times_less_eq_dividend]) simp

lemma ceiling_to_ge: "0 < b \<Longrightarrow> v \<le> ceiling_to b v"
  unfolding ceiling_to_def using mod_less_divisor [of b "v + b - 1"] div_mult_mod_eq [of "v + b - 1" b] by linarith

lemma ceiling_to_least: "0 < b \<Longrightarrow> v \<le> k * b \<Longrightarrow> ceiling_to b v \<le> k * b"
  unfolding ceiling_to_def by (rule mult_le_mono1) (simp add: less_Suc_eq_le [symmetric] div_less_iff_less_mult)

lemma ceiling_to_mono: "v \<le> w \<Longrightarrow> ceiling_to b v \<le> ceiling_to b w"
  unfolding ceiling_to_def by (intro mult_le_mono1 div_le_mono) simp

lemma ceiling_to_dvd [simp]: "b dvd ceiling_to b v"
  by (simp add: ceiling_to_def)

lemma ceiling_to_pred: "0 < v \<Longrightarrow> 0 < b \<Longrightarrow> ((v - 1) div b + 1) * b = ceiling_to b v"
  using div_add_self2 [of b "v - 1"] by (simp add: ceiling_to_def add.commute [of b])

text \<open>The arithmetic on 32 bits does not overflow if the largest value is two bins below the limit.\<close>

lemma next_threshold:
  fixes v bin threshold :: u32
  assumes "threshold < v" "0 < bin" "unat v + 2 * unat bin < 2 ^ 32"
  shows "unat (((v - 1) div bin + 1) * bin) = ceiling_to (unat bin) (unat v)"
    "unat (threshold + bin) = unat threshold + unat bin"
    "unat (threshold + 2 * bin) = unat threshold + 2 * unat bin"
proof -
  have v: "0 < unat v" "unat threshold < unat v" and b: "0 < unat bin"
    using assms(1,2) by (simp_all add: word_less_nat_alt)
  have "unat (v - 1) = unat v - 1" using v(1) by (simp add: unat_minus_one unat_gt_0)
  then have d: "unat ((v - 1) div bin) = (unat v - 1) div unat bin" by (simp add: unat_div)
  have "((unat v - 1) div unat bin + 1) * unat bin = ceiling_to (unat bin) (unat v)"
    by (rule ceiling_to_pred [OF v(1) b])
  moreover have "ceiling_to (unat bin) (unat v) < 2 ^ 32"
    using ceiling_to_le [OF b, of "unat v"] assms(3) by linarith
  moreover have "(unat v - 1) div unat bin + 1 < 2 ^ 32"
    using div_le_dividend [of "unat v - 1" "unat bin"] assms(3) v(1) b by linarith
  ultimately show "unat (((v - 1) div bin + 1) * bin) = ceiling_to (unat bin) (unat v)"
    using d by (simp add: unat_word_ariths)
  show "unat (threshold + bin) = unat threshold + unat bin" "unat (threshold + 2 * bin) = unat threshold + 2 * unat bin"
    using assms(3) v(2) by (simp_all add: unat_word_ariths)
qed

definition in_bar :: "u32 \<Rightarrow> u32 list \<Rightarrow> u32 \<Rightarrow> nat" where
  "in_bar bin vs pt = length (filter (\<lambda>v. ceiling_to (unat bin) (unat v) = unat pt) vs)"

text \<open>The invariant of the loop: \<open>v\<close> is the first value, \<open>vs\<close> are the values seen after it.\<close>

definition counted :: "u32 \<Rightarrow> u32 \<Rightarrow> u32 list \<Rightarrow> u32 \<times> nat \<times> (u32 \<times> nat) list \<Rightarrow> bool" where
  "counted bin v vs = (\<lambda>(threshold, count, out). let first = (\<lambda>pt. if pt = v div bin * bin then 1 else 0) in
     v div bin * bin \<le> threshold \<and> unat bin dvd unat threshold
     \<and> (\<forall>w\<in>set vs. ceiling_to (unat bin) (unat w) \<le> unat threshold)
     \<and> unat threshold \<le> ceiling_to (unat bin) (unat (last (v # vs)))
     \<and> count = in_bar bin vs threshold + first threshold
     \<and> (\<forall>(pt, k)\<in>set out. pt < threshold \<and> k = in_bar bin vs pt + first pt))"

lemma in_bar_snoc: "in_bar bin (vs @ [v]) pt = in_bar bin vs pt + (if ceiling_to (unat bin) (unat v) = unat pt then 1 else 0)"
  by (simp add: in_bar_def)

lemma in_bar_0: "(\<forall>w\<in>set vs. ceiling_to (unat bin) (unat w) < unat pt) \<Longrightarrow> in_bar bin vs pt = 0"
  by (auto simp: in_bar_def filter_empty_conv)

lemma counted_within:
  assumes c: "counted bin v vs (threshold, n, out)" and "0 < bin" "last (v # vs) \<le> w" "w \<le> threshold"
  shows "counted bin v (vs @ [w]) (threshold, n + 1, out)"
proof -
  have "unat threshold \<le> ceiling_to (unat bin) (unat w)"
    using c assms(3) ceiling_to_mono [of "unat (last (v # vs))" "unat w" "unat bin"]
    by (simp add: counted_def Let_def word_le_nat_alt del: last.simps)
  moreover have "ceiling_to (unat bin) (unat w) \<le> unat threshold"
    using c assms(2,4) ceiling_to_least [of "unat bin" "unat w" "unat threshold div unat bin"]
    by (simp add: counted_def Let_def word_le_nat_alt word_less_nat_alt)
  ultimately have "ceiling_to (unat bin) (unat w) = unat threshold" by simp
  with c show ?thesis by (fastforce simp: counted_def Let_def in_bar_snoc word_less_nat_alt)
qed

lemma counted_beyond:
  assumes c: "counted bin v vs (threshold, n, out)" and "0 < bin" "last (v # vs) \<le> w" "threshold < w"
    and nx: "unat nx = ceiling_to (unat bin) (unat w)"
    and o': "\<And>pt k. (pt, k) \<in> set out' \<Longrightarrow> (pt, k) \<in> set out \<or> (pt, k) = (threshold, n) \<or> k = 0 \<and> threshold < pt \<and> pt < nx"
  shows "counted bin v (vs @ [w]) (nx, 1, out')"
proof -
  have b: "0 < unat bin" using assms(2) by (simp add: word_less_nat_alt)
  have less: "threshold < nx" using assms(4) nx ceiling_to_ge [OF b, of "unat w"] by (simp add: word_less_nat_alt)
  have first: "v div bin * bin \<le> threshold" and below: "\<forall>w\<in>set vs. ceiling_to (unat bin) (unat w) \<le> unat threshold"
    using c by (simp_all add: counted_def Let_def)
  have none: "in_bar bin vs pt = 0" "pt \<noteq> v div bin * bin" if "threshold < pt" for pt
    using that first below by (auto intro!: in_bar_0 simp: word_less_nat_alt word_le_nat_alt dest: bspec)
  have "pt < nx \<and> k = in_bar bin (vs @ [w]) pt + (if pt = v div bin * bin then 1 else 0)" if "(pt, k) \<in> set out'" for pt k
  proof -
    have "pt < nx \<and> k = in_bar bin vs pt + (if pt = v div bin * bin then 1 else 0)"
      using o' [OF that] c less none [of pt] by (fastforce simp: counted_def Let_def)
    then show ?thesis using nx by (auto simp: in_bar_snoc word_less_nat_alt)
  qed
  moreover have "\<forall>u\<in>set (vs @ [w]). ceiling_to (unat bin) (unat u) \<le> unat nx"
    using below less nx by (auto simp: word_less_nat_alt)
  moreover have "in_bar bin (vs @ [w]) nx = 1" "nx \<noteq> v div bin * bin"
    using none [OF less] nx by (simp_all add: in_bar_snoc)
  ultimately show ?thesis using first less nx by (auto simp: counted_def Let_def)
qed

lemma counted_step:
  assumes c: "counted bin v vs s" and "0 < bin" "last (v # vs) \<le> w" "unat w + 2 * unat bin < 2 ^ 32"
  shows "counted bin v (vs @ [w]) (bin_step False False bin low high w s)"
proof -
  obtain threshold n out where s: "s = (threshold, n, out)" by (cases s) auto
  show ?thesis
  proof (cases "threshold < w")
    case False
    then show ?thesis using counted_within [of bin v vs threshold n out w] assms by (simp add: s bin_step_def)
  next
    case True
    let ?nx = "((w - 1) div bin + 1) * bin"
    have b: "0 < unat bin" using assms(2) by (simp add: word_less_nat_alt)
    note nx = next_threshold [OF True assms(2,4)]
    have "threshold < threshold + bin" using nx(2) b by (simp add: word_less_nat_alt)
    moreover have "threshold < ?nx - bin \<and> ?nx - bin < ?nx" if "threshold + 2 * bin < ?nx"
    proof -
      have "unat threshold + 2 * unat bin < unat ?nx" using that nx(3) by (simp add: word_less_nat_alt)
      moreover from this have "unat (?nx - bin) = unat ?nx - unat bin"
        by (intro unat_sub) (simp add: word_le_nat_alt)
      ultimately show ?thesis using b by (simp only: word_less_nat_alt) linarith
    qed
    moreover have "bin_step False False bin low high w s = (?nx, 1, out @ (threshold, n)
        # (if threshold + bin < ?nx then [(threshold + bin, 0)] else []) @ (if threshold + 2 * bin < ?nx then [(?nx - bin, 0)] else []))"
      using True by (simp add: s bin_step_def shown_def Let_def)
    ultimately show ?thesis
      by (simp only:) (rule counted_beyond [OF c [unfolded s] assms(2,3) True nx(1)]; auto split: if_splits)
  qed
qed

lemma counted_fold:
  assumes "counted bin v vs s" "0 < bin" "sorted (last (v # vs) # ws)" "\<And>w. w \<in> set ws \<Longrightarrow> unat w + 2 * unat bin < 2 ^ 32"
  shows "counted bin v (vs @ ws) (fold (bin_step False False bin low high) ws s)"
  using assms
proof (induction ws arbitrary: vs s)
  case (Cons w ws)
  then have "counted bin v (vs @ [w]) (bin_step False False bin low high w s)"
    by (intro counted_step) simp_all
  from Cons.IH [OF this] Cons.prems show ?case by simp
qed simp

lemma counted_start: "0 < bin \<Longrightarrow> counted bin v [] (v div bin * bin, 1, [])"
proof -
  assume b: "0 < bin"
  have le: "unat v div unat bin * unat bin \<le> unat v" by (rule div_times_less_eq_dividend)
  then have "unat v div unat bin < 2 ^ 32" "unat v div unat bin * unat bin < 2 ^ 32"
    using unsigned_less [of v, where ?'a = nat] le_less_trans [OF div_le_dividend] le_less_trans [OF le] by simp_all
  then have "unat (v div bin * bin) = unat v div unat bin * unat bin"
    by (simp add: unat_word_ariths unat_div)
  then show ?thesis using b order_trans [OF le ceiling_to_ge [of "unat bin" "unat v"]]
    by (simp add: counted_def in_bar_def word_less_nat_alt)
qed

text \<open>
  Each bar counts the values after the first that belong to it; the first value is counted in the
  bar of the multiple below it.
\<close>

lemma histogram_counted:
  assumes "sorted (v # vs)" "0 < bin" "\<And>w. w \<in> set vs \<Longrightarrow> unat w + 2 * unat bin < 2 ^ 32"
  shows "\<exists>bars. histogram False False bin low high (v # vs) = Some bars
    \<and> (\<forall>(pt, k)\<in>set bars. k = in_bar bin vs pt + (if pt = v div bin * bin then 1 else 0))"
proof -
  obtain threshold n out where s: "fold (bin_step False False bin low high) vs (v div bin * bin, 1, []) = (threshold, n, out)"
    by (metis prod_cases3)
  have "counted bin v vs (threshold, n, out)"
    using counted_fold [OF counted_start [OF assms(2)], of v vs low high] assms s by simp
  then show ?thesis using s by (auto simp: histogram_def shown_def counted_def Let_def)
qed

lemma bin_step_total:
  "fst (snd (bin_step False False bin low high v s)) + sum_list (map snd (snd (snd (bin_step False False bin low high v s))))
    = Suc (fst (snd s) + sum_list (map snd (snd (snd s))))"
  by (simp add: bin_step_def shown_def Let_def case_prod_unfold)

text \<open>Every value is counted once.\<close>

lemma histogram_total:
  assumes "histogram False False bin low high data = Some bars"
  shows "sum_list (map snd bars) = length data"
proof -
  have fold: "fst (snd (fold (bin_step False False bin low high) vs s)) + sum_list (map snd (snd (snd (fold (bin_step False False bin low high) vs s))))
    = length vs + fst (snd s) + sum_list (map snd (snd (snd s)))" for vs s
    by (induction vs arbitrary: s) (simp_all add: bin_step_total)
  obtain v vs where d: "data = v # vs" using assms by (cases data) (auto simp: histogram_def rd_def)
  show ?thesis using assms fold [of vs "(v div bin * bin, 1, [])"]
    by (auto simp: d histogram_def shown_def split: prod.splits)
qed



end
