(* ===== verification/Prandom.thy ===== *)
theory Prandom
  imports Prelude
begin

text \<open>
  The pseudo random numbers of the kernel, \<open>prandom_u32.c\<close>: four combined shift registers, seeded
  with fixed values.  The seeded state is kept in a static variable, an argument of the model.
\<close>

unbundle bit_operations_syntax

record rnd_state =
  rnd1 :: u32
  rnd2 :: u32
  rnd3 :: u32
  rnd4 :: u32

definition tausworthe :: "u32 \<Rightarrow> nat \<Rightarrow> nat \<Rightarrow> u32 \<Rightarrow> nat \<Rightarrow> u32" where
  "tausworthe s a b c d = push_bit d (s AND c) XOR drop_bit b (push_bit a s XOR s)"

definition prandom_u32_state :: "rnd_state \<Rightarrow> u32 \<times> rnd_state" where
  "prandom_u32_state s =
     (let s = \<lparr>rnd1 = tausworthe (rnd1 s) 6 13 4294967294 18, rnd2 = tausworthe (rnd2 s) 2 27 4294967288 2,
               rnd3 = tausworthe (rnd3 s) 13 21 4294967280 7, rnd4 = tausworthe (rnd4 s) 3 12 4294967168 13\<rparr>
      in (rnd1 s XOR rnd2 s XOR rnd3 s XOR rnd4 s, s))"

definition seed :: "u32 \<Rightarrow> u32 \<Rightarrow> u32" where
  "seed x m = (if x < m then x + m else x)"

fun draws :: "nat \<Rightarrow> rnd_state \<Rightarrow> rnd_state" where
  "draws 0 s = s"
| "draws (Suc n) s = draws n (snd (prandom_u32_state s))"

definition prandom_warmup :: "rnd_state \<Rightarrow> rnd_state" where
  "prandom_warmup = draws 10"

text \<open>The result is the new state and the new value of the static variable.\<close>

definition prandom_seed_full_state_fixed :: "rnd_state \<Rightarrow> rnd_state \<times> rnd_state" where
  "prandom_seed_full_state_fixed fixed_state =
     (if rnd1 fixed_state \<noteq> 0 \<or> rnd2 fixed_state \<noteq> 0 \<or> rnd3 fixed_state \<noteq> 0 \<or> rnd4 fixed_state \<noteq> 0
      then (fixed_state, fixed_state)
      else let s = prandom_warmup \<lparr>rnd1 = seed 0x6e70707a 2, rnd2 = seed 0x263d8fce 8, rnd3 = seed 0x3e3bb1e6 16,
             rnd4 = seed 0xcf068f5e 128\<rparr> in (s, s))"

definition no_state :: rnd_state where
  "no_state = \<lparr>rnd1 = 0, rnd2 = 0, rnd3 = 0, rnd4 = 0\<rparr>"

subsection \<open>The stream of numbers\<close>

lemma draws_add: "draws (m + n) s = draws n (draws m s)"
  by (induction m arbitrary: s) simp_all

lemma draws_Suc: "draws (Suc n) s = snd (prandom_u32_state (draws n s))"
  using draws_add [of n 1 s] by simp

text \<open>The number that is drawn after \<open>n\<close> others.\<close>

definition random_number :: "rnd_state \<Rightarrow> nat \<Rightarrow> u32" where
  "random_number s n = fst (prandom_u32_state (draws n s))"

definition fixed_start :: rnd_state where
  "fixed_start = fst (prandom_seed_full_state_fixed no_state)"

lemma fixed_start_nonzero: "rnd1 fixed_start \<noteq> 0"
  by code_simp

text \<open>Every seeding gives the same state, whether it is the first one or not.\<close>

lemma seed_fixed:
  assumes "fixed \<in> {no_state, fixed_start}"
  shows "prandom_seed_full_state_fixed fixed = (fixed_start, fixed_start)"
proof -
  have "fst (prandom_seed_full_state_fixed no_state) = snd (prandom_seed_full_state_fixed no_state)"
    by (simp add: prandom_seed_full_state_fixed_def Let_def)
  then have "prandom_seed_full_state_fixed no_state = (fixed_start, fixed_start)"
    by (simp add: fixed_start_def prod_eq_iff)
  moreover have "prandom_seed_full_state_fixed fixed_start = (fixed_start, fixed_start)"
    using fixed_start_nonzero by (simp add: prandom_seed_full_state_fixed_def)
  ultimately show ?thesis using assms by blast
qed

end
