(* ===== verification/Gen.thy ===== *)
theory Gen
  imports Prandom "HOL-Library.Multiset"
begin

text \<open>
  The generators of values, \<open>gen.c\<close>, and of map accesses, \<open>mapreads.c\<close>.  A generator
  \<open>name(num,seek,skip):pattern\<close> draws the values of an iterator in random order and writes each one
  into a buffer that has been filled from the pattern.

  An access to a buffer outside its bounds is the error \<open>Out_of_bounds\<close>, which the code never
  reports: the lemmas show that it does not happen.  Parameters are \<open>scan\<close>, the conversion of a
  number by \<open>sscanf\<close> at the start of a text (none if there is no number), \<open>fresh\<close>, the content of
  newly allocated memory, and the results of \<open>lrand48\<close>.  Allocations are assumed to succeed.
\<close>

type_synonym byte = "8 word"

datatype gen_error = Malformed_args | Too_many_args | Unknown_type | Invalid_spec | Invalid_pattern
  | Multiple_writes | Invalid_hex | Contradicting_sizes | Out_of_bounds

fun andthen :: "'e + 'a \<Rightarrow> ('a \<Rightarrow> 'e + 'b) \<Rightarrow> 'e + 'b" where
  "andthen (Inl e) f = Inl e"
| "andthen (Inr x) f = f x"

definition checked :: "'a option \<Rightarrow> gen_error + 'a" where
  "checked x = (case x of None \<Rightarrow> Inl Out_of_bounds | Some y \<Rightarrow> Inr y)"

lemma checked_Some [simp]: "checked (Some x) = Inr x"
  by (simp add: checked_def)

lemma andthen_Inr: "andthen x f = Inr z \<longleftrightarrow> (\<exists>y. x = Inr y \<and> f y = Inr z)"
  by (cases x) simp_all

lemma andthen_Inl: "andthen x f = Inl e \<longleftrightarrow> x = Inl e \<or> (\<exists>y. x = Inr y \<and> f y = Inl e)"
  by (cases x) simp_all

subsection \<open>Arguments\<close>

definition memchr :: "char \<Rightarrow> string \<Rightarrow> nat option" where
  "memchr c s = (if c \<in> set s then Some (length (takeWhile (\<lambda>x. x \<noteq> c) s)) else None)"

text \<open>\<open>s\<close> is the text up to the colon; the number in front of a comma or the bracket is converted.\<close>

fun args_loop :: "(string \<Rightarrow> u32 option) \<Rightarrow> nat \<Rightarrow> nat \<Rightarrow> u32 list \<Rightarrow> string \<Rightarrow> gen_error + u32 list" where
  "args_loop scan 0 i args s = Inl Too_many_args"
| "args_loop scan (Suc num) i args s =
     (let args = (case scan s of None \<Rightarrow> args | Some v \<Rightarrow> args[i := v])
      in case memchr CHR '','' s of
           None \<Rightarrow> Inr args
         | Some comma \<Rightarrow> args_loop scan num (i + 1) args (drop (comma + 1) s))"

definition gen_parse_args :: "(string \<Rightarrow> u32 option) \<Rightarrow> string \<Rightarrow> u32 list \<Rightarrow> gen_error + (string \<times> u32 list \<times> string)" where
  "gen_parse_args scan buf args =
     (case (memchr CHR '':'' buf, memchr CHR ''('' buf) of
        (Some colon, Some bracket) \<Rightarrow>
          if colon < bracket \<or> buf ! (colon - 1) \<noteq> CHR '')'' then Inl Malformed_args
          else
            let inner = drop (bracket + 1) (take colon buf)
            in andthen (if colon - 1 = bracket + 1 then Inr args else args_loop scan (length args) 0 args inner)
                 (\<lambda>args. Inr (take bracket buf, args, drop (colon + 1) buf))
      | _ \<Rightarrow> Inl Malformed_args)"

subsection \<open>Writers\<close>

datatype writer = Write_be32 | Write_le32 | Write_be16 | Write_le16 | Write_8

text \<open>The bytes that a writer stores: the index and the shift of the value.\<close>

fun stores :: "writer \<Rightarrow> (nat \<times> nat) list" where
  "stores Write_be32 = [(0, 24), (1, 16), (2, 8), (3, 0)]"
| "stores Write_le32 = [(3, 24), (2, 16), (1, 8), (0, 0)]"
| "stores Write_be16 = [(0, 8), (1, 0)]"
| "stores Write_le16 = [(1, 8), (0, 0)]"
| "stores Write_8 = [(0, 0)]"

definition run_writer :: "writer \<Rightarrow> nat \<Rightarrow> u32 \<Rightarrow> byte list \<Rightarrow> byte list option" where
  "run_writer w off val = each (\<lambda>(i, sh) b. wr b (off + i) (ucast (drop_bit sh val))) (stores w)"

definition writers :: "(string \<times> nat \<times> writer) list" where
  "writers = [(''>L'', 4, Write_be32), (''<L'', 4, Write_le32), (''>S'', 2, Write_be16), (''<S'', 2, Write_le16),
     (''<C'', 1, Write_8), (''>C'', 1, Write_8)]"

subsection \<open>Patterns\<close>

definition hexval :: "char \<Rightarrow> byte option" where
  "hexval c = (let n = of_char c :: nat in
     if of_char CHR ''0'' \<le> n \<and> n \<le> of_char CHR ''9'' then Some (of_nat (n - of_char CHR ''0''))
     else if of_char CHR ''a'' \<le> n \<and> n \<le> of_char CHR ''f'' then Some (of_nat (n - of_char CHR ''a'' + 10))
     else if of_char CHR ''A'' \<le> n \<and> n \<le> of_char CHR ''F'' then Some (of_nat (n - of_char CHR ''A'' + 10))
     else None)"

fun pattern_size :: "string \<Rightarrow> gen_error + nat" where
  "pattern_size [] = Inr 0"
| "pattern_size (c # s) =
     (if 2 \<le> length s \<and> c = CHR ''%'' then
        case map_of writers (take 2 s) of
          None \<Rightarrow> Inl Invalid_spec
        | Some (n, w) \<Rightarrow> andthen (pattern_size (drop 2 s)) (\<lambda>k. Inr (n + k))
      else if 1 \<le> length s \<and> hexval c \<noteq> None \<and> hexval (s ! 0) \<noteq> None then
        andthen (pattern_size (drop 1 s)) (\<lambda>k. Inr (1 + k))
      else Inl Invalid_pattern)"

definition put_digit :: "char \<Rightarrow> (byte \<Rightarrow> byte \<Rightarrow> byte) \<Rightarrow> nat \<Rightarrow> byte list \<Rightarrow> gen_error + byte list" where
  "put_digit c f k buf = (case hexval c of
     None \<Rightarrow> Inr buf
   | Some d \<Rightarrow> andthen (checked (rd buf k)) (\<lambda>b. checked (wr buf k (f b d))))"

fun pattern_parse :: "string \<Rightarrow> nat \<Rightarrow> byte list \<Rightarrow> writer option \<Rightarrow> nat \<Rightarrow> gen_error + (byte list \<times> writer option \<times> nat)" where
  "pattern_parse [] k buf writer off = Inr (buf, writer, off)"
| "pattern_parse (c # s) k buf writer off =
     (if c = CHR ''%'' then
        if writer \<noteq> None then Inl Multiple_writes
        else if length s < 2 then Inl Out_of_bounds
        else
          let (n, w) = (case map_of writers (take 2 s) of None \<Rightarrow> (0, None) | Some (n, w) \<Rightarrow> (n, Some w))
          in andthen (checked (each (\<lambda>i b. wr b (k + i) 23) [0..<n] buf))
               (\<lambda>buf. pattern_parse (drop 2 s) (k + n) buf w k)
      else if s = [] then Inl Out_of_bounds
      else
        andthen (put_digit c (\<lambda>_ d. push_bit 4 d) k buf)
          (\<lambda>buf. andthen (put_digit (s ! 0) (\<lambda>b d. b OR d) k buf)
            (\<lambda>buf. pattern_parse (drop 1 s) (k + 1) buf writer off)))"

text \<open>The hexadecimal keys and values of the accesses in a file, \<open>mapreads.c\<close>.\<close>

definition parse_hex :: "nat \<Rightarrow> string \<Rightarrow> byte list \<Rightarrow> gen_error + byte list" where
  "parse_hex n src dst = foldl (\<lambda>r i. andthen r (\<lambda>d.
     andthen (checked (rd src (2 * i))) (\<lambda>c.
     case hexval c of None \<Rightarrow> Inl Invalid_hex
     | Some h \<Rightarrow> andthen (checked (wr d i (push_bit 4 h))) (\<lambda>d.
         andthen (checked (rd src (2 * i + 1))) (\<lambda>c.
         case hexval c of None \<Rightarrow> Inl Invalid_hex
         | Some l \<Rightarrow> checked (wr d i (d ! i OR l))))))) (Inr dst) [0..<n]"

subsection \<open>Iterators\<close>

definition iter_counter :: "u32 \<Rightarrow> u32 \<Rightarrow> u32 \<Rightarrow> u32 list" where
  "iter_counter num seek skip =
     map (\<lambda>i. ucast (ucast seek + of_nat i * ucast (skip + 1) :: u64)) [0..<unat num]"

fun iter_draw :: "nat \<Rightarrow> nat \<Rightarrow> rnd_state \<Rightarrow> u32 list" where
  "iter_draw 0 skip s = []"
| "iter_draw (Suc n) skip s =
     (let s = draws skip s; (v, s) = prandom_u32_state s in v # iter_draw n skip s)"

definition iter_prandom_u32 :: "rnd_state \<Rightarrow> u32 \<Rightarrow> u32 \<Rightarrow> u32 \<Rightarrow> u32 list \<times> rnd_state" where
  "iter_prandom_u32 fixed num seek skip =
     (let (s, fixed) = prandom_seed_full_state_fixed fixed
      in (iter_draw (unat num) (unat skip) (draws (unat seek) s), fixed))"

datatype iter = Counter | Prandom_u32

definition iters :: "(string \<times> iter) list" where
  "iters = [(''counter'', Counter), (''prandom_u32'', Prandom_u32)]"

definition run_iter :: "iter \<Rightarrow> rnd_state \<Rightarrow> u32 \<Rightarrow> u32 \<Rightarrow> u32 \<Rightarrow> u32 list \<times> rnd_state" where
  "run_iter it fixed num seek skip = (case it of
     Counter \<Rightarrow> (iter_counter num seek skip, fixed)
   | Prandom_u32 \<Rightarrow> iter_prandom_u32 fixed num seek skip)"

subsection \<open>Generators\<close>

record gen =
  gbuf :: "byte list"
  glen :: nat
  gwriter :: "writer option"
  goff :: nat
  gvalues :: "u32 list"
  gnum :: nat

definition no_gen :: gen where
  "no_gen = \<lparr>gbuf = [], glen = 0, gwriter = None, goff = 0, gvalues = [], gnum = 0\<rparr>"

definition gen_init :: "(string \<Rightarrow> u32 option) \<Rightarrow> (nat \<Rightarrow> byte list) \<Rightarrow> rnd_state \<Rightarrow> string \<Rightarrow> gen_error + (gen \<times> rnd_state)" where
  "gen_init scan fresh fixed pattern =
     (if pattern = [] then Inr (no_gen, fixed)
      else andthen (gen_parse_args scan pattern [0, 0, 0]) (\<lambda>(name, args, pattern).
        case map_of iters name of
          None \<Rightarrow> Inl Unknown_type
        | Some it \<Rightarrow>
            andthen (pattern_size pattern) (\<lambda>len.
            andthen (pattern_parse pattern 0 (fresh len) None 0) (\<lambda>(buf, writer, off).
            let (values, fixed) = run_iter it fixed (args ! 0) (args ! 1) (args ! 2)
            in Inr (\<lparr>gbuf = buf, glen = len, gwriter = writer, goff = off, gvalues = values, gnum = unat (args ! 0)\<rparr>, fixed)))))"

text \<open>\<open>r\<close> is the result of \<open>lrand48\<close>.\<close>

definition gen_next :: "nat \<Rightarrow> gen \<Rightarrow> (bool \<times> gen) option" where
  "gen_next r g =
     (if gnum g = 0 then Some (False, g)
      else
        let index = r mod gnum g
        in Option.bind (rd (gvalues g) index) (\<lambda>value.
           Option.bind (rd (gvalues g) (gnum g - 1)) (\<lambda>v.
           Option.bind (wr (gvalues g) index v) (\<lambda>values.
           Option.bind (case gwriter g of None \<Rightarrow> Some (gbuf g) | Some w \<Rightarrow> run_writer w (goff g) value (gbuf g)) (\<lambda>buf.
           Some (True, g\<lparr>gvalues := values, gnum := gnum g - 1, gbuf := buf\<rparr>))))))"

subsection \<open>Filling the buffer\<close>

fun wsize :: "writer \<Rightarrow> nat" where
  "wsize Write_be32 = 4"
| "wsize Write_le32 = 4"
| "wsize Write_be16 = 2"
| "wsize Write_le16 = 2"
| "wsize Write_8 = 1"

lemma writers_size: "map_of writers spec = Some (n, w) \<Longrightarrow> n = wsize w"
  by (auto simp: writers_def split: if_splits)

text \<open>The bytes of a pattern; those that a writer will store are filled with 23.\<close>

fun bytes_of :: "string \<Rightarrow> byte list" where
  "bytes_of [] = []"
| "bytes_of (c # s) =
     (if c = CHR ''%'' then
        case map_of writers (take 2 s) of None \<Rightarrow> [] | Some (n, w) \<Rightarrow> replicate n 23 @ bytes_of (drop 2 s)
      else (push_bit 4 (the (hexval c)) OR the (hexval (s ! 0))) # bytes_of (drop 1 s))"

lemma hexval_percent [simp]: "hexval CHR ''%'' = None"
  by (simp add: hexval_def)

lemma length_bytes_of: "pattern_size s = Inr n \<Longrightarrow> length (bytes_of s) = n"
  by (induction s arbitrary: n rule: pattern_size.induct)
    (fastforce simp: andthen_Inr split: if_splits option.splits prod.splits)+

lemma each_fill:
  assumes "k + n \<le> length buf"
  shows "each (\<lambda>i b. wr b (k + i) (v :: 'a)) [0..<n] buf = Some (take k buf @ replicate n v @ drop (k + n) buf)"
proof -
  have "\<exists>b. each (\<lambda>i b. wr b (k + i) v) [0..<n] buf = Some b \<and> b = take k buf @ replicate n v @ drop (k + n) buf"
  proof (rule each_upt [where P = "\<lambda>i b. b = take k buf @ replicate i v @ drop (k + i) buf"], goal_cases)
    case (1 i s)
    then have "drop (k + i) buf = buf ! (k + i) # drop (Suc (k + i)) buf"
      using assms by (simp add: Cons_nth_drop_Suc)
    with 1 show ?case using assms
      by (auto simp: list_update_append replicate_app_Cons_same)
  qed (use assms in auto)
  then show ?thesis by simp
qed

lemma pattern_parse_ok:
  assumes "pattern_size s = Inr n" "k + n \<le> length buf"
  shows "pattern_parse s k buf w off = Inl Multiple_writes
    \<or> (\<exists>w' off'. pattern_parse s k buf w off = Inr (take k buf @ bytes_of s @ drop (k + n) buf, w', off')
        \<and> (w' = w \<and> off' = off \<or> (\<exists>v. w' = Some v \<and> off' + wsize v \<le> k + n)))"
  using assms
proof (induction s arbitrary: n k buf w off rule: pattern_size.induct)
  case (2 c s)
  show ?case
  proof (cases "2 \<le> length s \<and> c = CHR ''%''")
    case True
    then obtain m v n' where mv: "map_of writers (take 2 s) = Some (m, v)" "pattern_size (drop 2 s) = Inr n'" "n = m + n'"
      using "2.prems"(1) by (auto simp: andthen_Inr split: option.splits)
    let ?buf = "take k buf @ replicate m 23 @ drop (k + m) buf"
    have fill: "each (\<lambda>i b. wr b (k + i) 23) [0..<m] buf = Some ?buf"
      by (rule each_fill) (use "2.prems"(2) mv in simp)
    have "take (k + m) ?buf = take k buf @ replicate m 23" "drop (k + m + n') ?buf = drop (k + n) buf"
      using "2.prems"(2) mv by (simp_all add: min_def ac_simps)
    with "2.IH"(1) [OF True mv(1) refl mv(2), of "k + m" ?buf "Some v" k] show ?thesis
      using True "2.prems"(2) mv fill writers_size [OF mv(1)]
      by (cases w) (auto simp: Let_def numeral_2_eq_2)
  next
    case False
    then have h: "1 \<le> length s \<and> hexval c \<noteq> None \<and> hexval (s ! 0) \<noteq> None"
      using "2.prems"(1) by (simp split: if_splits)
    then obtain a b n' where ab: "hexval c = Some a" "hexval (s ! 0) = Some b" "pattern_size (drop 1 s) = Inr n'" "n = Suc n'"
      using "2.prems"(1) False by (auto simp: andthen_Inr)
    have c: "c \<noteq> CHR ''%''" using ab(1) by auto
    let ?buf = "buf[k := push_bit 4 a OR b]"
    have k: "k < length buf" using "2.prems"(2) ab(4) by simp
    then have "take (k + 1) ?buf = take k buf @ [push_bit 4 a OR b]" "drop (k + 1 + n') ?buf = drop (k + n) buf"
      using ab(4) by (simp_all add: take_Suc_conv_app_nth)
    with "2.IH"(2) [OF False h ab(3), of "k + 1" ?buf w off] show ?thesis
      using False h "2.prems"(2) ab c k by (auto simp: put_digit_def)
  qed
qed simp

subsection \<open>Writing a value\<close>

text \<open>The bytes of a value in the order of the writer, and the value they represent.\<close>

fun written :: "writer \<Rightarrow> u32 \<Rightarrow> byte list" where
  "written Write_be32 v = [ucast (drop_bit 24 v), ucast (drop_bit 16 v), ucast (drop_bit 8 v), ucast v]"
| "written Write_le32 v = [ucast v, ucast (drop_bit 8 v), ucast (drop_bit 16 v), ucast (drop_bit 24 v)]"
| "written Write_be16 v = [ucast (drop_bit 8 v), ucast v]"
| "written Write_le16 v = [ucast v, ucast (drop_bit 8 v)]"
| "written Write_8 v = [ucast v]"

fun big_endian :: "byte list \<Rightarrow> nat" where
  "big_endian [] = 0"
| "big_endian (b # bs) = unat b * 256 ^ length bs + big_endian bs"

fun read_value :: "writer \<Rightarrow> byte list \<Rightarrow> nat" where
  "read_value Write_be32 bs = big_endian bs"
| "read_value Write_le32 bs = big_endian (rev bs)"
| "read_value Write_be16 bs = big_endian bs"
| "read_value Write_le16 bs = big_endian (rev bs)"
| "read_value Write_8 bs = big_endian bs"

lemma length_written [simp]: "length (written w v) = wsize w"
  by (cases w) simp_all

lemma unat_drop_bit [simp]: "unat (drop_bit n v :: u32) = unat v div 2 ^ n"
  using unsigned_less [of v, where ?'a = nat]
  by (simp only: unsigned_drop_bit_eq) (simp add: take_bit_eq_mod drop_bit_eq_div)

lemma byte_of [simp]: "unat (ucast (drop_bit n v :: u32) :: byte) = unat v div 2 ^ n mod 256"
  by (simp only: unsigned_ucast_eq unat_drop_bit) (simp add: take_bit_eq_mod)

lemma byte_of_0 [simp]: "unat (ucast (v :: u32) :: byte) = unat v mod 256"
  using byte_of [of 0 v] by simp

text \<open>The value is read back modulo the size of the field.\<close>

lemma mod_bytes:
  fixes n :: nat
  shows "n mod 65536 = n div 256 mod 256 * 256 + n mod 256"
    "n mod 4294967296 = n div 16777216 mod 256 * 16777216 + (n div 65536 mod 256 * 65536 + (n div 256 mod 256 * 256 + n mod 256))"
proof -
  have 2: "m mod 65536 = m div 256 mod 256 * 256 + m mod 256" for m :: nat
    using mod_mult2_eq [of m 256 256] by simp
  have "n mod 4294967296 = 65536 * (n div 65536 mod 65536) + n mod 65536"
    using mod_mult2_eq [of n 65536 65536] by simp
  moreover have "n div 65536 div 256 = n div 16777216" by (simp add: div_mult2_eq [symmetric])
  ultimately show "n mod 4294967296 = n div 16777216 mod 256 * 16777216 + (n div 65536 mod 256 * 65536 + (n div 256 mod 256 * 256 + n mod 256))"
    unfolding 2 [of n] 2 [of "n div 65536"] by simp
qed (use mod_mult2_eq [of n 256 256] in simp)

lemma read_written: "read_value w (written w v) = unat v mod 256 ^ wsize w"
  by (cases w) (simp_all add: mod_bytes)

lemma run_writer_ok:
  assumes "off + wsize w \<le> length buf"
  shows "run_writer w off v buf = Some (take off buf @ written w v @ drop (off + wsize w) buf)"
proof -
  define xs mid ys where d: "xs = take off buf" "mid = take (wsize w) (drop off buf)" "ys = drop (off + wsize w) buf"
  have "buf = xs @ mid @ ys" unfolding d by (metis add.commute append_take_drop_id drop_drop)
  moreover have "length xs = off" "length mid = wsize w" using assms by (auto simp: d)
  ultimately show ?thesis unfolding d(3) [symmetric]
    by (cases w) (auto simp: run_writer_def wr_def list_update_append numeral_eq_Suc length_Suc_conv)
qed

text \<open>Overwriting one value by another.\<close>

definition stamp :: "writer option \<Rightarrow> nat \<Rightarrow> u32 \<Rightarrow> byte list \<Rightarrow> byte list" where
  "stamp wo off v buf = (case wo of None \<Rightarrow> buf | Some w \<Rightarrow> take off buf @ written w v @ drop (off + wsize w) buf)"

definition fits :: "writer option \<Rightarrow> nat \<Rightarrow> nat \<Rightarrow> bool" where
  "fits wo off n = (case wo of None \<Rightarrow> True | Some w \<Rightarrow> off + wsize w \<le> n)"

lemma length_stamp [simp]: "fits wo off (length buf) \<Longrightarrow> length (stamp wo off v buf) = length buf"
  by (auto simp: stamp_def fits_def split: option.splits)

lemma stamp_stamp: "fits wo off (length buf) \<Longrightarrow> stamp wo off v (stamp wo off u buf) = stamp wo off v buf"
  by (auto simp: stamp_def fits_def min_def split: option.splits)

subsection \<open>Drawing the values\<close>

definition gen_ok :: "gen \<Rightarrow> bool" where
  "gen_ok g \<longleftrightarrow> gnum g \<le> length (gvalues g) \<and> fits (gwriter g) (goff g) (length (gbuf g)) \<and> length (gbuf g) = glen g"

text \<open>The values that are still to be drawn.\<close>

definition remaining :: "gen \<Rightarrow> u32 multiset" where
  "remaining g = mset (take (gnum g) (gvalues g))"

lemma remove_by_last:
  assumes "i < length xs"
  shows "mset xs = add_mset (xs ! i) (mset (butlast (xs[i := last xs])))"
proof -
  from assms have ne: "xs \<noteq> []" by auto
  have "mset (xs[i := last xs]) = add_mset (last xs) (mset xs - {#xs ! i#})"
    by (rule mset_update [OF assms])
  moreover have "xs[i := last xs] = butlast (xs[i := last xs]) @ [last xs]"
    using ne append_butlast_last_id [of "xs[i := last xs]"] by (simp add: last_list_update)
  ultimately have "mset (butlast (xs[i := last xs])) = mset xs - {#xs ! i#}"
    by (metis add_mset_remove_trivial mset.simps(2) mset_append union_code union_mset_add_mset_right add.right_neutral mset.simps(1) add_mset_add_single add_right_cancel)
  then show ?thesis using nth_mem_mset [OF assms] by (simp add: insert_DiffM)
qed

lemma gen_next_ok:
  assumes "gen_ok g" "0 < gnum g"
  shows "\<exists>g' v. gen_next r g = Some (True, g') \<and> gen_ok g' \<and> remaining g = add_mset v (remaining g')
    \<and> gbuf g' = stamp (gwriter g) (goff g) v (gbuf g)
    \<and> gnum g = Suc (gnum g') \<and> glen g' = glen g \<and> gwriter g' = gwriter g \<and> goff g' = goff g"
proof -
  let ?i = "r mod gnum g"
  let ?xs = "take (gnum g) (gvalues g)"
  have i: "?i < gnum g" using assms(2) by simp
  have n: "gnum g \<le> length (gvalues g)" using assms(1) by (simp add: gen_ok_def)
  let ?vs = "(gvalues g)[?i := gvalues g ! (gnum g - 1)]"
  let ?g = "g\<lparr>gvalues := ?vs, gnum := gnum g - 1, gbuf := stamp (gwriter g) (goff g) (gvalues g ! ?i) (gbuf g)\<rparr>"
  have "(case gwriter g of None \<Rightarrow> Some (gbuf g) | Some w \<Rightarrow> run_writer w (goff g) (gvalues g ! ?i) (gbuf g))
    = Some (stamp (gwriter g) (goff g) (gvalues g ! ?i) (gbuf g))"
    using assms(1) by (auto simp: gen_ok_def fits_def stamp_def run_writer_ok split: option.splits)
  then have "gen_next r g = Some (True, ?g)"
    using assms(2) i n by (simp add: gen_next_def Let_def)
  moreover have "gen_ok ?g" using assms(1) by (auto simp: gen_ok_def)
  moreover have "remaining g = add_mset (gvalues g ! ?i) (remaining ?g)"
  proof -
    have l: "last ?xs = gvalues g ! (gnum g - 1)" using assms(2) n by (subst last_conv_nth) auto
    have "butlast (?xs[?i := last ?xs]) = take (gnum g - 1) ?vs"
      unfolding l take_update_swap [symmetric] using n by (simp add: butlast_take)
    moreover have "?xs ! ?i = gvalues g ! ?i" using i by simp
    ultimately show ?thesis using remove_by_last [of ?i ?xs] i n unfolding remaining_def by simp
  qed
  ultimately show ?thesis using assms(2) by (intro exI [of _ ?g] exI [of _ "gvalues g ! ?i"]) simp
qed

text \<open>Drawing until the generator is exhausted: the buffers that the caller sees.\<close>

fun gen_run :: "nat list \<Rightarrow> gen \<Rightarrow> (byte list list \<times> gen) option" where
  "gen_run [] g = Some ([], g)"
| "gen_run (r # rs) g = Option.bind (gen_next r g) (\<lambda>(more, h).
     if more then map_option (\<lambda>(bufs, h'). (gbuf h # bufs, h')) (gen_run rs h) else Some ([], h))"

lemma gen_run_all:
  assumes "gen_ok g" "gnum g \<le> length rs"
  shows "\<exists>bufs h. gen_run rs g = Some (bufs, h) \<and> gnum h = 0
    \<and> mset bufs = image_mset (\<lambda>v. stamp (gwriter g) (goff g) v (gbuf g)) (remaining g)"
  using assms
proof (induction rs arbitrary: g)
  case (Cons r rs)
  show ?case
  proof (cases "gnum g = 0")
    case False
    then obtain g' v where n: "gen_next r g = Some (True, g')" "gen_ok g'" "remaining g = add_mset v (remaining g')"
      "gbuf g' = stamp (gwriter g) (goff g) v (gbuf g)" "gnum g = Suc (gnum g')" "gwriter g' = gwriter g" "goff g' = goff g"
      using gen_next_ok [OF Cons.prems(1), of r] by blast
    obtain bufs h where "gen_run rs g' = Some (bufs, h)" "gnum h = 0"
      "mset bufs = image_mset (\<lambda>v. stamp (gwriter g') (goff g') v (gbuf g')) (remaining g')"
      using Cons.IH [OF n(2)] Cons.prems(2) n(5) by auto
    moreover have "stamp (gwriter g') (goff g') u (gbuf g') = stamp (gwriter g) (goff g) u (gbuf g)" for u
      unfolding n(4,6,7) by (rule stamp_stamp) (use Cons.prems(1) in \<open>auto simp: gen_ok_def\<close>)
    ultimately show ?thesis using n by simp
  qed (simp add: gen_next_def remaining_def)
qed (simp add: remaining_def)

subsection \<open>Creating a generator\<close>

lemma length_args_loop: "args_loop scan n i args s = Inr args' \<Longrightarrow> length args' = length args"
  by (induction scan n i args s rule: args_loop.induct) (auto simp: Let_def split: option.splits)

lemma length_parse_args: "gen_parse_args scan buf args = Inr (name, args', rest) \<Longrightarrow> length args' = length args"
  by (auto simp: gen_parse_args_def Let_def andthen_Inr dest: length_args_loop split: option.splits if_splits)

lemma args_loop_safe: "args_loop scan n i args s \<noteq> Inl Out_of_bounds"
  by (induction scan n i args s rule: args_loop.induct) (auto simp: Let_def split: option.splits)

lemma parse_args_safe: "gen_parse_args scan buf args \<noteq> Inl Out_of_bounds"
  using args_loop_safe by (auto simp: gen_parse_args_def Let_def andthen_Inl split: option.splits)

lemma pattern_size_safe: "pattern_size s \<noteq> Inl Out_of_bounds"
  by (induction s rule: pattern_size.induct) (auto simp: andthen_Inl split: option.splits)

lemma length_iter_draw [simp]: "length (iter_draw n skip s) = n"
  by (induction n arbitrary: s) (auto simp: Let_def split: prod.splits)

lemma length_run_iter [simp]: "length (fst (run_iter it fixed num seek skip)) = unat num"
  by (auto simp: run_iter_def iter_counter_def iter_prandom_u32_def Let_def split: iter.splits prod.splits)

lemma gen_init_ok:
  assumes fresh: "\<And>n. length (fresh n) = n"
  shows "gen_init scan fresh fixed pattern \<noteq> Inl Out_of_bounds"
    "gen_init scan fresh fixed pattern = Inr (g, fixed') \<Longrightarrow> gen_ok g \<and> gnum g = length (gvalues g)"
proof -
  have parse: "pattern_parse s 0 (fresh n) None 0 = Inl Multiple_writes
      \<or> (\<exists>w off. pattern_parse s 0 (fresh n) None 0 = Inr (bytes_of s, w, off) \<and> fits w off n)" if "pattern_size s = Inr n" for s n
    using pattern_parse_ok [OF that, of 0 "fresh n" None 0] fresh [of n] by (auto simp: fits_def)
  show "gen_init scan fresh fixed pattern \<noteq> Inl Out_of_bounds"
  proof
    assume "gen_init scan fresh fixed pattern = Inl Out_of_bounds"
    then obtain s n where "pattern_size s = Inr n" "pattern_parse s 0 (fresh n) None 0 = Inl Out_of_bounds"
      by (auto simp: gen_init_def andthen_Inl parse_args_safe pattern_size_safe Let_def split: option.splits prod.splits if_splits)
    with parse show False by fastforce
  qed
  assume init: "gen_init scan fresh fixed pattern = Inr (g, fixed')"
  show "gen_ok g \<and> gnum g = length (gvalues g)"
  proof (cases "pattern = []")
    case True
    with init show ?thesis by (auto simp: gen_init_def gen_ok_def fits_def no_gen_def)
  next
    case False
    with init obtain s n it args buf w off vs where
      s: "pattern_size s = Inr n" "pattern_parse s 0 (fresh n) None 0 = Inr (buf, w, off)"
      and v: "vs = fst (run_iter it fixed (args ! 0) (args ! 1) (args ! 2))"
      and g: "g = \<lparr>gbuf = buf, glen = n, gwriter = w, goff = off, gvalues = vs, gnum = unat (args ! 0)\<rparr>"
      by (auto simp: gen_init_def andthen_Inr Let_def case_prod_beta split: option.splits)
    from parse [OF s(1)] s(2) have "buf = bytes_of s" "fits w off n" by auto
    then show ?thesis using length_bytes_of [OF s(1)] by (simp add: g v gen_ok_def)
  qed
qed

subsection \<open>Iterators\<close>

lemma iter_counter_eq: "iter_counter num seek skip = map (\<lambda>i. seek + of_nat i * (skip + 1)) [0..<unat num]"
proof -
  have "ucast (ucast seek + of_nat i * ucast k :: u64) = seek + of_nat i * k" for i and k :: u32
    by (rule unsigned_word_eqI [where ?'a = nat])
      (simp add: unsigned_ucast_eq take_bit_eq_mod unat_word_ariths unsigned_of_nat mod_mod_cancel mod_simps)
  then show ?thesis by (simp add: iter_counter_def)
qed

lemma random_number_draws: "random_number (draws m s) k = random_number s (m + k)"
  by (simp add: random_number_def draws_add)

lemma iter_draw_nth: "i < n \<Longrightarrow> iter_draw n skip s ! i = random_number s (i * (skip + 1) + skip)"
proof (induction n arbitrary: s i)
  case (Suc n)
  let ?s = "draws (skip + 1) s"
  have e: "iter_draw (Suc n) skip s = random_number s skip # iter_draw n skip ?s"
    using draws_Suc [of skip s] by (simp add: Let_def random_number_def case_prod_beta)
  show ?case
  proof (cases i)
    case (Suc j)
    then show ?thesis using Suc.IH [of j ?s] Suc.prems
      by (simp add: e random_number_draws ac_simps del: iter_draw.simps draws.simps)
  qed (simp add: e del: iter_draw.simps)
qed simp

text \<open>The values are every \<open>skip + 1\<close>-th number of the fixed stream, \<open>seek\<close> numbers left out in front.\<close>

lemma iter_prandom_nth:
  assumes "fixed \<in> {no_state, fixed_start}" "i < unat num"
  shows "fst (iter_prandom_u32 fixed num seek skip) ! i = random_number fixed_start (unat seek + i * (unat skip + 1) + unat skip)"
  using assms(2) by (simp add: iter_prandom_u32_def seed_fixed [OF assms(1)] iter_draw_nth random_number_draws add.assoc)

subsection \<open>Hexadecimal texts\<close>

definition hexdigit :: "nat \<Rightarrow> char" where
  "hexdigit n = ''0123456789abcdef'' ! n"

fun hex :: "byte list \<Rightarrow> string" where
  "hex [] = []"
| "hex (b # bs) = hexdigit (unat b div 16) # hexdigit (unat b mod 16) # hex bs"

lemma hexval_hexdigit [simp]:
  assumes "n < 16"
  shows "hexval (hexdigit n) = Some (of_nat n)"
proof -
  have "\<forall>n\<in>set [0..<16]. hexval (hexdigit n) = Some (of_nat n)" by code_simp
  with assms show ?thesis by simp
qed

lemma hexdigit_percent: "n < 16 \<Longrightarrow> hexdigit n \<noteq> CHR ''%''"
  by (metis hexval_hexdigit hexval_percent option.distinct(1))

lemma nibbles: "push_bit 4 (of_nat (unat b div 16)) OR of_nat (unat b mod 16) = (b :: byte)"
proof -
  have "of_nat (unat b div 16) = drop_bit 4 b" "of_nat (unat b mod 16) = take_bit 4 b"
    by (simp_all add: drop_bit_eq_div take_bit_eq_mod word_arith_nat_div word_arith_nat_mod)
  moreover have "push_bit 4 (drop_bit 4 b) OR take_bit 4 b = b"
    by (rule bit_eqI) (auto simp: bit_or_iff bit_push_bit_iff bit_drop_bit_eq bit_take_bit_iff not_le)
  ultimately show ?thesis by simp
qed

lemma hex_digits: "unat (b :: byte) div 16 < 16" "unat b mod 16 < 16"
  using unsigned_less [of b, where ?'a = nat] by auto

lemma pattern_size_hex [simp]: "pattern_size (hex bs) = Inr (length bs)"
  by (induction bs) (auto simp: hex_digits dest: hexdigit_percent [OF hex_digits(1), THEN notE])

lemma pattern_parse_hex: "k + length bs \<le> length buf \<Longrightarrow>
  pattern_parse (hex bs) k buf w off = Inr (take k buf @ bs @ drop (k + length bs) buf, w, off)"
proof (induction bs arbitrary: k buf)
  case (Cons b bs)
  then show ?case
    by (simp add: hexdigit_percent hex_digits put_digit_def nibbles take_Suc_conv_app_nth)
qed simp

lemma hex_nth:
  "i < length bs \<Longrightarrow> hex bs ! (2 * i) = hexdigit (unat (bs ! i) div 16) \<and> hex bs ! (2 * i + 1) = hexdigit (unat (bs ! i) mod 16)"
proof (induction bs arbitrary: i)
  case (Cons b bs)
  then show ?case by (cases i) auto
qed simp

lemma length_hex [simp]: "length (hex bs) = 2 * length bs"
  by (induction bs) simp_all

lemma parse_hex_hex:
  assumes "length bs \<le> length dst"
  shows "parse_hex (length bs) (hex bs) dst = Inr (bs @ drop (length bs) dst)"
proof -
  have "i \<le> length bs \<Longrightarrow> parse_hex i (hex bs) dst = Inr (take i bs @ drop i dst)" for i
  proof (induction i)
    case (Suc i)
    then have "drop i dst = dst ! i # drop (Suc i) dst" using assms by (simp add: Cons_nth_drop_Suc)
    with Suc show ?case using assms hex_nth [of i bs]
      by (simp add: parse_hex_def hex_digits nibbles list_update_append take_Suc_conv_app_nth nth_append)
  qed (simp add: parse_hex_def)
  from this [OF order_refl] show ?thesis by simp
qed

subsection \<open>Texts of arguments\<close>

fun numbers :: "nat list \<Rightarrow> string" where
  "numbers [] = []"
| "numbers [n] = decimal n"
| "numbers (n # m # ns) = decimal n @ CHR '','' # numbers (m # ns)"

text \<open>The conversion of a number reads its digits.\<close>

definition scans_numbers :: "(string \<Rightarrow> u32 option) \<Rightarrow> bool" where
  "scans_numbers scan \<longleftrightarrow> (\<forall>n s. s \<noteq> [] \<longrightarrow> \<not> is_digit (hd s) \<longrightarrow> scan (decimal n @ s) = Some (of_nat n))"

lemma memchr_skip: "c \<notin> set p \<Longrightarrow> memchr c (p @ c # s) = Some (length p)"
  by (auto simp: memchr_def takeWhile_append)

lemma memchr_None: "c \<notin> set s \<Longrightarrow> memchr c s = None"
  by (simp add: memchr_def)

lemma decimal_not_in: "\<not> is_digit c \<Longrightarrow> c \<notin> set (decimal n)"
  using digits_decimal by blast

lemma not_digits [simp]: "\<not> is_digit CHR '',''" "\<not> is_digit CHR '':''" "\<not> is_digit CHR '')''" "\<not> is_digit CHR ''(''"
  by (simp_all add: is_digit_def)

lemma args_loop_numbers:
  assumes "scans_numbers scan" "i + length ns \<le> length args" "ns \<noteq> []" "num = length args - i"
  shows "args_loop scan num i args (numbers ns @ '')'') = Inr (take i args @ map of_nat ns @ drop (i + length ns) args)"
  using assms(2-)
proof (induction ns arbitrary: num i args rule: numbers.induct)
  case (2 n)
  obtain k where "num = Suc k" using "2.prems" by (intro that [of "num - 1"]) simp
  moreover have "scan (decimal n @ '')'') = Some (of_nat n)" using assms(1) by (simp add: scans_numbers_def)
  ultimately show ?case using "2.prems" decimal_not_in [of "CHR '',''" n]
    by (simp add: memchr_None upd_conv_take_nth_drop)
next
  case (3 n m ns)
  obtain k where k: "num = Suc k" using "3.prems" by (intro that [of "num - 1"]) simp
  have "scan (decimal n @ CHR '','' # numbers (m # ns) @ '')'') = Some (of_nat n)"
    using assms(1) by (simp add: scans_numbers_def)
  moreover have "args_loop scan k (i + 1) (args[i := of_nat n]) (numbers (m # ns) @ '')'')
      = Inr (take (i + 1) (args[i := of_nat n]) @ map of_nat (m # ns) @ drop (i + 1 + length (m # ns)) (args[i := of_nat n]))"
    by (rule "3.IH") (use "3.prems" k in auto)
  ultimately show ?case using "3.prems"(1) unfolding k
    by (simp add: memchr_skip decimal_not_in take_Suc_conv_app_nth)
qed simp

lemma colon_free_numbers: "CHR '':'' \<notin> set (numbers ns)"
  by (induction ns rule: numbers.induct) (auto simp: decimal_not_in)

text \<open>The arguments of a text that is written as the usage says are read back.\<close>

lemma parse_args_numbers:
  assumes "scans_numbers scan" "length ns \<le> length args" "ns \<noteq> []" "CHR '':'' \<notin> set name" "CHR ''('' \<notin> set name"
  shows "gen_parse_args scan (name @ ''('' @ numbers ns @ ''):'' @ rest) args = Inr (name, map of_nat ns @ drop (length ns) args, rest)"
proof -
  let ?p = "name @ ''('' @ numbers ns @ '')''" and ?buf = "name @ ''('' @ numbers ns @ ''):'' @ rest"
  have buf: "?buf = ?p @ CHR '':'' # rest" by simp
  have "memchr CHR '':'' ?buf = Some (length ?p)" unfolding buf
    by (rule memchr_skip) (use assms(4) colon_free_numbers in auto)
  moreover have "memchr CHR ''('' ?buf = Some (length name)" using assms(5) memchr_skip by simp
  moreover have "numbers ns \<noteq> []" using assms(3) by (cases ns rule: numbers.cases) auto
  moreover have "?buf ! (length ?p - 1) = CHR '')''" by (simp add: nth_append)
  moreover have "drop (length name + 1) (take (length ?p) ?buf) = numbers ns @ '')''" by simp
  moreover have "args_loop scan (length args) 0 args (numbers ns @ '')'') = Inr (map of_nat ns @ drop (length ns) args)"
    using args_loop_numbers [OF assms(1), of 0 ns args "length args"] assms(2,3) by simp
  ultimately show ?thesis by (simp add: gen_parse_args_def Let_def numeral_3_eq_3)
qed

subsection \<open>Generated accesses to maps\<close>

record mapreads_gen =
  mbuf :: string
  mname :: string
  mkey_len :: nat
  mvalue_len :: nat
  mgen :: gen

definition next_gen_pattern ::
  "(string \<Rightarrow> u32 option) \<Rightarrow> (nat \<Rightarrow> byte list) \<Rightarrow> mapreads_gen \<Rightarrow> rnd_state \<Rightarrow> gen_error + (mapreads_gen \<times> rnd_state)" where
  "next_gen_pattern scan fresh mg fixed =
     (if mbuf mg = [] then Inr (mg, fixed)
      else
        let (b, rest) = (case memchr CHR ''+'' (mbuf mg) of
              Some n \<Rightarrow> (take n (mbuf mg), drop (n + 1) (mbuf mg))
            | None \<Rightarrow> (mbuf mg, []))
        in andthen (gen_parse_args scan b [0, 0]) (\<lambda>(name, s, b).
           andthen (gen_init scan fresh fixed b) (\<lambda>(g, fixed).
           if glen g \<noteq> unat (s ! 0) + unat (s ! 1) then Inl Contradicting_sizes
           else Inr (\<lparr>mbuf = rest, mname = name, mkey_len = unat (s ! 0), mvalue_len = unat (s ! 1), mgen = g\<rparr>, fixed))))"

definition mapreads_gen_init ::
  "(string \<Rightarrow> u32 option) \<Rightarrow> (nat \<Rightarrow> byte list) \<Rightarrow> string \<Rightarrow> rnd_state \<Rightarrow> gen_error + (mapreads_gen \<times> rnd_state)" where
  "mapreads_gen_init scan fresh buf fixed =
     next_gen_pattern scan fresh \<lparr>mbuf = buf, mname = [], mkey_len = 0, mvalue_len = 0, mgen = no_gen\<rparr> fixed"

lemma andthen_cong [fundef_cong]:
  "x = x' \<Longrightarrow> (\<And>y. x' = Inr y \<Longrightarrow> f y = g y) \<Longrightarrow> andthen x f = andthen x' g"
  by (cases x') simp_all

lemma next_gen_pattern_shorter:
  assumes "next_gen_pattern scan fresh mg fixed = Inr (mg', fixed')" "mbuf mg \<noteq> []"
  shows "length (mbuf mg') < length (mbuf mg)"
proof -
  have "length (snd (case memchr c s of Some n \<Rightarrow> (take n s, drop (n + 1) s) | None \<Rightarrow> (s, []))) < length s"
    if "s \<noteq> []" for c s
    using that by (cases "memchr c s") auto
  from this [OF assms(2), of "CHR ''+''"] assms show ?thesis
    by (auto simp: next_gen_pattern_def andthen_Inr case_prod_beta split: if_splits)
qed

text \<open>The access is the name of a map, a key and a value.\<close>

function mapreads_gen_next ::
  "(string \<Rightarrow> u32 option) \<Rightarrow> (nat \<Rightarrow> byte list) \<Rightarrow> nat \<Rightarrow> mapreads_gen \<Rightarrow> rnd_state
   \<Rightarrow> gen_error + ((string \<times> byte list \<times> byte list) option \<times> mapreads_gen \<times> rnd_state)" where
  "mapreads_gen_next scan fresh r mg fixed =
     (case gen_next r (mgen mg) of
        None \<Rightarrow> Inl Out_of_bounds
      | Some (True, g) \<Rightarrow>
          Inr (Some (mname mg, take (mkey_len mg) (gbuf g), take (mvalue_len mg) (drop (mkey_len mg) (gbuf g))), mg\<lparr>mgen := g\<rparr>, fixed)
      | Some (False, g) \<Rightarrow>
          if mbuf mg = [] then Inr (None, mg\<lparr>mgen := g\<rparr>, fixed)
          else andthen (next_gen_pattern scan fresh mg fixed) (\<lambda>(mg, fixed). mapreads_gen_next scan fresh r mg fixed))"
  by pat_completeness auto
termination
  by (relation "measure (\<lambda>(scan, fresh, r, mg, fixed). length (mbuf mg))") (auto dest: next_gen_pattern_shorter)

declare mapreads_gen_next.simps [simp del]

definition mapreads_ok :: "mapreads_gen \<Rightarrow> bool" where
  "mapreads_ok mg \<longleftrightarrow> gen_ok (mgen mg) \<and> (gnum (mgen mg) \<noteq> 0 \<longrightarrow> glen (mgen mg) = mkey_len mg + mvalue_len mg)"

lemma next_gen_pattern_ok:
  assumes fresh: "\<And>n. length (fresh n) = n"
  shows "next_gen_pattern scan fresh mg fixed \<noteq> Inl Out_of_bounds"
    "next_gen_pattern scan fresh mg fixed = Inr (mg', fixed') \<Longrightarrow> mapreads_ok mg \<Longrightarrow> mapreads_ok mg'"
  using gen_init_ok [OF fresh]
  by (auto simp: next_gen_pattern_def andthen_Inl andthen_Inr case_prod_beta parse_args_safe mapreads_ok_def split: if_splits)

text \<open>The result is an access whose key and value have the announced lengths, or the end of the patterns.\<close>

lemma mapreads_gen_next_ok:
  assumes fresh: "\<And>n. length (fresh n) = n" and "mapreads_ok mg"
  shows "mapreads_gen_next scan fresh r mg fixed \<noteq> Inl Out_of_bounds
    \<and> (\<forall>access mg' fixed'. mapreads_gen_next scan fresh r mg fixed = Inr (access, mg', fixed') \<longrightarrow> mapreads_ok mg'
        \<and> (case access of None \<Rightarrow> mbuf mg' = [] \<and> gnum (mgen mg') = 0
           | Some (name, key, val) \<Rightarrow> name = mname mg' \<and> length key = mkey_len mg' \<and> length val = mvalue_len mg'))"
  using assms(2)
proof (induction "length (mbuf mg)" arbitrary: mg fixed rule: less_induct)
  case less
  show ?case
  proof (cases "gnum (mgen mg) = 0")
    case True
    then have n: "gen_next r (mgen mg) = Some (False, mgen mg)" by (simp add: gen_next_def)
    show ?thesis
    proof (cases "mbuf mg = []")
      case True
      with n \<open>gnum (mgen mg) = 0\<close> less.prems show ?thesis
        by (subst (1 2) mapreads_gen_next.simps) (simp add: mapreads_ok_def)
    next
      case False
      then have step: "mapreads_gen_next scan fresh r mg fixed
        = andthen (next_gen_pattern scan fresh mg fixed) (\<lambda>(mg, fixed). mapreads_gen_next scan fresh r mg fixed)"
        using n by (subst mapreads_gen_next.simps) simp
      show ?thesis
      proof (cases "next_gen_pattern scan fresh mg fixed")
        case (Inl e)
        then show ?thesis using next_gen_pattern_ok(1) [of fresh, OF fresh] by (auto simp: step)
      next
        case (Inr x)
        then obtain mg' fixed' where x: "next_gen_pattern scan fresh mg fixed = Inr (mg', fixed')" by (cases x) auto
        from less.hyps [OF next_gen_pattern_shorter [OF x False] next_gen_pattern_ok(2) [of fresh, OF fresh x less.prems], of fixed']
        show ?thesis unfolding step x by simp
      qed
    qed
  next
    case False
    then obtain g' v where n: "gen_next r (mgen mg) = Some (True, g')" "gen_ok g'" "glen g' = glen (mgen mg)"
      using gen_next_ok [of "mgen mg" r] less.prems by (auto simp: mapreads_ok_def)
    then show ?thesis using False less.prems
      by (subst (1 2) mapreads_gen_next.simps) (auto simp: mapreads_ok_def gen_ok_def)
  qed
qed

text \<open>The conversion of a decimal number, the concrete instance of \<open>scan\<close>.\<close>

definition sscanf_u32 :: "string \<Rightarrow> u32 option" where
  "sscanf_u32 s = (let ds = takeWhile is_digit s in if ds = [] then None else Some (of_nat (undecimal ds)))"

lemma sscanf_u32_scans: "scans_numbers sscanf_u32"
proof -
  have "takeWhile is_digit (decimal n @ s) = decimal n" if "s \<noteq> []" "\<not> is_digit (hd s)" for n s
    using that digits_decimal [of _ n] by (subst takeWhile_append2) (auto simp: takeWhile_eq_Nil_iff)
  then show ?thesis by (simp add: scans_numbers_def sscanf_u32_def Let_def)
qed

text \<open>
  C20: a generator that has been created draws every one of its values exactly once, whatever numbers
  \<open>lrand48\<close> returns, stays within its buffers, and is then exhausted; each draw shows the bytes of the
  pattern with the bytes of the value written over them.
\<close>

theorem generator_draws_all:
  assumes "\<And>n. length (fresh n) = n" "gen_init scan fresh fixed pattern = Inr (g, fixed')" "gnum g \<le> length rs"
  shows "\<exists>bufs h. gen_run rs g = Some (bufs, h) \<and> gnum h = 0
    \<and> mset bufs = image_mset (\<lambda>v. stamp (gwriter g) (goff g) v (gbuf g)) (mset (gvalues g))"
proof -
  from gen_init_ok(2) [of fresh, OF assms(1,2)] have "gen_ok g" "gnum g = length (gvalues g)" by simp_all
  with gen_run_all [OF _ assms(3)] show ?thesis by (simp add: remaining_def)
qed

lemma generator_draws_all_witness:
  "\<exists>bufs h. gen_run [5, 0, 7] \<lparr>gbuf = [0xab, 23, 23], glen = 3, gwriter = Some Write_be16, goff = 1, gvalues = [7, 8, 9], gnum = 3\<rparr> = Some (bufs, h)
    \<and> gnum h = 0 \<and> mset bufs = {#[0xab, 0, 7], [0xab, 0, 8], [0xab, 0, 9]#}"
proof -
  have init: "gen_init sscanf_u32 (\<lambda>n. replicate n 0) no_state ''counter(3,7):ab%>S''
    = Inr (\<lparr>gbuf = [0xab, 23, 23], glen = 3, gwriter = Some Write_be16, goff = 1, gvalues = [7, 8, 9], gnum = 3\<rparr>, no_state)"
    by code_simp
  show ?thesis using generator_draws_all [OF _ init, of "[5, 0, 7]"] by (simp add: stamp_def)
qed



end
