(* ===== verification/Ktest.thy ===== *)
theory Ktest
  imports Gen
begin

text \<open>
  Test cases of the symbolic executor, \<open>ktest.c\<close>: a header, arguments and a sequence of named
  objects, integers in big endian.  The file is the list \<open>kbuf\<close>; a pointer into it is the bytes it
  points to.  An integer that cannot be read is \<open>-1\<close>, as in the code.

  On top of it the map accesses that are recorded in a test case, \<open>mapreads_ktest_next\<close> of
  \<open>mapreads.c\<close>.
\<close>

record ktest_buf =
  kbuf :: "byte list"
  koffset :: u64
  rewind_offset :: u64
  sk_buff :: "byte list option"

datatype ktest_error = Bad_magic | Bad_version | Bad_args | Bad_symargs | Bad_numobjects | No_sk_buff
  | Unexpected_end | Unexpected_object | Unexpected_size

abbreviation chars :: "string \<Rightarrow> byte list" where
  "chars s \<equiv> map of_char s"

definition ktest_rewind :: "ktest_buf \<Rightarrow> ktest_buf" where
  "ktest_rewind k = k\<lparr>koffset := rewind_offset k\<rparr>"

definition klen :: "ktest_buf \<Rightarrow> u64" where
  "klen k = of_nat (length (kbuf k))"

definition ktest_read :: "u32 \<Rightarrow> ktest_buf \<Rightarrow> (byte list \<times> ktest_buf) option" where
  "ktest_read n k =
     (if klen k - koffset k < ucast n then None
      else Some (take (unat n) (drop (unat (koffset k)) (kbuf k)), k\<lparr>koffset := koffset k + ucast n\<rparr>))"

definition ktest_read_int :: "ktest_buf \<Rightarrow> u32 \<times> ktest_buf" where
  "ktest_read_int k = (case ktest_read 4 k of
     None \<Rightarrow> (- 1, k)
   | Some (bs, k) \<Rightarrow> (of_nat (big_endian bs), k))"

text \<open>The name and the content of the next object, the registers and stacks of the executor left out.\<close>

partial_function (option) ktest_next_obj :: "ktest_buf \<Rightarrow> ((byte list \<times> byte list) option \<times> ktest_buf) option" where
  "ktest_next_obj k =
     (let (name_len, k) = ktest_read_int k in
      if name_len = - 1 then Some (None, k)
      else case ktest_read name_len k of
        None \<Rightarrow> Some (None, k)
      | Some (name, k) \<Rightarrow>
          let (obj_len, k) = ktest_read_int k in
          if obj_len = - 1 then Some (None, k)
          else case ktest_read obj_len k of
            None \<Rightarrow> Some (None, k)
          | Some (obj, k) \<Rightarrow>
              if name = chars ''stack'' \<or> name = chars ''sym_reg'' then ktest_next_obj k
              else Some (Some (name, obj), k))"

declare ktest_next_obj.simps [code]

definition ktest_get_obj :: "string \<Rightarrow> ktest_buf \<Rightarrow> (byte list option \<times> ktest_buf) option" where
  "ktest_get_obj name k = (case ktest_next_obj k of
     None \<Rightarrow> None
   | Some (None, k') \<Rightarrow> Some (None, k'\<lparr>koffset := koffset k\<rparr>)
   | Some (Some (name2, obj), k') \<Rightarrow>
       if name2 \<noteq> chars name then Some (None, k'\<lparr>koffset := koffset k\<rparr>) else Some (Some obj, k'))"

partial_function (option) ktest_find_obj :: "string \<Rightarrow> ktest_buf \<Rightarrow> (byte list option \<times> ktest_buf) option" where
  "ktest_find_obj name k = (case ktest_next_obj k of
     None \<Rightarrow> None
   | Some (None, k) \<Rightarrow> Some (None, k)
   | Some (Some (name2, obj), k) \<Rightarrow> if name2 = chars name then Some (Some obj, k) else ktest_find_obj name k)"

declare ktest_find_obj.simps [code]

fun skip_args :: "nat \<Rightarrow> ktest_buf \<Rightarrow> ktest_error + ktest_buf" where
  "skip_args 0 k = Inr k"
| "skip_args (Suc n) k =
     (let (len, k) = ktest_read_int k in
      case ktest_read len k of None \<Rightarrow> Inl Bad_args | Some (_, k) \<Rightarrow> skip_args n k)"

definition ktest_init :: "byte list \<Rightarrow> (ktest_error + ktest_buf) option" where
  "ktest_init buf =
     (let k = \<lparr>kbuf = buf, koffset = 5, rewind_offset = 0, sk_buff = None\<rparr> in
      if length buf < 5 \<or> take 5 buf \<noteq> chars ''KTEST'' then Some (Inl Bad_magic)
      else
        let (version, k) = ktest_read_int k in
        if version \<noteq> 3 then Some (Inl Bad_version)
        else
          let (num_args, k) = ktest_read_int k in
          case skip_args (unat num_args) k of
            Inl e \<Rightarrow> Some (Inl e)
          | Inr k \<Rightarrow>
              (case ktest_read 8 k of
                 None \<Rightarrow> Some (Inl Bad_symargs)
               | Some (_, k) \<Rightarrow>
                   (case ktest_read 4 k of
                      None \<Rightarrow> Some (Inl Bad_numobjects)
                    | Some (_, k) \<Rightarrow>
                        Option.bind (ktest_get_obj ''real_sk_buff'' k) (\<lambda>(obj, k).
                          case obj of
                            None \<Rightarrow> Some (Inl No_sk_buff)
                          | Some _ \<Rightarrow> Some (Inr (k\<lparr>sk_buff := obj, rewind_offset := koffset k\<rparr>))))))"

text \<open>A recorded access: the name of the map, the key, the value unless nothing was found, and the result.\<close>

record mapread =
  mr_name :: "byte list"
  mr_key :: "byte list"
  mr_value :: "byte list option"
  mr_res :: "byte list"

partial_function (option) mapreads_ktest_next :: "bool \<Rightarrow> ktest_buf \<Rightarrow> (ktest_error + (mapread option \<times> ktest_buf)) option" where
  "mapreads_ktest_next skip k =
     Option.bind (ktest_next_obj k) (\<lambda>(key, k).
     case key of
       None \<Rightarrow> if \<not> skip then Some (Inl Unexpected_end) else Some (Inr (None, k))
     | Some (n, key) \<Rightarrow>
         if length n < 4 \<or> take 4 n \<noteq> chars ''key_'' then
           if \<not> skip \<or> (6 \<le> length n \<and> take 6 n = chars ''value_'') \<or> (9 \<le> length n \<and> take 9 n = chars ''read_res_'')
           then Some (Inl Unexpected_object)
           else mapreads_ktest_next skip k
         else
           let name = drop 4 n in
           Option.bind (ktest_next_obj k) (\<lambda>(val, k).
           case val of
             None \<Rightarrow> Some (Inl Unexpected_end)
           | Some (n, val) \<Rightarrow>
               if n = chars ''read_res_'' @ name then
                 if length val \<noteq> 8 then Some (Inl Unexpected_size)
                 else Some (Inr (Some \<lparr>mr_name = name, mr_key = key, mr_value = None, mr_res = val\<rparr>, k))
               else if n \<noteq> chars ''value_'' @ name then Some (Inl Unexpected_object)
               else
                 Option.bind (ktest_next_obj k) (\<lambda>(res, k).
                 case res of
                   None \<Rightarrow> Some (Inl Unexpected_end)
                 | Some (n, res) \<Rightarrow>
                     if n \<noteq> chars ''read_res_'' @ name then Some (Inl Unexpected_object)
                     else if length res \<noteq> 8 then Some (Inl Unexpected_size)
                     else Some (Inr (Some \<lparr>mr_name = name, mr_key = key, mr_value = Some val, mr_res = res\<rparr>, k)))))"

declare mapreads_ktest_next.simps [code]

subsection \<open>Reading within the file\<close>

definition ktest_ok :: "ktest_buf \<Rightarrow> bool" where
  "ktest_ok k \<longleftrightarrow> length (kbuf k) < 2 ^ 63 \<and> unat (koffset k) \<le> length (kbuf k)"

definition rest :: "ktest_buf \<Rightarrow> byte list" where
  "rest k = drop (unat (koffset k)) (kbuf k)"

lemma ktest_read_eq:
  assumes "ktest_ok k"
  shows "ktest_read n k = (if length (rest k) < unat n then None
    else Some (take (unat n) (rest k), k\<lparr>koffset := koffset k + ucast n\<rparr>))"
proof -
  have len: "unat (klen k) = length (kbuf k)"
    using assms by (simp add: klen_def ktest_ok_def unsigned_of_nat take_bit_nat_eq_self)
  then have "unat (klen k - koffset k) = length (rest k)"
    using assms by (subst unat_sub) (auto simp: word_le_nat_alt ktest_ok_def rest_def)
  moreover have "unat (ucast n :: u64) = unat n"
    using unsigned_less [of n, where ?'a = nat] by (simp add: unsigned_ucast_eq take_bit_nat_eq_self)
  ultimately show ?thesis by (simp add: ktest_read_def rest_def word_less_nat_alt)
qed

lemma ktest_read_ok:
  assumes "ktest_ok k" "ktest_read n k = Some (bs, k')"
  shows "ktest_ok k'" "rest k = bs @ rest k'" "length bs = unat n" "kbuf k' = kbuf k"
proof -
  have n: "unat n \<le> length (rest k)" and bs: "bs = take (unat n) (rest k)" and k': "k' = k\<lparr>koffset := koffset k + ucast n\<rparr>"
    using assms(2) by (simp_all add: ktest_read_eq [OF assms(1)] split: if_splits)
  have "unat (ucast n :: u64) = unat n"
    using unsigned_less [of n, where ?'a = nat] by (simp add: unsigned_ucast_eq take_bit_nat_eq_self)
  then have o': "unat (koffset k + ucast n) = unat (koffset k) + unat n"
    using assms(1) n by (subst unat_word_ariths) (auto simp: ktest_ok_def rest_def)
  show "length bs = unat n" using n bs by simp
  show "ktest_ok k'" "kbuf k' = kbuf k" using assms(1) n o' by (auto simp: k' ktest_ok_def rest_def)
  show "rest k = bs @ rest k'" using o' by (simp add: k' rest_def bs add.commute flip: drop_drop)
qed

definition moved :: "ktest_buf \<Rightarrow> ktest_buf \<Rightarrow> bool" where
  "moved k k' \<longleftrightarrow> ktest_ok k' \<and> k' = k\<lparr>koffset := koffset k'\<rparr>"

lemma moved_trans: "moved k k' \<Longrightarrow> moved k' k'' \<Longrightarrow> moved k k''"
  unfolding moved_def by (metis ktest_buf.update_convs(2) ktest_buf.surjective ktest_buf.fold_congs(2))

lemma moved_ok: "moved k k' \<Longrightarrow> ktest_ok k'"
  by (simp add: moved_def)

lemma moved_kbuf: "moved k k' \<Longrightarrow> kbuf k' = kbuf k"
proof -
  assume "moved k k'"
  then have "kbuf k' = kbuf (k\<lparr>koffset := koffset k'\<rparr>)" unfolding moved_def by (blast intro: arg_cong)
  then show ?thesis by simp
qed

lemma ktest_read_moved: "ktest_ok k \<Longrightarrow> ktest_read n k = Some (bs, k') \<Longrightarrow> moved k k'"
  using ktest_read_ok(1) by (auto simp: moved_def ktest_read_def split: if_splits)

text \<open>An integer is read, or the file is at its end.\<close>

lemma ktest_read_int_ok:
  assumes "ktest_ok k" "ktest_read_int k = (v, k')"
  shows "moved k k'" "length (rest k') \<le> length (rest k)" "length (rest k) < 4 \<Longrightarrow> v = - 1" "4 \<le> length (rest k) \<Longrightarrow> length (rest k) = 4 + length (rest k')"
proof -
  have "moved k k' \<and> length (rest k') \<le> length (rest k) \<and> (length (rest k) < 4 \<longrightarrow> v = - 1) \<and> (4 \<le> length (rest k) \<longrightarrow> length (rest k) = 4 + length (rest k'))"
  proof (cases "ktest_read 4 k")
    case None
    then show ?thesis using assms ktest_read_eq [OF assms(1), of 4]
      by (auto simp: ktest_read_int_def moved_def split: if_splits)
  next
    case (Some x)
    then obtain bs where "ktest_read 4 k = Some (bs, k')"
      using assms(2) by (cases x) (simp add: ktest_read_int_def)
    with ktest_read_ok [OF assms(1) this] ktest_read_moved [OF assms(1) this] show ?thesis by simp
  qed
  then show "moved k k'" "length (rest k') \<le> length (rest k)" "length (rest k) < 4 \<Longrightarrow> v = - 1" "4 \<le> length (rest k) \<Longrightarrow> length (rest k) = 4 + length (rest k')"
    by simp_all
qed

text \<open>The next object: the code returns, and an object takes at least eight bytes of the file.\<close>

lemma ktest_next_obj_total:
  assumes "ktest_ok k"
  shows "\<exists>r k'. ktest_next_obj k = Some (r, k') \<and> moved k k' \<and> length (rest k') \<le> length (rest k)
    \<and> (\<forall>n d. r = Some (n, d) \<longrightarrow> n \<noteq> chars ''stack'' \<and> n \<noteq> chars ''sym_reg''
        \<and> length (rest k') + length n + length d + 8 \<le> length (rest k))"
  using assms
proof (induction "length (rest k)" arbitrary: k rule: less_induct)
  case less
  obtain v k1 where i1: "ktest_read_int k = (v, k1)" by fastforce
  note o1 = ktest_read_int_ok [OF less.prems i1]
  show ?case
  proof (cases "v = - 1 \<or> ktest_read v k1 = None")
    case True
    then have "ktest_next_obj k = Some (None, k1)" using i1 by (subst ktest_next_obj.simps) auto
    with o1(1,2) show ?thesis by blast
  next
    case False
    then obtain n k2 where r2: "ktest_read v k1 = Some (n, k2)" by auto
    note o2 = ktest_read_ok [OF moved_ok [OF o1(1)] r2] and m2 = moved_trans [OF o1(1) ktest_read_moved [OF moved_ok [OF o1(1)] r2]]
    obtain w k3 where i3: "ktest_read_int k2 = (w, k3)" by fastforce
    note o3 = ktest_read_int_ok [OF o2(1) i3] and m3 = moved_trans [OF m2 ktest_read_int_ok(1) [OF o2(1) i3]]
    show ?thesis
    proof (cases "w = - 1 \<or> ktest_read w k3 = None")
      case True
      then have "ktest_next_obj k = Some (None, k3)" using False i1 r2 i3 by (subst ktest_next_obj.simps) auto
      moreover have "length (rest k3) \<le> length (rest k)" using o1(2) o2(2) o3(2) by simp
      ultimately show ?thesis using m3 by blast
    next
      case w: False
      then obtain d k4 where r4: "ktest_read w k3 = Some (d, k4)" by auto
      note o4 = ktest_read_ok [OF moved_ok [OF m3] r4] and m4 = moved_trans [OF m3 ktest_read_moved [OF moved_ok [OF m3] r4]]
      have l: "length (rest k4) + length n + length d + 8 = length (rest k)"
        using False w o1(3,4) o2(2) o3(3,4) o4(2)
        by (cases "length (rest k) < 4"; cases "length (rest k2) < 4") auto
      have step: "ktest_next_obj k = (if n = chars ''stack'' \<or> n = chars ''sym_reg'' then ktest_next_obj k4 else Some (Some (n, d), k4))"
        using False w i1 r2 i3 r4 by (subst ktest_next_obj.simps) auto
      show ?thesis
      proof (cases "n = chars ''stack'' \<or> n = chars ''sym_reg''")
        case True
        from less.hyps [of k4] l moved_ok [OF m4] obtain r k' where
          "ktest_next_obj k4 = Some (r, k')" "moved k4 k'" "length (rest k') \<le> length (rest k4)"
          "\<forall>n d. r = Some (n, d) \<longrightarrow> n \<noteq> chars ''stack'' \<and> n \<noteq> chars ''sym_reg'' \<and> length (rest k') + length n + length d + 8 \<le> length (rest k4)"
          by auto
        then show ?thesis using True l moved_trans [OF m4, of k'] unfolding step by fastforce
      next
        case False
        then show ?thesis using l m4 unfolding step by auto
      qed
    qed
  qed
qed

subsection \<open>Objects written and read back\<close>

definition be32 :: "nat \<Rightarrow> byte list" where
  "be32 n = written Write_be32 (of_nat n)"

definition object :: "byte list \<times> byte list \<Rightarrow> byte list" where
  "object od = be32 (length (fst od)) @ fst od @ be32 (length (snd od)) @ snd od"

definition visible :: "byte list \<times> byte list \<Rightarrow> bool" where
  "visible od \<longleftrightarrow> fst od \<noteq> chars ''stack'' \<and> fst od \<noteq> chars ''sym_reg''"

text \<open>Lengths that are written in 32 bits and are no error value.\<close>

definition small :: "byte list \<times> byte list \<Rightarrow> bool" where
  "small od \<longleftrightarrow> length (fst od) < 2 ^ 32 - 1 \<and> length (snd od) < 2 ^ 32 - 1"

lemma length_be32 [simp]: "length (be32 n) = 4"
  by (simp add: be32_def)

lemma big_endian_be32: "n < 2 ^ 32 \<Longrightarrow> big_endian (be32 n) = n"
  using read_written [of Write_be32 "of_nat n"] by (simp add: be32_def unsigned_of_nat take_bit_nat_eq_self del: written.simps)

lemma read_rest:
  assumes "ktest_ok k" "rest k = bs @ cs" "length bs = unat n"
  obtains k' where "ktest_read n k = Some (bs, k')" "moved k k'" "rest k' = cs"
proof -
  obtain k' where k': "ktest_read n k = Some (bs, k')"
    using assms by (simp add: ktest_read_eq)
  show ?thesis by (rule that [OF k' ktest_read_moved [OF assms(1) k']])
      (use ktest_read_ok(2) [OF assms(1) k'] assms(2) in simp)
qed

lemma read_int_rest:
  assumes "ktest_ok k" "rest k = be32 n @ cs" "n < 2 ^ 32"
  obtains k' where "ktest_read_int k = (of_nat n, k')" "moved k k'" "rest k' = cs"
proof -
  obtain k' where "ktest_read 4 k = Some (be32 n, k')" "moved k k'" "rest k' = cs"
    by (rule read_rest [OF assms(1,2), of 4]) (simp_all add: unsigned_numeral take_bit_nat_eq_self)
  then show ?thesis by (intro that) (simp_all add: ktest_read_int_def big_endian_be32 [OF assms(3)])
qed

lemma not_minus_1: "n < 2 ^ 32 - 1 \<Longrightarrow> (of_nat n :: u32) \<noteq> - 1" "n < 2 ^ 32 - 1 \<Longrightarrow> unat (of_nat n :: u32) = n"
proof -
  assume n: "n < 2 ^ 32 - 1"
  then show u: "unat (of_nat n :: u32) = n" by (simp add: unsigned_of_nat take_bit_nat_eq_self)
  have "unat (- 1 :: u32) = 2 ^ 32 - 1" by (simp add: unsigned_minus_1_eq_mask mask_eq_exp_minus_1)
  with n u show "(of_nat n :: u32) \<noteq> - 1" by auto
qed

lemma next_obj_object:
  assumes "ktest_ok k" "rest k = object od @ cs" "small od"
  obtains k' where "moved k k'" "rest k' = cs" "ktest_next_obj k = (if visible od then Some (Some od, k') else ktest_next_obj k')"
proof -
  obtain n d where od: "od = (n, d)" by fastforce
  have l: "length n < 2 ^ 32 - 1" "length d < 2 ^ 32 - 1" using assms(3) by (simp_all add: small_def od)
  have r: "rest k = be32 (length n) @ n @ be32 (length d) @ d @ cs" using assms(2) by (simp add: object_def od)
  obtain k1 where 1: "ktest_read_int k = (of_nat (length n), k1)" "moved k k1" "rest k1 = n @ be32 (length d) @ d @ cs"
    by (rule read_int_rest [OF assms(1) r]) (use l in simp_all)
  obtain k2 where 2: "ktest_read (of_nat (length n)) k1 = Some (n, k2)" "moved k1 k2" "rest k2 = be32 (length d) @ d @ cs"
    by (rule read_rest [OF moved_ok [OF 1(2)] 1(3), of "of_nat (length n)"]) (use not_minus_1(2) [OF l(1)] in simp_all)
  obtain k3 where 3: "ktest_read_int k2 = (of_nat (length d), k3)" "moved k2 k3" "rest k3 = d @ cs"
    by (rule read_int_rest [OF moved_ok [OF 2(2)] 2(3)]) (use l in simp_all)
  obtain k4 where 4: "ktest_read (of_nat (length d)) k3 = Some (d, k4)" "moved k3 k4" "rest k4 = cs"
    by (rule read_rest [OF moved_ok [OF 3(2)] 3(3), of "of_nat (length d)"]) (use not_minus_1(2) [OF l(2)] in simp_all)
  have "moved k k4" using 1(2) 2(2) 3(2) 4(2) moved_trans by blast
  moreover have "ktest_next_obj k = (if visible od then Some (Some od, k4) else ktest_next_obj k4)"
    using 1(1) 2(1) 3(1) 4(1) not_minus_1(1) [OF l(1)] not_minus_1(1) [OF l(2)]
    by (subst ktest_next_obj.simps) (simp add: visible_def od)
  ultimately show ?thesis using 4(3) that by blast
qed

text \<open>A file that ends after its objects.\<close>

definition objects :: "(byte list \<times> byte list) list \<Rightarrow> byte list" where
  "objects os = concat (map object os)"

lemma next_obj_end:
  assumes "ktest_ok k" "rest k = []"
  shows "ktest_next_obj k = Some (None, k)"
proof -
  have "ktest_read_int k = (- 1, k)" using assms by (simp add: ktest_read_int_def ktest_read_eq)
  then show ?thesis by (subst ktest_next_obj.simps) simp
qed

lemma next_obj_objects:
  assumes "ktest_ok k" "rest k = objects os" "\<forall>od\<in>set os. small od"
  shows "\<exists>k'. moved k k' \<and> (case filter visible os of
      [] \<Rightarrow> ktest_next_obj k = Some (None, k') \<and> rest k' = []
    | od # ods \<Rightarrow> \<exists>os'. ktest_next_obj k = Some (Some od, k') \<and> rest k' = objects os' \<and> filter visible os' = ods \<and> (\<forall>od\<in>set os'. small od))"
  using assms
proof (induction os arbitrary: k)
  case Nil
  then have "moved k k" by (simp add: moved_def)
  with Nil show ?case using next_obj_end [of k] by (auto simp: objects_def)
next
  case (Cons od os)
  have r: "rest k = object od @ objects os" "small od" using Cons.prems by (simp_all add: objects_def)
  obtain k' where k': "moved k k'" "rest k' = objects os"
    "ktest_next_obj k = (if visible od then Some (Some od, k') else ktest_next_obj k')"
    by (rule next_obj_object [OF Cons.prems(1) r])
  show ?case
  proof (cases "visible od")
    case True
    with k' Cons.prems(3) show ?thesis by auto
  next
    case False
    from Cons.IH [OF moved_ok [OF k'(1)] k'(2)] Cons.prems(3) obtain k'' where "moved k' k''"
      "case filter visible os of
        [] \<Rightarrow> ktest_next_obj k' = Some (None, k'') \<and> rest k'' = []
      | od # ods \<Rightarrow> \<exists>os'. ktest_next_obj k' = Some (Some od, k'') \<and> rest k'' = objects os' \<and> filter visible os' = ods \<and> (\<forall>od\<in>set os'. small od)"
      by auto
    moreover from k'(1) this(1) have "moved k k''" by (rule moved_trans)
    moreover have e: "filter visible (od # os) = filter visible os" "ktest_next_obj k = ktest_next_obj k'"
      using False k'(3) by simp_all
    ultimately show ?thesis unfolding e by blast
  qed
qed

text \<open>Finding an object by its name: the first visible one.\<close>

lemma find_obj_objects:
  assumes "ktest_ok k" "rest k = objects os" "\<forall>od\<in>set os. small od"
  shows "\<exists>k'. moved k k' \<and> ktest_find_obj name k = Some (map_option snd (find (\<lambda>od. fst od = chars name) (filter visible os)), k')"
  using assms
proof (induction "filter visible os" arbitrary: k os)
  case Nil
  from next_obj_objects [OF Nil.prems] Nil.hyps [symmetric] show ?case
    by (subst ktest_find_obj.simps) auto
next
  case (Cons od ods)
  from next_obj_objects [OF Cons.prems] Cons.hyps(2) [symmetric] obtain k' os' where
    k': "moved k k'" "ktest_next_obj k = Some (Some od, k')" "rest k' = objects os'" "ods = filter visible os'" "\<forall>od\<in>set os'. small od"
    by auto
  show ?case
  proof (cases "fst od = chars name")
    case True
    then show ?thesis using k' Cons.hyps(2) [symmetric] by (subst ktest_find_obj.simps) (auto split: prod.splits)
  next
    case False
    from Cons.hyps(1) [OF k'(4) moved_ok [OF k'(1)] k'(3,5)] obtain k'' where
      "moved k' k''" "ktest_find_obj name k' = Some (map_option snd (find (\<lambda>od. fst od = chars name) ods), k'')"
      unfolding k'(4) [symmetric] by blast
    moreover from k'(1) this(1) have "moved k k''" by (rule moved_trans)
    ultimately show ?thesis using False k'(2) Cons.hyps(2) [symmetric] by (subst ktest_find_obj.simps) (auto split: prod.splits)
  qed
qed

lemma get_obj_objects:
  assumes "ktest_ok k" "rest k = objects os" "\<forall>od\<in>set os. small od" "filter visible os = (chars name, d) # ods"
  shows "\<exists>k' os'. moved k k' \<and> ktest_get_obj name k = Some (Some d, k') \<and> rest k' = objects os' \<and> filter visible os' = ods \<and> (\<forall>od\<in>set os'. small od)"
  using next_obj_objects [OF assms(1-3)] assms(4) by (auto simp: ktest_get_obj_def)

subsection \<open>The header\<close>

text \<open>The file as the executor writes it: version, arguments, two integers for symbolic arguments, the number of objects, objects.\<close>

definition ktest_file :: "byte list list \<Rightarrow> nat \<Rightarrow> nat \<Rightarrow> (byte list \<times> byte list) list \<Rightarrow> byte list" where
  "ktest_file args n m os = chars ''KTEST'' @ be32 3 @ be32 (length args) @ concat (map (\<lambda>a. be32 (length a) @ a) args)
     @ be32 n @ be32 m @ be32 (length os) @ objects os"

lemma skip_args_rest:
  assumes "ktest_ok k" "rest k = concat (map (\<lambda>a. be32 (length a) @ a) args) @ cs" "\<forall>a\<in>set args. length a < 2 ^ 32 - 1"
  shows "\<exists>k'. skip_args (length args) k = Inr k' \<and> moved k k' \<and> rest k' = cs"
  using assms
proof (induction args arbitrary: k)
  case Nil
  then show ?case by (simp add: moved_def)
next
  case (Cons a args)
  let ?cs = "concat (map (\<lambda>a. be32 (length a) @ a) args) @ cs"
  have l: "length a < 2 ^ 32 - 1" using Cons.prems(3) by simp
  obtain k1 where 1: "ktest_read_int k = (of_nat (length a), k1)" "moved k k1" "rest k1 = a @ ?cs"
    by (rule read_int_rest [OF Cons.prems(1), of "length a" "a @ ?cs"]) (use l Cons.prems(2) in simp_all)
  obtain k2 where 2: "ktest_read (of_nat (length a)) k1 = Some (a, k2)" "moved k1 k2" "rest k2 = ?cs"
    by (rule read_rest [OF moved_ok [OF 1(2)] 1(3), of "of_nat (length a)"]) (use not_minus_1(2) [OF l] in simp_all)
  from Cons.IH [OF moved_ok [OF 2(2)] 2(3)] Cons.prems(3) obtain k3 where 3: "skip_args (length args) k2 = Inr k3" "moved k2 k3" "rest k3 = cs"
    by auto
  have "moved k k3" by (rule moved_trans [OF moved_trans [OF 1(2) 2(2)] 3(2)])
  moreover have "skip_args (length (a # args)) k = Inr k3" using 1(1) 2(1) 3(1) by simp
  ultimately show ?case using 3(3) by blast
qed

lemma ktest_init_file:
  assumes "length (ktest_file args n m os) < 2 ^ 63" "\<forall>a\<in>set args. length a < 2 ^ 32 - 1" "length args < 2 ^ 32"
    "\<forall>od\<in>set os. small od" "filter visible os = (chars ''real_sk_buff'', d) # ods"
  shows "\<exists>k os'. ktest_init (ktest_file args n m os) = Some (Inr k) \<and> ktest_ok k \<and> sk_buff k = Some d
    \<and> rewind_offset k = koffset k \<and> rest k = objects os' \<and> filter visible os' = ods \<and> (\<forall>od\<in>set os'. small od)"
proof -
  let ?file = "ktest_file args n m os"
  let ?args = "concat (map (\<lambda>a. be32 (length a) @ a) args) @ be32 n @ be32 m @ be32 (length os) @ objects os"
  define k where "k = \<lparr>kbuf = ?file, koffset = 5, rewind_offset = 0, sk_buff = None\<rparr>"
  have contents: "?file = chars ''KTEST'' @ be32 3 @ be32 (length args) @ ?args" by (simp add: ktest_file_def)
  have magic: "\<not> length ?file < 5" "take 5 ?file = chars ''KTEST''" by (simp_all add: contents)
  have k: "ktest_ok k" "rest k = be32 3 @ be32 (length args) @ ?args"
    using assms(1) magic(1) by (simp_all add: k_def ktest_ok_def rest_def) (simp add: contents)
  obtain k1 where 1: "ktest_read_int k = (of_nat 3, k1)" "moved k k1" "rest k1 = be32 (length args) @ ?args"
    by (rule read_int_rest [OF k]) simp_all
  obtain k2 where 2: "ktest_read_int k1 = (of_nat (length args), k2)" "moved k1 k2" "rest k2 = ?args"
    by (rule read_int_rest [OF moved_ok [OF 1(2)] 1(3) assms(3)])
  obtain k3 where 3: "skip_args (length args) k2 = Inr k3" "moved k2 k3" "rest k3 = be32 n @ be32 m @ be32 (length os) @ objects os"
    using skip_args_rest [OF moved_ok [OF 2(2)] 2(3) assms(2)] by blast
  have r3: "rest k3 = (be32 n @ be32 m) @ be32 (length os) @ objects os" using 3(3) by simp
  obtain k4 where 4: "ktest_read 8 k3 = Some (be32 n @ be32 m, k4)" "moved k3 k4" "rest k4 = be32 (length os) @ objects os"
    by (rule read_rest [OF moved_ok [OF 3(2)] r3, of 8]) (simp_all add: unsigned_numeral take_bit_nat_eq_self)
  obtain k5 where 5: "ktest_read 4 k4 = Some (be32 (length os), k5)" "moved k4 k5" "rest k5 = objects os"
    by (rule read_rest [OF moved_ok [OF 4(2)] 4(3), of 4]) (simp_all add: unsigned_numeral take_bit_nat_eq_self)
  obtain k6 os' where 6: "moved k5 k6" "ktest_get_obj ''real_sk_buff'' k5 = Some (Some d, k6)" "rest k6 = objects os'"
    "filter visible os' = ods" "\<forall>od\<in>set os'. small od"
    using get_obj_objects [OF moved_ok [OF 5(2)] 5(3) assms(4,5)] by blast
  have "unat (of_nat (length args) :: u32) = length args" using assms(3) by (simp add: unsigned_of_nat take_bit_nat_eq_self)
  then have "ktest_init ?file = Some (Inr (k6\<lparr>sk_buff := Some d, rewind_offset := koffset k6\<rparr>))"
    using magic 1(1) 2(1) 3(1) 4(1) 5(1) 6(2) unfolding ktest_init_def k_def [symmetric] by simp
  then show ?thesis using 6 moved_ok [OF 6(1)] by (intro exI [of _ "k6\<lparr>sk_buff := Some d, rewind_offset := koffset k6\<rparr>"] exI [of _ os'])
      (simp add: ktest_ok_def rest_def)
qed

subsection \<open>Recorded accesses\<close>

text \<open>Searching and reading accesses returns for every file.\<close>

lemma ktest_find_obj_total:
  assumes "ktest_ok k"
  shows "\<exists>r k'. ktest_find_obj name k = Some (r, k') \<and> moved k k'"
  using assms
proof (induction "length (rest k)" arbitrary: k rule: less_induct)
  case less
  from ktest_next_obj_total [OF less.prems] obtain r k' where n: "ktest_next_obj k = Some (r, k')" "moved k k'"
    "\<And>n d. r = Some (n, d) \<Longrightarrow> length (rest k') + length n + length d + 8 \<le> length (rest k)" by blast
  show ?case
  proof (cases "\<exists>n d. r = Some (n, d) \<and> n \<noteq> chars name")
    case True
    then obtain n d where r: "r = Some (n, d)" "n \<noteq> chars name" by blast
    from less.hyps [OF _ moved_ok [OF n(2)]] n(3) [OF r(1)] obtain s k'' where "ktest_find_obj name k' = Some (s, k'')" "moved k' k''"
      by fastforce
    moreover from n(2) this(2) have "moved k k''" by (rule moved_trans)
    ultimately show ?thesis using n(1) r by (subst ktest_find_obj.simps) simp
  next
    case False
    then show ?thesis using n(1,2) by (subst ktest_find_obj.simps) (auto split: option.splits)
  qed
qed

lemma mapreads_ktest_next_total:
  assumes "ktest_ok k"
  shows "\<exists>r. mapreads_ktest_next skip k = Some r \<and> (\<forall>a k'. r = Inr (a, k') \<longrightarrow> moved k k')"
  using assms
proof (induction "length (rest k)" arbitrary: k rule: less_induct)
  case less
  from ktest_next_obj_total [OF less.prems] obtain r k1 where 1: "ktest_next_obj k = Some (r, k1)" "moved k k1"
    "\<And>n d. r = Some (n, d) \<Longrightarrow> length (rest k1) + length n + length d + 8 \<le> length (rest k)" by blast
  obtain r2 k2 where 2: "ktest_next_obj k1 = Some (r2, k2)" "moved k k2"
    using ktest_next_obj_total [OF moved_ok [OF 1(2)]] moved_trans [OF 1(2)] by blast
  obtain r3 k3 where 3: "ktest_next_obj k2 = Some (r3, k3)" "moved k k3"
    using ktest_next_obj_total [OF moved_ok [OF 2(2)]] moved_trans [OF 2(2)] by blast
  show ?case
  proof (cases r)
    case None
    then show ?thesis using 1(1,2) by (subst mapreads_ktest_next.simps) auto
  next
    case (Some nd)
    then obtain n d where r: "r = Some (n, d)" by (cases nd) auto
    have "length (rest k1) < length (rest k)" using 1(3) [OF r] by simp
    from less.hyps [OF this moved_ok [OF 1(2)]] moved_trans [OF 1(2)] obtain s where
      s: "mapreads_ktest_next skip k1 = Some s" "\<And>a k'. s = Inr (a, k') \<Longrightarrow> moved k k'" by blast
    show ?thesis
    proof (cases "length n < 4 \<or> take 4 n \<noteq> chars ''key_''")
      case True
      then show ?thesis using 1(1) r s by (subst mapreads_ktest_next.simps) auto
    next
      case False
      then show ?thesis using 1(1) 2 3 r by (subst mapreads_ktest_next.simps) (auto simp: Let_def split: option.splits)
    qed
  qed
qed

definition access_objects :: "mapread \<Rightarrow> (byte list \<times> byte list) list" where
  "access_objects m = (chars ''key_'' @ mr_name m, mr_key m)
     # (case mr_value m of None \<Rightarrow> [] | Some v \<Rightarrow> [(chars ''value_'' @ mr_name m, v)])
     @ [(chars ''read_res_'' @ mr_name m, mr_res m)]"

lemma next_obj_filter:
  assumes "ktest_ok k" "rest k = objects os" "\<forall>od\<in>set os. small od" "filter visible os = od # ods"
  obtains k' os' where "moved k k'" "ktest_next_obj k = Some (Some od, k')" "rest k' = objects os'" "filter visible os' = ods" "\<forall>od\<in>set os'. small od"
  using next_obj_objects [OF assms(1-3)] assms(4) by auto

text \<open>The accesses are read back in order.\<close>

lemma mapreads_ktest_next_access:
  assumes "ktest_ok k" "rest k = objects os" "\<forall>od\<in>set os. small od" "filter visible os = access_objects m @ ods" "length (mr_res m) = 8"
  shows "\<exists>k' os'. mapreads_ktest_next skip k = Some (Inr (Some m, k')) \<and> moved k k' \<and> rest k' = objects os'
    \<and> filter visible os' = ods \<and> (\<forall>od\<in>set os'. small od)"
proof (cases "mr_value m")
  case None
  then have f: "filter visible os = (chars ''key_'' @ mr_name m, mr_key m) # (chars ''read_res_'' @ mr_name m, mr_res m) # ods"
    using assms(4) by (simp add: access_objects_def)
  obtain k1 os1 where 1: "moved k k1" "ktest_next_obj k = Some (Some (chars ''key_'' @ mr_name m, mr_key m), k1)" "rest k1 = objects os1"
    "filter visible os1 = (chars ''read_res_'' @ mr_name m, mr_res m) # ods" "\<forall>od\<in>set os1. small od"
    by (rule next_obj_filter [OF assms(1-3) f])
  obtain k2 os2 where 2: "moved k1 k2" "ktest_next_obj k1 = Some (Some (chars ''read_res_'' @ mr_name m, mr_res m), k2)" "rest k2 = objects os2"
    "filter visible os2 = ods" "\<forall>od\<in>set os2. small od"
    by (rule next_obj_filter [OF moved_ok [OF 1(1)] 1(3,5,4)])
  have "m = \<lparr>mr_name = mr_name m, mr_key = mr_key m, mr_value = None, mr_res = mr_res m\<rparr>" using None by simp
  then have "mapreads_ktest_next skip k = Some (Inr (Some m, k2))"
    using 1(2) 2(2) assms(5) by (subst mapreads_ktest_next.simps) (simp add: Let_def)
  then show ?thesis using 2 moved_trans [OF 1(1) 2(1)] by blast
next
  case (Some v)
  then have f: "filter visible os = (chars ''key_'' @ mr_name m, mr_key m) # (chars ''value_'' @ mr_name m, v) # (chars ''read_res_'' @ mr_name m, mr_res m) # ods"
    using assms(4) by (simp add: access_objects_def)
  obtain k1 os1 where 1: "moved k k1" "ktest_next_obj k = Some (Some (chars ''key_'' @ mr_name m, mr_key m), k1)" "rest k1 = objects os1"
    "filter visible os1 = (chars ''value_'' @ mr_name m, v) # (chars ''read_res_'' @ mr_name m, mr_res m) # ods" "\<forall>od\<in>set os1. small od"
    by (rule next_obj_filter [OF assms(1-3) f])
  obtain k2 os2 where 2: "moved k1 k2" "ktest_next_obj k1 = Some (Some (chars ''value_'' @ mr_name m, v), k2)" "rest k2 = objects os2"
    "filter visible os2 = (chars ''read_res_'' @ mr_name m, mr_res m) # ods" "\<forall>od\<in>set os2. small od"
    by (rule next_obj_filter [OF moved_ok [OF 1(1)] 1(3,5,4)])
  obtain k3 os3 where 3: "moved k2 k3" "ktest_next_obj k2 = Some (Some (chars ''read_res_'' @ mr_name m, mr_res m), k3)" "rest k3 = objects os3"
    "filter visible os3 = ods" "\<forall>od\<in>set os3. small od"
    by (rule next_obj_filter [OF moved_ok [OF 2(1)] 2(3,5,4)])
  have "m = \<lparr>mr_name = mr_name m, mr_key = mr_key m, mr_value = Some v, mr_res = mr_res m\<rparr>" using Some by simp
  then have "mapreads_ktest_next skip k = Some (Inr (Some m, k3))"
    using 1(2) 2(2) 3(2) assms(5) by (subst mapreads_ktest_next.simps) (simp add: Let_def)
  then show ?thesis using 3 moved_trans [OF 1(1) moved_trans [OF 2(1) 3(1)]] by blast
qed

lemma mapreads_ktest_next_end:
  assumes "ktest_ok k" "rest k = objects os" "\<forall>od\<in>set os. small od" "filter visible os = []"
  shows "\<exists>k'. mapreads_ktest_next True k = Some (Inr (None, k')) \<and> moved k k'"
  using next_obj_objects [OF assms(1-3)] assms(4) by (subst mapreads_ktest_next.simps) auto

text \<open>The loop of the callers: all accesses of a test case.\<close>

fun read_accesses :: "nat \<Rightarrow> ktest_buf \<Rightarrow> mapread list option" where
  "read_accesses 0 k = None"
| "read_accesses (Suc n) k = (case mapreads_ktest_next True k of
     Some (Inr (Some m, k)) \<Rightarrow> map_option ((#) m) (read_accesses n k)
   | Some (Inr (None, k)) \<Rightarrow> Some []
   | _ \<Rightarrow> None)"

lemma read_accesses_objects:
  assumes "ktest_ok k" "rest k = objects os" "\<forall>od\<in>set os. small od" "filter visible os = concat (map access_objects ms)"
    "\<forall>m\<in>set ms. length (mr_res m) = 8" "length ms < n"
  shows "read_accesses n k = Some ms"
  using assms
proof (induction ms arbitrary: n k os)
  case Nil
  then show ?case using mapreads_ktest_next_end [of k os] by (cases n) auto
next
  case (Cons m ms)
  from Cons.prems(4) have "filter visible os = access_objects m @ concat (map access_objects ms)" by simp
  from mapreads_ktest_next_access [OF Cons.prems(1-3) this, of True] Cons.prems(5) obtain k' os' where
    k': "mapreads_ktest_next True k = Some (Inr (Some m, k'))" "moved k k'" "rest k' = objects os'"
    "filter visible os' = concat (map access_objects ms)" "\<forall>od\<in>set os'. small od" by auto
  obtain n' where "n = Suc n'" using Cons.prems(6) by (cases n) auto
  with Cons.IH [OF moved_ok [OF k'(2)] k'(3,5,4), of n'] Cons.prems(5,6) k'(1) show ?case by simp
qed

subsection \<open>Any file\<close>

lemma skip_args_ok: "ktest_ok k \<Longrightarrow> skip_args n k = Inr k' \<Longrightarrow> moved k k'"
proof (induction n k rule: skip_args.induct)
  case (2 n k)
  obtain v k1 where 1: "ktest_read_int k = (v, k1)" by fastforce
  note m = ktest_read_int_ok(1) [OF "2.prems"(1) 1]
  obtain bs k2 where 2: "ktest_read v k1 = Some (bs, k2)" "skip_args n k2 = Inr k'"
    using "2.prems"(2) 1 by (auto simp: Let_def split: option.splits)
  note m2 = ktest_read_moved [OF moved_ok [OF m] 2(1)]
  have "moved k2 k'" using "2.IH" 1 2 moved_ok [OF m2] by auto
  with m m2 show ?case using moved_trans by blast
qed (simp add: moved_def)

text \<open>
  C22: for every content of the file, \<open>ktest_init\<close> returns, with an error or with a state in which the
  offset is within the file; from there the search for an object and the next access return and leave
  the offset within the file.
\<close>

theorem ktest_any_file:
  assumes "length buf < 2 ^ 63"
  shows "\<exists>r. ktest_init buf = Some r \<and> (case r of Inl e \<Rightarrow> True | Inr k \<Rightarrow> ktest_ok k \<and> kbuf k = buf
    \<and> (\<exists>obj k'. ktest_find_obj name k = Some (obj, k') \<and> ktest_ok k' \<and> kbuf k' = buf)
    \<and> (\<exists>r. mapreads_ktest_next skip k = Some r \<and> (case r of Inl e \<Rightarrow> True | Inr (a, k') \<Rightarrow> ktest_ok k' \<and> kbuf k' = buf)))"
proof -
  let ?k = "\<lparr>kbuf = buf, koffset = 5, rewind_offset = 0, sk_buff = None\<rparr>"
  have init: "\<exists>r. ktest_init buf = Some r \<and> (case r of Inl e \<Rightarrow> True | Inr k \<Rightarrow> ktest_ok k \<and> kbuf k = buf)"
  proof (cases "length buf < 5 \<or> take 5 buf \<noteq> chars ''KTEST''")
    case True
    then show ?thesis by (auto simp: ktest_init_def)
  next
    case False
    then have ok: "ktest_ok ?k" using assms by (simp add: ktest_ok_def)
    obtain v k1 where 1: "ktest_read_int ?k = (v, k1)" by fastforce
    note m1 = ktest_read_int_ok(1) [OF ok 1]
    obtain n k2 where 2: "ktest_read_int k1 = (n, k2)" by fastforce
    note m2 = moved_trans [OF m1 ktest_read_int_ok(1) [OF moved_ok [OF m1] 2]]
    show ?thesis
    proof (cases "v = 3 \<and> (\<exists>k3. skip_args (unat n) k2 = Inr k3 \<and> (\<exists>b k4. ktest_read 8 k3 = Some (b, k4) \<and> ktest_read 4 k4 \<noteq> None))")
      case True
      then obtain k3 b k4 c k5 where 3: "skip_args (unat n) k2 = Inr k3" "ktest_read 8 k3 = Some (b, k4)" "ktest_read 4 k4 = Some (c, k5)" by auto
      have m3: "moved ?k k3" by (rule moved_trans [OF m2 skip_args_ok [OF moved_ok [OF m2] 3(1)]])
      have m4: "moved ?k k4" by (rule moved_trans [OF m3 ktest_read_moved [OF moved_ok [OF m3] 3(2)]])
      have m5: "moved ?k k5" by (rule moved_trans [OF m4 ktest_read_moved [OF moved_ok [OF m4] 3(3)]])
      obtain r k6 where 6: "ktest_next_obj k5 = Some (r, k6)" "moved k5 k6"
        using ktest_next_obj_total [OF moved_ok [OF m5]] by blast
      have buf: "kbuf k6 = buf" "ktest_ok k6" using moved_kbuf [OF m5] moved_kbuf [OF 6(2)] moved_ok [OF 6(2)] by simp_all
      have "\<exists>obj k7. ktest_get_obj ''real_sk_buff'' k5 = Some (obj, k7) \<and> (obj = None \<or> k7 = k6)"
        using 6(1) by (cases r) (auto simp: ktest_get_obj_def)
      then obtain obj k7 where 7: "ktest_get_obj ''real_sk_buff'' k5 = Some (obj, k7)" "obj = None \<or> k7 = k6" by blast
      have "ktest_init buf = (case obj of None \<Rightarrow> Some (Inl No_sk_buff) | Some d \<Rightarrow> Some (Inr (k7\<lparr>sk_buff := obj, rewind_offset := koffset k7\<rparr>)))"
        using False True 1 2 3 7(1) by (simp add: ktest_init_def)
      then show ?thesis using buf 7(2) by (cases obj) (auto simp: ktest_ok_def)
    next
      case bad: False
      then show ?thesis using False 1 2
        by (auto simp: ktest_init_def Let_def split: option.splits sum.splits)
    qed
  qed
  then obtain r where r: "ktest_init buf = Some r" "case r of Inl e \<Rightarrow> True | Inr k \<Rightarrow> ktest_ok k \<and> kbuf k = buf" by blast
  show ?thesis
  proof (cases r)
    case (Inr k)
    with r have k: "ktest_ok k" "kbuf k = buf" by simp_all
    have m: "ktest_ok k' \<and> kbuf k' = buf" if "moved k k'" for k'
      using moved_kbuf [OF that] moved_ok [OF that] k(2) by simp
    obtain obj k' where "ktest_find_obj name k = Some (obj, k')" "moved k k'" using ktest_find_obj_total [OF k(1)] by blast
    moreover obtain s where "mapreads_ktest_next skip k = Some s" "\<forall>a k'. s = Inr (a, k') \<longrightarrow> moved k k'"
      using mapreads_ktest_next_total [OF k(1)] by blast
    ultimately show ?thesis using r k m Inr by (auto split: sum.splits)
  qed (use r in simp)
qed

lemma ktest_any_file_witness: "\<exists>r. ktest_init [75, 84, 69] = Some r"
  using ktest_any_file [of "[75, 84, 69]"] by auto

text \<open>
  C23: a test case that is written as the symbolic executor does is read back: the header is accepted,
  the first object is the packet's \<open>sk_buff\<close>, and the recorded accesses to maps are read in their order,
  whatever registers and stacks of the executor lie between them.
\<close>

theorem ktest_file_read:
  assumes "length (ktest_file args n m os) < 2 ^ 63" "\<forall>a\<in>set args. length a < 2 ^ 32 - 1" "length args < 2 ^ 32"
    "\<forall>od\<in>set os. small od" "filter visible os = (chars ''real_sk_buff'', d) # concat (map access_objects ms)"
    "\<forall>m\<in>set ms. length (mr_res m) = 8" "length ms < i"
  shows "\<exists>k. ktest_init (ktest_file args n m os) = Some (Inr k) \<and> sk_buff k = Some d \<and> read_accesses i k = Some ms"
  using ktest_init_file [OF assms(1-5)] read_accesses_objects [OF _ _ _ _ assms(6,7)] by metis

lemma ktest_file_read_witness:
  "\<exists>k. ktest_init (ktest_file [[45, 120]] 0 0 [(chars ''real_sk_buff'', [1, 2]), (chars ''stack'', []), (chars ''key_m'', [3]), (chars ''read_res_m'', [0, 0, 0, 0, 0, 0, 0, 1])]) = Some (Inr k)
    \<and> sk_buff k = Some [1, 2]
    \<and> read_accesses 2 k = Some [\<lparr>mr_name = chars ''m'', mr_key = [3], mr_value = None, mr_res = [0, 0, 0, 0, 0, 0, 0, 1]\<rparr>]"
  by (rule ktest_file_read) (simp_all add: ktest_file_def objects_def object_def small_def visible_def access_objects_def)

end
