(* ===== verification/Pool.thy ===== *)
theory Pool
  imports Prelude "HOL-Library.Multiset"
begin

text \<open>
  The thread pool and the completion of its jobs in the order in which they were started,
  \<open>thread_pool.cpp\<close> and \<open>thread_pool.hpp\<close>.

  A step is what a thread does while it holds a mutex, or a call of \<open>notify_one\<close>.  A thread that finds
  the predicate of its condition variable false sleeps until a \<open>notify_one\<close> of that variable wakes it;
  spurious wake-ups may happen, but progress does not rest on them.  A job runs without the mutex of
  the pool, and it returns.  The jobs come from one thread, the caller, as in \<open>cfg.cpp\<close>.  The counters
  are below \<open>2 ^ 64\<close>.  \<open>calls\<close> is the trace of the callbacks that have been run with the index that
  each one got; \<open>submitted\<close> are the callbacks in the order of their start.
\<close>

subsection \<open>Completion in order\<close>

record 'c completion =
  started :: nat
  completed :: nat
  results :: "(nat \<times> 'c) list"
  calls :: "(nat \<times> 'c) list"

text \<open>\<open>std::map::operator[]\<close>\<close>

fun put_result :: "nat \<Rightarrow> 'c \<Rightarrow> (nat \<times> 'c) list \<Rightarrow> (nat \<times> 'c) list" where
  "put_result i c [] = [(i, c)]"
| "put_result i c ((j, d) # rs) =
     (if i < j then (i, c) # (j, d) # rs else if i = j then (i, c) # rs else (j, d) # put_result i c rs)"

fun drain :: "nat \<Rightarrow> (nat \<times> 'c) list \<Rightarrow> (nat \<times> 'c) list \<Rightarrow> nat \<times> (nat \<times> 'c) list \<times> (nat \<times> 'c) list" where
  "drain n [] cs = (n, [], cs)"
| "drain n ((i, c) # rs) cs = (if i \<noteq> n then (n, (i, c) # rs, cs) else drain (n + 1) rs (cs @ [(n, c)]))"

definition sync :: "'c \<Rightarrow> nat \<Rightarrow> 'c completion \<Rightarrow> 'c completion" where
  "sync c index s =
     (if index > completed s then s\<lparr>results := put_result index c (results s)\<rparr>
      else
        let (n, rs, cs) = drain (completed s + 1) (results s) (calls s @ [(index, c)])
        in s\<lparr>completed := n, results := rs, calls := cs\<rparr>)"

text \<open>The index is an \<open>unsigned int\<close>, the counter an \<open>unsigned long\<close>.\<close>

definition next_index :: "'c completion \<Rightarrow> nat \<times> 'c completion" where
  "next_index s = (started s mod 2 ^ 32, s\<lparr>started := started s + 1\<rparr>)"

subsection \<open>The pool\<close>

text \<open>
  A worker sleeps in \<open>cf.wait\<close> (\<open>Asleep\<close>), is about to test the predicate of \<open>cf.wait\<close> (\<open>Idle\<close>), has
  taken a job and not yet called \<open>cd.notify_one\<close> (\<open>Took\<close>), runs it (\<open>Runs\<close>), or has run it (\<open>Ran\<close>).
\<close>

datatype 'c worker = Asleep | Idle | Took nat 'c | Runs nat 'c | Ran

text \<open>
  The caller is outside of the pool (\<open>Outside\<close>, and \<open>Returned\<close> after \<open>wait\<close>), in \<open>delegate\<close> before
  \<open>cf.notify_one\<close> (\<open>Handed\<close>), at the test of the predicate of \<open>cd.wait\<close> (\<open>Delegating\<close>) or asleep there
  (\<open>Delegating_asleep\<close>), or in \<open>wait\<close>, at the test of its predicate (\<open>Waiting\<close>) or asleep
  (\<open>Waiting_asleep\<close>).
\<close>

datatype caller = Outside | Handed | Delegating | Delegating_asleep | Waiting | Waiting_asleep | Returned

record 'c pool =
  slot :: "(nat \<times> 'c) option"
  caller :: caller
  workers :: "'c worker list"
  delegated :: nat
  performed :: nat
  ordered :: "'c completion"
  submitted :: "'c list"

definition start_pool :: "nat \<Rightarrow> 'c pool" where
  "start_pool n = \<lparr>slot = None, caller = Outside, workers = replicate n Idle, delegated = 0, performed = 0,
     ordered = \<lparr>started = 0, completed = 0, results = [], calls = []\<rparr>, submitted = []\<rparr>"

text \<open>
  \<open>delegate\<close> hands a job over and waits until a worker has taken it; without workers, and when
  \<open>may_delegate\<close> must not delegate, the caller runs it.
\<close>

definition hand_over :: "'c \<Rightarrow> 'c pool \<Rightarrow> 'c pool" where
  "hand_over c p = (let (i, s) = next_index (ordered p) in
     p\<lparr>slot := Some (i, c), caller := Handed, delegated := delegated p + 1, ordered := s, submitted := submitted p @ [c]\<rparr>)"

definition run_here :: "'c \<Rightarrow> 'c pool \<Rightarrow> 'c pool" where
  "run_here c p = (let (i, s) = next_index (ordered p) in
     p\<lparr>caller := Outside, ordered := sync c i s, submitted := submitted p @ [c]\<rparr>)"

text \<open>\<open>cd.notify_one()\<close> and \<open>cw.notify_one()\<close>: only the caller waits on these variables.\<close>

fun notify_cd :: "caller \<Rightarrow> caller" where
  "notify_cd Delegating_asleep = Delegating"
| "notify_cd a = a"

fun notify_cw :: "caller \<Rightarrow> caller" where
  "notify_cw Waiting_asleep = Waiting"
| "notify_cw a = a"

text \<open>\<open>cf.notify_one()\<close> wakes one of the workers that sleep, if there is one.\<close>

inductive notify_cf :: "'c worker list \<Rightarrow> 'c worker list \<Rightarrow> bool" where
  wake: "w < length ws \<Longrightarrow> ws ! w = Asleep \<Longrightarrow> notify_cf ws (ws[w := Idle])"
| nobody: "Asleep \<notin> set ws \<Longrightarrow> notify_cf ws ws"

text \<open>The calls of the caller, which is outside of the pool.\<close>

inductive pool_call :: "'c pool \<Rightarrow> 'c pool \<Rightarrow> bool" where
  delegate: "caller p \<in> {Outside, Returned} \<Longrightarrow> workers p \<noteq> [] \<Longrightarrow> pool_call p (hand_over c p)"
| here: "caller p \<in> {Outside, Returned} \<Longrightarrow> pool_call p (run_here c p)"
| await: "caller p \<in> {Outside, Returned} \<Longrightarrow> pool_call p (p\<lparr>caller := Waiting\<rparr>)"

text \<open>The steps of the caller inside of a call, and those of the workers.\<close>

inductive pool_run :: "'c pool \<Rightarrow> 'c pool \<Rightarrow> bool" where
  signal: "caller p = Handed \<Longrightarrow> notify_cf (workers p) ws \<Longrightarrow> pool_run p (p\<lparr>caller := Delegating, workers := ws\<rparr>)"
| resume: "caller p = Delegating \<Longrightarrow> slot p = None \<Longrightarrow> pool_run p (p\<lparr>caller := Outside\<rparr>)"
| not_taken: "caller p = Delegating \<Longrightarrow> slot p \<noteq> None \<Longrightarrow> pool_run p (p\<lparr>caller := Delegating_asleep\<rparr>)"
| finished: "caller p = Waiting \<Longrightarrow> delegated p = performed p \<Longrightarrow> pool_run p (p\<lparr>caller := Returned\<rparr>)"
| not_finished: "caller p = Waiting \<Longrightarrow> delegated p \<noteq> performed p \<Longrightarrow> pool_run p (p\<lparr>caller := Waiting_asleep\<rparr>)"
| take: "slot p = Some (i, c) \<Longrightarrow> w < length (workers p) \<Longrightarrow> workers p ! w = Idle
    \<Longrightarrow> pool_run p (p\<lparr>slot := None, workers := (workers p)[w := Took i c]\<rparr>)"
| no_job: "slot p = None \<Longrightarrow> w < length (workers p) \<Longrightarrow> workers p ! w = Idle
    \<Longrightarrow> pool_run p (p\<lparr>workers := (workers p)[w := Asleep]\<rparr>)"
| taken: "w < length (workers p) \<Longrightarrow> workers p ! w = Took i c
    \<Longrightarrow> pool_run p (p\<lparr>caller := notify_cd (caller p), workers := (workers p)[w := Runs i c]\<rparr>)"
| perform: "w < length (workers p) \<Longrightarrow> workers p ! w = Runs i c
    \<Longrightarrow> pool_run p (p\<lparr>workers := (workers p)[w := Ran], ordered := sync c i (ordered p)\<rparr>)"
| account: "w < length (workers p) \<Longrightarrow> workers p ! w = Ran
    \<Longrightarrow> pool_run p (p\<lparr>caller := notify_cw (caller p), workers := (workers p)[w := Idle], performed := performed p + 1\<rparr>)"

text \<open>A thread may also wake up without a call of \<open>notify_one\<close>.\<close>

inductive pool_wakes :: "'c pool \<Rightarrow> 'c pool \<Rightarrow> bool" where
  caller_wakes: "pool_wakes p (p\<lparr>caller := notify_cd (notify_cw (caller p))\<rparr>)"
| worker_wakes: "w < length (workers p) \<Longrightarrow> workers p ! w = Asleep \<Longrightarrow> pool_wakes p (p\<lparr>workers := (workers p)[w := Idle]\<rparr>)"

definition pool_step :: "'c pool \<Rightarrow> 'c pool \<Rightarrow> bool" where
  "pool_step p q \<longleftrightarrow> pool_call p q \<or> pool_run p q \<or> pool_wakes p q"

inductive pool_reachable :: "nat \<Rightarrow> 'c pool \<Rightarrow> bool" for n where
  start: "pool_reachable n (start_pool n)"
| step: "pool_reachable n p \<Longrightarrow> pool_step p q \<Longrightarrow> pool_reachable n q"

inductive_cases pool_callE: "pool_call p q"

inductive_cases pool_runE: "pool_run p q"

inductive_cases pool_wakesE: "pool_wakes p q"

inductive_cases notify_cfE: "notify_cf ws ws'"

text \<open>The predicate of \<open>wait\<close>.\<close>

definition all_done :: "'c pool \<Rightarrow> bool" where
  "all_done p \<longleftrightarrow> delegated p = performed p"

subsection \<open>The invariant of the completion\<close>

text \<open>
  The callbacks from \<open>completed\<close> on are either kept in \<open>results\<close> or still under way, \<open>m\<close>; the others
  have been run in order.
\<close>

definition in_order :: "'c list \<Rightarrow> (nat \<times> 'c) multiset \<Rightarrow> nat \<Rightarrow> (nat \<times> 'c) list \<Rightarrow> (nat \<times> 'c) list \<Rightarrow> bool" where
  "in_order cs m n rs tr \<longleftrightarrow> n \<le> length cs \<and> m + mset rs = mset (enumerate n (drop n cs))
     \<and> tr = enumerate 0 (take n cs) \<and> sorted_wrt (\<lambda>x y. fst x < fst y) rs"

lemma in_order_member:
  assumes "in_order cs m n rs tr" "(i, c) \<in># m + mset rs"
  shows "n \<le> i" "i < length cs" "c = cs ! i"
proof -
  have "(i, c) \<in># mset (enumerate n (drop n cs))" using assms unfolding in_order_def by metis
  then have "(i, c) \<in> set (enumerate n (drop n cs))" by simp
  then show "n \<le> i" "i < length cs" "c = cs ! i"
    using assms(1) by (auto simp: in_set_enumerate_eq in_order_def)
qed

lemma in_order_next:
  assumes "in_order cs (add_mset (n, c) m) n rs tr"
  shows "in_order cs m (n + 1) rs (tr @ [(n, c)])"
proof -
  have n: "n < length cs" "c = cs ! n" using in_order_member [OF assms, of n c] by simp_all
  then have "mset (enumerate n (drop n cs)) = add_mset (n, c) (mset (enumerate (Suc n) (drop (Suc n) cs)))"
    by (simp flip: Cons_nth_drop_Suc)
  then show ?thesis using assms n by (simp add: in_order_def take_Suc_conv_app_nth enumerate_append_eq)
qed

lemma in_order_drain:
  assumes "in_order cs m n rs tr" "drain n rs tr = (n', rs', tr')"
  shows "in_order cs m n' rs' tr' \<and> (\<forall>(i, c)\<in>set rs'. n' < i)"
  using assms
proof (induction n rs tr rule: drain.induct)
  case (2 n i c rs tr)
  show ?case
  proof (cases "i = n")
    case True
    have "in_order cs (add_mset (n, c) m) n rs tr" using "2.prems"(1) True by (simp add: in_order_def)
    from "2.IH" [OF _ in_order_next [OF this]] True "2.prems"(2) show ?thesis by simp
  next
    case False
    have "n \<le> i" using in_order_member [OF "2.prems"(1), of i c] by simp
    with False "2.prems" show ?thesis by (fastforce simp: in_order_def)
  qed
qed simp

lemma mset_put_result: "i \<notin> fst ` set rs \<Longrightarrow> mset (put_result i c rs) = add_mset (i, c) (mset rs)"
  by (induction i c rs rule: put_result.induct) auto

lemma set_put_result: "set (put_result i c rs) \<subseteq> insert (i, c) (set rs)"
  by (induction i c rs rule: put_result.induct) auto

lemma sorted_put_result:
  "sorted_wrt (\<lambda>x y. fst x < fst y) rs \<Longrightarrow> sorted_wrt (\<lambda>x y. fst x < fst y) (put_result i c rs)"
  using set_put_result by (induction i c rs rule: put_result.induct) fastforce+

definition completion_ok :: "'c list \<Rightarrow> (nat \<times> 'c) multiset \<Rightarrow> 'c completion \<Rightarrow> bool" where
  "completion_ok cs m s \<longleftrightarrow> started s = length cs \<and> in_order cs m (completed s) (results s) (calls s)
     \<and> (\<forall>(i, c)\<in>set (results s). completed s < i)"

lemma completion_start:
  assumes "completion_ok cs m s" "length cs < 2 ^ 32" "next_index s = (i, s')"
  shows "completion_ok (cs @ [c]) (add_mset (i, c) m) s'"
  using assms by (auto simp: completion_ok_def next_index_def in_order_def enumerate_append_eq)

lemma completion_sync:
  assumes ok: "completion_ok cs (add_mset (i, c) m) s"
  shows "completion_ok cs m (sync c i s)"
proof -
  have io: "in_order cs (add_mset (i, c) m) (completed s) (results s) (calls s)"
    using ok by (simp add: completion_ok_def)
  have i: "completed s \<le> i" using in_order_member [OF io, of i c] by simp
  show ?thesis
  proof (cases "completed s < i")
    case True
    have "i \<notin> fst ` set (results s)"
    proof
      assume "i \<in> fst ` set (results s)"
      then obtain d where d: "(i, d) \<in># mset (results s)" by auto
      then have "d = c" using in_order_member(3) [OF io, of i d] in_order_member(3) [OF io, of i c] by simp
      with d have "0 < count (mset (results s)) (i, c)" by (simp only: count_greater_zero_iff)
      moreover have "count (add_mset (i, c) m + mset (results s)) (i, c) = Suc (count m (i, c) + count (mset (results s)) (i, c))" by simp
      ultimately have "2 \<le> count (add_mset (i, c) m + mset (results s)) (i, c)" by linarith
      moreover have "add_mset (i, c) m + mset (results s) = mset (enumerate (completed s) (drop (completed s) cs))"
        using io by (simp add: in_order_def)
      moreover have "count (mset (enumerate (completed s) (drop (completed s) cs))) (i, c) \<le> 1"
        using distinct_count_atmost_1 [of "enumerate (completed s) (drop (completed s) cs)"] distinct_enumerate
        by (metis le_numeral_extra(3) zero_le_one distinct_count_atmost_1 order_refl)
      ultimately show False by (simp only:)
    qed
    then show ?thesis using ok True set_put_result [of i c "results s"]
      by (auto simp: completion_ok_def sync_def in_order_def mset_put_result sorted_put_result)
  next
    case False
    then have "i = completed s" using i by simp
    with in_order_next [of cs i c m "results s" "calls s"] io
    have "in_order cs m (completed s + 1) (results s) (calls s @ [(i, c)])" by simp
    then show ?thesis using ok False in_order_drain
      by (fastforce simp: completion_ok_def sync_def split: prod.splits)
  qed
qed

subsection \<open>The invariant of the pool\<close>

fun under_way :: "'c worker \<Rightarrow> (nat \<times> 'c) multiset" where
  "under_way (Took i c) = {#(i, c)#}"
| "under_way (Runs i c) = {#(i, c)#}"
| "under_way _ = {#}"

definition works :: "'c worker \<Rightarrow> bool" where
  "works w \<longleftrightarrow> w \<noteq> Asleep \<and> w \<noteq> Idle"

definition busy :: "'c worker list \<Rightarrow> nat" where
  "busy ws = sum_list (map (\<lambda>w. of_bool (works w)) ws)"

definition jobs :: "'c pool \<Rightarrow> (nat \<times> 'c) multiset" where
  "jobs p = (case slot p of None \<Rightarrow> {#} | Some j \<Rightarrow> {#j#}) + (\<Sum>w\<in>#mset (workers p). under_way w)"

fun delegates :: "caller \<Rightarrow> bool" where
  "delegates Handed = True"
| "delegates Delegating = True"
| "delegates Delegating_asleep = True"
| "delegates _ = False"

text \<open>
  Nobody sleeps for ever: when a job is handed over, some worker is awake; when the caller sleeps in
  \<open>delegate\<close>, the job has not been taken or its taker has still to call \<open>cd.notify_one\<close>; when it sleeps
  in \<open>wait\<close>, a job is not yet accounted for.
\<close>

definition awake :: "'c worker list \<Rightarrow> bool" where
  "awake ws \<longleftrightarrow> (\<exists>w\<in>set ws. w \<noteq> Asleep)"

definition taking :: "'c worker list \<Rightarrow> bool" where
  "taking ws \<longleftrightarrow> (\<exists>i c. Took i c \<in> set ws)"

definition will_wake :: "'c pool \<Rightarrow> bool" where
  "will_wake p \<longleftrightarrow> (slot p \<noteq> None \<and> caller p \<noteq> Handed \<longrightarrow> awake (workers p))
     \<and> (caller p = Delegating_asleep \<longrightarrow> slot p \<noteq> None \<or> taking (workers p))
     \<and> (caller p = Waiting_asleep \<longrightarrow> delegated p \<noteq> performed p)"

definition pool_ok :: "nat \<Rightarrow> 'c pool \<Rightarrow> bool" where
  "pool_ok n p \<longleftrightarrow> length (workers p) = n \<and> completion_ok (submitted p) (jobs p) (ordered p)
     \<and> delegated p = performed p + busy (workers p) + (case slot p of None \<Rightarrow> 0 | Some j \<Rightarrow> 1)
     \<and> (slot p = None \<or> delegates (caller p) \<and> 0 < n)
     \<and> (caller p = Returned \<longrightarrow> delegated p = performed p) \<and> will_wake p"

text \<open>A sum over the workers after a step of one of them.\<close>

lemma sum_update:
  fixes f :: "'a \<Rightarrow> 'b :: comm_monoid_add"
  assumes "w < length ws"
  shows "sum_list (map f (ws[w := x])) + f (ws ! w) = sum_list (map f ws) + f x"
  by (subst (2) id_take_nth_drop [OF assms], subst upd_conv_take_nth_drop [OF assms]) (simp add: ac_simps)

lemma busy_update:
  "w < length ws \<Longrightarrow> busy (ws[w := x]) + of_bool (works (ws ! w)) = busy ws + of_bool (works x)"
  unfolding busy_def by (rule sum_update)

lemma under_way_update:
  "w < length ws \<Longrightarrow> (\<Sum>w\<in>#mset (ws[w := x]). under_way w) + under_way (ws ! w) = (\<Sum>w\<in>#mset ws. under_way w) + under_way x"
  using sum_update [of w ws under_way x] by (simp flip: sum_mset_sum_list)

lemma no_works: "busy ws = 0 \<Longrightarrow> w \<in> set ws \<Longrightarrow> \<not> works w"
  by (auto simp: busy_def)

lemma notify_cf_length: "notify_cf ws ws' \<Longrightarrow> length ws' = length ws"
  by (auto elim: notify_cfE)

lemma notify_cf_busy: "notify_cf ws ws' \<Longrightarrow> busy ws' = busy ws"
  using busy_update by (fastforce elim!: notify_cfE simp: works_def)

lemma notify_cf_under_way: "notify_cf ws ws' \<Longrightarrow> (\<Sum>w\<in>#mset ws'. under_way w) = (\<Sum>w\<in>#mset ws. under_way w)"
  using under_way_update by (fastforce elim!: notify_cfE)

lemma awake_update: "w < length ws \<Longrightarrow> x \<noteq> Asleep \<Longrightarrow> awake (ws[w := x])"
  unfolding awake_def by (metis set_update_memI)

lemma taking_update: "taking ws \<Longrightarrow> under_way (ws ! w) = {#} \<or> (\<exists>i c. ws ! w = Runs i c) \<Longrightarrow> taking (ws[w := x])"
proof -
  assume "taking ws" "under_way (ws ! w) = {#} \<or> (\<exists>i c. ws ! w = Runs i c)"
  moreover from this obtain i c j where j: "j < length ws" "ws ! j = Took i c" by (auto simp: taking_def in_set_conv_nth)
  ultimately have "j \<noteq> w" by auto
  then have "ws[w := x] ! j = Took i c" using j by simp
  then have "Took i c \<in> set (ws[w := x])" using j by (metis length_list_update nth_mem)
  then show ?thesis by (auto simp: taking_def)
qed

lemma notify_cf_awake: "notify_cf ws ws' \<Longrightarrow> ws \<noteq> [] \<Longrightarrow> awake ws'"
proof (erule notify_cfE)
  assume "ws \<noteq> []" "ws' = ws" "Asleep \<notin> set ws"
  then show ?thesis by (cases ws) (auto simp: awake_def)
qed (simp add: awake_update)

lemma notify_total: "\<exists>ws'. notify_cf ws ws'"
  by (metis in_set_conv_nth notify_cf.intros)

lemmas pool_facts = pool_ok_def will_wake_def jobs_def

lemma delegates_notify [simp]:
  "delegates (notify_cd a) = delegates a" "delegates (notify_cw a) = delegates a"
  "notify_cd a = Returned \<longleftrightarrow> a = Returned" "notify_cw a = Returned \<longleftrightarrow> a = Returned"
  "notify_cd a = Handed \<longleftrightarrow> a = Handed" "notify_cw a = Handed \<longleftrightarrow> a = Handed"
  "notify_cd a \<noteq> Delegating_asleep" "notify_cw a \<noteq> Waiting_asleep"
  "notify_cd a = Waiting_asleep \<longleftrightarrow> a = Waiting_asleep" "notify_cw a = Delegating_asleep \<longleftrightarrow> a = Delegating_asleep"
  by (cases a; simp; fail)+

lemma pool_ok_call:
  assumes ok: "pool_ok n p" and "pool_call p q" and few: "length (submitted q) \<le> 2 ^ 32"
  shows "pool_ok n q"
  using assms(2)
proof cases
  case (delegate c)
  obtain i s where i: "next_index (ordered p) = (i, s)" by fastforce
  have "slot p = None" using ok delegate by (auto simp: pool_facts)
  moreover have "length (submitted p) < 2 ^ 32" using few i by (simp add: delegate hand_over_def)
  ultimately show ?thesis using ok delegate i completion_start [of "submitted p" "jobs p" "ordered p" i s c]
    by (auto simp: pool_facts hand_over_def)
next
  case (here c)
  obtain i s where i: "next_index (ordered p) = (i, s)" by fastforce
  have "slot p = None" using ok here by (auto simp: pool_facts)
  have "length (submitted p) < 2 ^ 32" using few i by (simp add: here run_here_def)
  then have "completion_ok (submitted p @ [c]) (jobs p) (sync c i s)"
    using ok i by (intro completion_sync completion_start) (simp_all add: pool_ok_def)
  then show ?thesis using ok here i \<open>slot p = None\<close> by (simp add: pool_facts run_here_def)
next
  case await
  then show ?thesis using ok by (auto simp: pool_facts)
qed

lemma pool_ok_wakes: "pool_ok n p \<Longrightarrow> pool_wakes p q \<Longrightarrow> pool_ok n q"
proof (erule pool_wakesE)
  fix w
  assume "pool_ok n p" and q: "q = p\<lparr>workers := (workers p)[w := Idle]\<rparr>" and w: "w < length (workers p)" "workers p ! w = Asleep"
  then show "pool_ok n q"
    using busy_update [OF w(1), of Idle] under_way_update [OF w(1), of Idle] taking_update [of "workers p" w Idle]
    by (auto simp: pool_facts awake_update works_def)
qed (cases "caller p"; auto simp: pool_facts)

lemma pool_ok_run:
  assumes ok: "pool_ok n p" and "pool_run p q"
  shows "pool_ok n q"
  using assms(2)
proof cases
  case (signal ws)
  note n = notify_cf_length [OF signal(3)] notify_cf_busy [OF signal(3)] notify_cf_under_way [OF signal(3)]
  have "awake ws" if "slot p \<noteq> None" using ok that notify_cf_awake [OF signal(3)] by (auto simp: pool_facts)
  then show ?thesis using ok n signal by (simp add: pool_facts)
next
  case (take i c w)
  have "(\<Sum>w\<in>#mset (workers q). under_way w) = add_mset (i, c) (\<Sum>w\<in>#mset (workers p). under_way w)"
    using under_way_update [OF take(3), of "Took i c"] take(4) by (simp add: take(1))
  moreover have "busy (workers q) = Suc (busy (workers p))"
    using busy_update [OF take(3), of "Took i c"] take(4) by (simp add: take(1) works_def)
  moreover have "taking (workers q)" unfolding taking_def take(1) using set_update_memI [OF take(3)] by auto
  ultimately show ?thesis using ok take by (auto simp: pool_facts)
next
  case (no_job w)
  then show ?thesis
    using ok busy_update [OF no_job(3), of Asleep] under_way_update [OF no_job(3), of Asleep] taking_update [of "workers p" w Asleep]
    by (auto simp: pool_facts works_def)
next
  case (taken w i c)
  then show ?thesis
    using ok busy_update [OF taken(2), of "Runs i c"] under_way_update [OF taken(2), of "Runs i c"]
    by (auto simp: pool_facts works_def awake_update)
next
  case (perform w i c)
  then have "jobs p = add_mset (i, c) (jobs q)" using under_way_update [OF perform(2), of Ran] by (simp add: jobs_def)
  then have "completion_ok (submitted p) (jobs q) (sync c i (ordered p))"
    using ok by (intro completion_sync) (simp add: pool_ok_def)
  then show ?thesis using ok perform busy_update [OF perform(2), of Ran] taking_update [of "workers p" w Ran]
    by (auto simp: pool_ok_def will_wake_def works_def awake_update)
next
  case (account w)
  then show ?thesis
    using ok busy_update [OF account(2), of Idle] under_way_update [OF account(2), of Idle] taking_update [of "workers p" w Idle]
    by (auto simp: pool_facts works_def awake_update)
qed (insert ok, auto simp: pool_facts)

lemma submitted_run: "pool_run p q \<Longrightarrow> submitted q = submitted p"
  by (auto elim!: pool_runE)

lemma submitted_grows: "pool_step p q \<Longrightarrow> length (submitted p) \<le> length (submitted q)"
  by (auto simp: pool_step_def submitted_run hand_over_def run_here_def elim!: pool_callE pool_wakesE split: prod.splits)

lemma pool_ok_start: "pool_ok n (start_pool n)"
  by (simp add: pool_facts start_pool_def completion_ok_def in_order_def busy_def works_def)

lemma pool_ok_reachable: "pool_reachable n p \<Longrightarrow> length (submitted p) \<le> 2 ^ 32 \<Longrightarrow> pool_ok n p"
proof (induction rule: pool_reachable.induct)
  case (step p q)
  have "pool_ok n p" by (rule step.IH [OF order_trans [OF submitted_grows [OF step.hyps(2)] step.prems]])
  then show ?case using step.hyps(2) step.prems pool_ok_call pool_ok_run pool_ok_wakes unfolding pool_step_def by blast
qed (rule pool_ok_start)

text \<open>The callbacks run in the order of their start; when the pool has been waited for, all have run.\<close>

lemma pool_calls:
  assumes "pool_ok n p"
  shows "calls (ordered p) = enumerate 0 (take (completed (ordered p)) (submitted p))"
  using assms by (simp add: pool_ok_def completion_ok_def in_order_def)

lemma pool_done:
  assumes ok: "pool_ok n p" and "all_done p"
  shows "calls (ordered p) = enumerate 0 (submitted p)"
proof -
  let ?s = "ordered p"
  have io: "in_order (submitted p) (jobs p) (completed ?s) (results ?s) (calls ?s)"
    and more: "\<And>i c. (i, c) \<in> set (results ?s) \<Longrightarrow> completed ?s < i"
    using ok by (auto simp: pool_ok_def completion_ok_def)
  have none: "slot p = None" "busy (workers p) = 0" using assms by (auto simp: pool_ok_def all_done_def split: option.splits)
  then have "under_way w = {#}" if "w \<in> set (workers p)" for w
    using no_works [OF none(2) that] by (cases w) (simp_all add: works_def)
  then have jobs: "jobs p = {#}" using none by (simp add: jobs_def)
  have "length (submitted p) \<le> completed ?s"
  proof (rule ccontr)
    assume "\<not> length (submitted p) \<le> completed ?s"
    then have "(completed ?s, submitted p ! completed ?s) \<in># mset (enumerate (completed ?s) (drop (completed ?s) (submitted p)))"
      by (simp add: in_set_enumerate_eq)
    also have "mset (enumerate (completed ?s) (drop (completed ?s) (submitted p))) = mset (results ?s)"
      using io jobs by (simp add: in_order_def)
    finally show False using more by auto
  qed
  then show ?thesis using pool_calls [OF ok] by simp
qed

subsection \<open>Progress\<close>

text \<open>As long as a caller is in \<open>delegate\<close> or in \<open>wait\<close>, another step is possible.\<close>

lemma works_run: "w \<in> set (workers p) \<Longrightarrow> works w \<Longrightarrow> \<exists>q. pool_run p q"
  by (cases w) (auto simp: works_def in_set_conv_nth dest: pool_run.intros)

lemma awake_run: "w \<in> set (workers p) \<Longrightarrow> w \<noteq> Asleep \<Longrightarrow> \<exists>q. pool_run p q"
  using works_run by (cases "slot p") (fastforce simp: works_def in_set_conv_nth dest: take no_job)+

lemma pool_progress:
  assumes ok: "pool_ok n p" and "caller p \<notin> {Outside, Returned}"
  shows "\<exists>q. pool_run p q"
proof (cases "caller p")
  case Handed
  then show ?thesis using notify_total signal by blast
next
  case Delegating
  then show ?thesis using resume not_taken by blast
next
  case Delegating_asleep
  then have "awake (workers p)" using ok by (auto simp: pool_ok_def will_wake_def awake_def taking_def)
  then show ?thesis using awake_run by (auto simp: awake_def)
next
  case Waiting
  then show ?thesis using finished not_finished by blast
next
  case Waiting_asleep
  then have "busy (workers p) \<noteq> 0" using ok by (auto simp: pool_facts)
  then obtain w where "w \<in> set (workers p)" "works w" by (auto simp: busy_def)
  then show ?thesis by (rule works_run)
qed (use assms(2) in auto)

text \<open>Without further calls and spurious wake-ups every thread comes to rest: the work left decreases.\<close>

fun worker_work :: "'c worker \<Rightarrow> nat" where
  "worker_work Asleep = 0"
| "worker_work Idle = 1"
| "worker_work Ran = 3"
| "worker_work (Runs i c) = 4"
| "worker_work (Took i c) = 6"

fun caller_work :: "caller \<Rightarrow> nat" where
  "caller_work Handed = 4"
| "caller_work Delegating = 2"
| "caller_work Waiting = 2"
| "caller_work Delegating_asleep = 1"
| "caller_work Waiting_asleep = 1"
| "caller_work _ = 0"

definition work :: "'c pool \<Rightarrow> nat" where
  "work p = caller_work (caller p) + (if slot p = None then 0 else 6) + sum_list (map worker_work (workers p))"

lemma notify_work:
  "caller_work (notify_cd a) \<le> Suc (caller_work a)" "caller_work (notify_cw a) \<le> Suc (caller_work a)"
  by (cases a; simp)+

lemma notify_cf_work: "notify_cf ws ws' \<Longrightarrow> sum_list (map worker_work ws') \<le> Suc (sum_list (map worker_work ws))"
  using sum_update [of _ ws worker_work Idle] by (fastforce elim!: notify_cfE)

lemma pool_run_work: "pool_run p q \<Longrightarrow> work q < work p"
proof (induction rule: pool_run.induct)
  case (signal p ws)
  then show ?case using notify_cf_work [of "workers p" ws] by (simp add: work_def)
next
  case (take p i c w)
  then show ?case using sum_update [of w "workers p" worker_work "Took i c"] by (simp add: work_def)
next
  case (no_job p w)
  then show ?case using sum_update [of w "workers p" worker_work Asleep] by (simp add: work_def)
next
  case (taken w p i c)
  then show ?case using sum_update [of w "workers p" worker_work "Runs i c"] notify_work [of "caller p"] by (simp add: work_def)
next
  case (perform w p i c)
  then show ?case using sum_update [of w "workers p" worker_work Ran] by (simp add: work_def)
next
  case (account w p)
  then show ?case using sum_update [of w "workers p" worker_work Idle] notify_work [of "caller p"] by (simp add: work_def)
qed (simp_all add: work_def)

lemma pool_runs_work: "(pool_run ^^ k) p q \<Longrightarrow> k + work q \<le> work p"
  by (induction k arbitrary: q) (fastforce dest: pool_run_work)+

lemma pool_runs_ok: "(pool_run ^^ k) p q \<Longrightarrow> pool_ok n p \<Longrightarrow> pool_ok n q \<and> submitted q = submitted p"
  by (induction k arbitrary: q) (auto dest: pool_ok_run submitted_run)

text \<open>
  C24: whatever the order in which the workers finish, the callbacks run in the order in which their
  jobs were started, each once and with its own index.
\<close>

theorem pool_in_order:
  assumes "pool_reachable n p" "length (submitted p) \<le> 2 ^ 32"
  shows "calls (ordered p) = enumerate 0 (take (completed (ordered p)) (submitted p))"
  by (rule pool_calls [OF pool_ok_reachable [OF assms]])

text \<open>Two workers; the second job is completed first.\<close>

definition pool_trace :: "char pool" where
  "pool_trace = \<lparr>slot = None, caller = Waiting, workers = [Ran, Ran], delegated = 2, performed = 0,
     ordered = sync CHR ''a'' 0 (sync CHR ''b'' 1 \<lparr>started = 2, completed = 0, results = [], calls = []\<rparr>),
     submitted = [CHR ''a'', CHR ''b'']\<rparr>"

lemma pool_trace_reachable: "pool_reachable 2 pool_trace"
proof -
  let ?p0 = "start_pool 2 :: char pool"
  let ?p1 = "hand_over CHR ''a'' ?p0"
  let ?p2 = "?p1\<lparr>caller := Delegating, workers := workers ?p1\<rparr>"
  let ?p3 = "?p2\<lparr>slot := None, workers := (workers ?p2)[0 := Took 0 CHR ''a'']\<rparr>"
  let ?p4 = "?p3\<lparr>caller := notify_cd (caller ?p3), workers := (workers ?p3)[0 := Runs 0 CHR ''a'']\<rparr>"
  let ?p5 = "?p4\<lparr>caller := Outside\<rparr>"
  let ?p6 = "hand_over CHR ''b'' ?p5"
  let ?p7 = "?p6\<lparr>caller := Delegating, workers := workers ?p6\<rparr>"
  let ?p8 = "?p7\<lparr>slot := None, workers := (workers ?p7)[1 := Took 1 CHR ''b'']\<rparr>"
  let ?p9 = "?p8\<lparr>caller := notify_cd (caller ?p8), workers := (workers ?p8)[1 := Runs 1 CHR ''b'']\<rparr>"
  let ?p10 = "?p9\<lparr>caller := Outside\<rparr>"
  let ?p11 = "?p10\<lparr>workers := (workers ?p10)[1 := Ran], ordered := sync CHR ''b'' 1 (ordered ?p10)\<rparr>"
  let ?p12 = "?p11\<lparr>workers := (workers ?p11)[0 := Ran], ordered := sync CHR ''a'' 0 (ordered ?p11)\<rparr>"
  let ?p13 = "?p12\<lparr>caller := Waiting\<rparr>"
  note d = start_pool_def hand_over_def next_index_def numeral_2_eq_2
  have call: "pool_reachable 2 p \<Longrightarrow> pool_call p q \<Longrightarrow> pool_reachable 2 q" for p q :: "char pool"
    by (erule pool_reachable.step) (simp add: pool_step_def)
  have run: "pool_reachable 2 p \<Longrightarrow> pool_run p q \<Longrightarrow> pool_reachable 2 q" for p q :: "char pool"
    by (erule pool_reachable.step) (simp add: pool_step_def)
  have r: "pool_reachable 2 ?p0" by (rule start)
  have r: "pool_reachable 2 ?p1" by (rule call [OF r], rule delegate) (simp_all add: d)
  have r: "pool_reachable 2 ?p2" by (rule run [OF r], rule signal, simp add: d, rule nobody) (simp add: d)
  have r: "pool_reachable 2 ?p3" by (rule run [OF r], rule take) (simp_all add: d)
  have r: "pool_reachable 2 ?p4" by (rule run [OF r], rule taken) (simp_all add: d)
  have r: "pool_reachable 2 ?p5" by (rule run [OF r], rule resume) (simp_all add: d)
  have r: "pool_reachable 2 ?p6" by (rule call [OF r], rule delegate) (simp_all add: d)
  have r: "pool_reachable 2 ?p7" by (rule run [OF r], rule signal, simp add: d, rule nobody) (simp add: d)
  have r: "pool_reachable 2 ?p8" by (rule run [OF r], rule take) (simp_all add: d)
  have r: "pool_reachable 2 ?p9" by (rule run [OF r], rule taken) (simp_all add: d)
  have r: "pool_reachable 2 ?p10" by (rule run [OF r], rule resume) (simp_all add: d)
  have r: "pool_reachable 2 ?p11" by (rule run [OF r], rule perform) (simp_all add: d)
  have r: "pool_reachable 2 ?p12" by (rule run [OF r], rule perform) (simp_all add: d)
  have r: "pool_reachable 2 ?p13" by (rule call [OF r], rule await) (simp add: d)
  have "?p13 = pool_trace" by (simp add: pool_trace_def d)
  with r show ?thesis by simp
qed

lemma pool_in_order_witness: "calls (ordered pool_trace) = [(0, CHR ''a''), (1, CHR ''b'')]"
  using pool_in_order [OF pool_trace_reachable] by (simp add: pool_trace_def sync_def)

text \<open>
  C25: the pool neither deadlocks nor runs for ever, and needs no spurious wake-up: from any
  reachable state the threads take at most \<open>work p\<close> steps before the caller's next call; in each of these
  states a thread can go on as long as the caller is in \<open>delegate\<close> or in \<open>wait\<close>; and when \<open>wait\<close> has
  returned, every callback has been run, in the order of the jobs (jobs and callbacks return, one
  thread delegates, and there are at most \<open>2 ^ 32\<close> jobs).
\<close>

theorem pool_waits:
  assumes "pool_reachable n p" "length (submitted p) \<le> 2 ^ 32" "(pool_run ^^ k) p q"
  shows "k \<le> work p \<and> (caller q \<in> {Outside, Returned} \<or> (\<exists>r. pool_run q r))
    \<and> (if caller q = Returned then calls (ordered q) = enumerate 0 (submitted q) else True)"
proof -
  have ok: "pool_ok n q" using pool_runs_ok [OF assms(3) pool_ok_reachable [OF assms(1,2)]] by simp
  moreover have "caller q = Returned \<Longrightarrow> calls (ordered q) = enumerate 0 (submitted q)"
    using ok by (intro pool_done [OF ok]) (simp add: pool_ok_def all_done_def)
  ultimately show ?thesis using pool_runs_work [OF assms(3)] pool_progress by auto
qed

text \<open>Both jobs have been run but not yet accounted for; the caller goes to sleep in \<open>wait\<close>, and a worker can go on.\<close>

lemma pool_waits_witness: "\<exists>r. pool_run (pool_trace\<lparr>caller := Waiting_asleep\<rparr>) r"
proof -
  have "pool_run pool_trace (pool_trace\<lparr>caller := Waiting_asleep\<rparr>)"
    by (rule not_finished) (simp_all add: pool_trace_def)
  then have "(pool_run ^^ 1) pool_trace (pool_trace\<lparr>caller := Waiting_asleep\<rparr>)" by (simp only: relpowp_1)
  from pool_waits [OF pool_trace_reachable _ this] show ?thesis by (simp add: pool_trace_def)
qed

end
