(* ===== verification/Features.thy ===== *)
theory Features
  imports Prelude "HOL-Library.Sublist"
begin

text \<open>
  The features that can be selected on the command line, \<open>features.cpp\<close> and \<open>features.hpp\<close>: flags,
  and strategies with named options.  The registered features are a list, \<open>features::all\<close>; the
  iterator \<open>selected\<close> is an index, one past the last option if there is no such option.
\<close>

datatype feature =
    Feature_flag (fname: string) (validity: bool) (enabled: bool)
  | Strategies (fname: string) (options: "string list") (selected: nat)

text \<open>The constructors.\<close>

definition flag :: "string \<Rightarrow> bool \<Rightarrow> feature" where
  "flag name b = Feature_flag name True b"

definition strategies :: "string \<Rightarrow> string list \<Rightarrow> feature" where
  "strategies name opts = Strategies name opts 0"

fun assign :: "feature \<Rightarrow> string \<Rightarrow> feature" where
  "assign (Feature_flag name v e) s =
     (if s = ''no'' \<or> s = ''false'' then Feature_flag name True False
      else if s = ''yes'' \<or> s = ''true'' then Feature_flag name True True
      else Feature_flag name False e)"
| "assign (Strategies name opts sel) s = Strategies name opts (length (takeWhile (\<lambda>opt. opt \<noteq> s) opts))"

fun valid :: "feature \<Rightarrow> bool" where
  "valid (Feature_flag name v e) = v"
| "valid (Strategies name opts sel) = (sel \<noteq> length opts)"

fun fvalue :: "feature \<Rightarrow> string" where
  "fvalue (Feature_flag name v e) = (if e then name else ''no-'' @ name)"
| "fvalue (Strategies name opts sel) = name @ ''='' @ (if sel \<noteq> length opts then opts ! sel else [])"

fun example :: "feature \<Rightarrow> string" where
  "example (Feature_flag name v e) = (if e then ''(no-)'' @ name else ''no-'' @ name)"
| "example (Strategies name opts sel) = name @ ''='' @ (if sel \<noteq> length opts then opts ! sel else [])
     @ concat (map (\<lambda>i. if i = sel then [] else ''|'' @ opts ! i) [0..<length opts])"

definition values_text :: "feature list \<Rightarrow> string" where
  "values_text fs = (let str = concat (map (\<lambda>f. fvalue f @ '','') fs) in if str \<noteq> [] then butlast str else str)"

text \<open>Key and value of an argument.\<close>

definition split_arg :: "string \<Rightarrow> string \<times> string" where
  "split_arg str =
     (if CHR ''='' \<in> set str then
        let eq = length (takeWhile (\<lambda>c. c \<noteq> CHR ''='') str) in (take eq str, drop (eq + 1) str)
      else if prefix ''no-'' str then (drop 3 str, ''no'')
      else (str, ''yes''))"

fun set_feature :: "string \<Rightarrow> string \<Rightarrow> feature list \<Rightarrow> bool \<times> feature list" where
  "set_feature key val [] = (False, [])"
| "set_feature key val (f # fs) =
     (if fname f \<noteq> key then let (b, fs) = set_feature key val fs in (b, f # fs)
      else let f = assign f val in (valid f, f # fs))"

definition parse :: "string \<Rightarrow> feature list \<Rightarrow> bool \<times> feature list" where
  "parse str fs = (let (key, val) = split_arg str in set_feature key val fs)"

subsection \<open>What an argument means\<close>

definition plain_name :: "feature \<Rightarrow> bool" where
  "plain_name f \<longleftrightarrow> CHR ''='' \<notin> set (fname f) \<and> \<not> prefix ''no-'' (fname f)"

text \<open>A setting that can be selected, by the first option of its name.\<close>

fun selectable :: "feature \<Rightarrow> bool" where
  "selectable (Feature_flag name v e) = v"
| "selectable (Strategies name opts sel) = (sel < length opts \<and> distinct opts)"

fun same_kind :: "feature \<Rightarrow> feature \<Rightarrow> bool" where
  "same_kind (Feature_flag name v e) g = (\<exists>v' e'. g = Feature_flag name v' e')"
| "same_kind (Strategies name opts sel) g = (\<exists>sel'. g = Strategies name opts sel')"

lemma same_kind_name: "same_kind f g \<Longrightarrow> fname g = fname f"
  by (cases f) auto

lemma split_equals [simp]:
  assumes "CHR ''='' \<notin> set k"
  shows "split_arg (k @ CHR ''='' # v) = (k, v)"
proof -
  have "takeWhile (\<lambda>c. c \<noteq> CHR ''='') (k @ CHR ''='' # v) = k"
    using assms by (subst takeWhile_append2) auto
  then show ?thesis by (simp add: split_arg_def Let_def)
qed

lemma take_first:
  assumes "distinct xs" "i < length xs"
  shows "length (takeWhile (\<lambda>x. x \<noteq> xs ! i) xs) = i"
proof -
  have "takeWhile (\<lambda>x. x \<noteq> xs ! i) xs = take i xs"
    by (rule takeWhile_eq_take_P_nth) (use assms in \<open>auto simp: nth_eq_iff_index_eq\<close>)
  then show ?thesis using assms(2) by simp
qed

text \<open>The value of a feature, read back, sets any feature of its kind to the same setting.\<close>

lemma assign_value:
  assumes "plain_name f" "selectable f" "same_kind f g"
  shows "split_arg (fvalue f) = (fname f, snd (split_arg (fvalue f)))" "assign g (snd (split_arg (fvalue f))) = f" "valid f"
proof -
  have "split_arg (fvalue f) = (fname f, snd (split_arg (fvalue f))) \<and> assign g (snd (split_arg (fvalue f))) = f \<and> valid f"
  proof (cases f)
    case (Feature_flag name v e)
    then obtain v' e' where "g = Feature_flag name v' e'" using assms(3) by auto
    then show ?thesis using assms Feature_flag by (auto simp: split_arg_def plain_name_def)
  next
    case (Strategies name opts sel)
    then obtain sel' where "g = Strategies name opts sel'" using assms(3) by auto
    then show ?thesis using assms Strategies by (auto simp: plain_name_def take_first)
  qed
  then show "split_arg (fvalue f) = (fname f, snd (split_arg (fvalue f)))" "assign g (snd (split_arg (fvalue f))) = f" "valid f"
    by auto
qed

lemma set_feature_other:
  assumes "key \<notin> set (map fname fs)"
  shows "set_feature key val (fs @ gs) = (let (b, gs) = set_feature key val gs in (b, fs @ gs))"
  using assms by (induction fs) (auto simp: Let_def split: prod.splits)

text \<open>Parsing all values of one configuration turns another one into it.\<close>

fun parse_all :: "string list \<Rightarrow> feature list \<Rightarrow> bool \<times> feature list" where
  "parse_all [] fs = (True, fs)"
| "parse_all (s # ss) fs = (let (b, fs) = parse s fs in let (c, fs) = parse_all ss fs in (b \<and> c, fs))"

lemma parse_values:
  assumes "\<forall>f\<in>set (fs @ gs). plain_name f" "\<forall>g\<in>set gs. selectable g" "list_all2 same_kind gs hs" "distinct (map fname (fs @ gs))"
  shows "parse_all (map fvalue gs) (fs @ hs) = (True, fs @ gs)"
  using assms
proof (induction gs arbitrary: fs hs)
  case (Cons g gs)
  then obtain h hs' where h: "hs = h # hs'" "same_kind g h" "list_all2 same_kind gs hs'" by (auto simp: list_all2_Cons1)
  have new: "fname g \<notin> set (map fname fs)" using Cons.prems(4) by auto
  have name: "fname h = fname g" by (rule same_kind_name [OF h(2)])
  have ok: "plain_name g" "selectable g" using Cons.prems by simp_all
  note v = assign_value [OF ok h(2)]
  have "parse (fvalue g) (fs @ hs) = set_feature (fname g) (snd (split_arg (fvalue g))) (fs @ h # hs')"
    using v(1) by (simp add: parse_def h(1) case_prod_beta) (metis fst_conv)
  also have "\<dots> = (True, fs @ g # hs')"
    using v(2,3) name by (simp add: set_feature_other [OF new] Let_def)
  finally have "parse (fvalue g) (fs @ hs) = (True, (fs @ [g]) @ hs')" by simp
  moreover have "parse_all (map fvalue gs) ((fs @ [g]) @ hs') = (True, (fs @ [g]) @ gs)"
    by (rule Cons.IH) (use Cons.prems h(3) in auto)
  ultimately show ?case by simp
qed simp

text \<open>An argument that names no feature is rejected and changes nothing.\<close>

lemma parse_unknown:
  assumes "fst (split_arg str) \<notin> set (map fname fs)"
  shows "parse str fs = (False, fs)"
  using set_feature_other [OF assms, of "snd (split_arg str)" "[]"] by (simp add: parse_def case_prod_beta)

text \<open>
  C26: the values of all features, read back as arguments, turn any configuration of the same features
  into the printed one.
\<close>

theorem features_roundtrip:
  assumes "\<forall>f\<in>set fs. plain_name f \<and> selectable f" "list_all2 same_kind fs gs" "distinct (map fname fs)"
  shows "parse_all (map fvalue fs) gs = (True, fs)"
  using parse_values [of "[]" fs gs] assms by simp

lemma features_roundtrip_witness:
  "parse_all [''no-check-each-branch'', ''sat-strategy=incremental'']
     [flag ''check-each-branch'' True, strategies ''sat-strategy'' [''unsat-core'', ''incremental'']]
   = (True, [flag ''check-each-branch'' False, Strategies ''sat-strategy'' [''unsat-core'', ''incremental''] 1])"
proof -
  let ?fs = "[flag ''check-each-branch'' False, Strategies ''sat-strategy'' [''unsat-core'', ''incremental''] 1]"
  let ?gs = "[flag ''check-each-branch'' True, strategies ''sat-strategy'' [''unsat-core'', ''incremental'']]"
  have "list_all2 same_kind ?fs ?gs" by (auto simp: flag_def strategies_def)
  then have "parse_all (map fvalue ?fs) ?gs = (True, ?fs)"
    by (intro features_roundtrip) (simp_all add: plain_name_def flag_def)
  then show ?thesis by (simp add: flag_def)
qed

end
