(* ===== verification/Expr.thy ===== *)
theory Expr
  imports Prelude
begin

text \<open>
  The expression classes of \<open>src/estimator/expr.hpp\<close> and their meaning.

  The class hierarchy has four sorts: \<open>lexpr\<close> (formulas), \<open>bvexpr<B>\<close> (bit vectors),
  \<open>bvarray<A,V>\<close> (memories) and the common base \<open>expr\<close> that an \<open>eptr\<close> points to.  Each
  sort is a datatype; each struct is a constructor, except that structs which differ in
  their \<open>name()\<close> only (the subclasses of \<open>binary\<close>, \<open>bvbinary\<close> and \<open>unary\<close>) share one
  constructor that carries the operator.  A template argument that is not determined by
  the operands is a constructor argument; \<open>width\<close> recomputes the argument \<open>B\<close>.

  An object of class \<open>undefined\<close> is equal to itself only, so it carries its identity: the
  object that \<open>undef<B>()\<close> shares, one of the static \<open>step_expr\<close> objects of
  \<open>mul_step_tok\<close>, or the n-th object made by \<open>undef<B>(name)\<close>.
\<close>

subsection \<open>Data\<close>

datatype undef_id = Shared | Static string | Fresh nat

text \<open>A \<open>bvavariable<A,V>\<close>: index width, element width and \<open>declname\<close>.\<close>

datatype avar = Avar (avar_A: nat) (avar_V: nat) (declname: string)

datatype lcmp = Equality | Bvultcomparison | Bvulecomparison | Bvugtcomparison | Bvugecomparison

datatype binop = Bvanding | Bvoring | Bvxoring | Bvshiftl | Bvlshiftr | Bvashiftr
  | Bvaddition | Bvsubstraction | Bvmultiplication

datatype bitop = Bvcomparison | Bvaddition_carry | Bvsubstraction_carry

datatype rot = Bvrotationl | Bvrotationr

datatype lexpr =
    Boolean bool
  | Negation lexpr
  | Loring lexpr lexpr
  | Landing lexpr lexpr
  | Comparison lcmp bvexpr bvexpr
and bvexpr =
    Undefined nat undef_id string "expr option"
  | Bitvector nat u64
  | Bvvariable nat string
  | BvIte lexpr bvexpr bvexpr
  | Extraction nat nat bvexpr
  | Bvnegation bvexpr
  | Concatenation bvexpr bvexpr
  | Bvbinary binop bvexpr bvexpr
  | Bvbit bitop bvexpr bvexpr
  | Bvrotation rot bvexpr nat
  | Pointer avar bvexpr
  | Pointer_ext avar bvexpr bvexpr
  | Pointer_base avar nat bvexpr
  | Selection bvarray bvexpr
and bvarray =
    Undefined_array nat nat undef_id string "expr option"
  | Bvavariable avar
  | Storing bvarray bvexpr bvexpr
  | Concrete_storing bvarray "(u64 \<times> bvexpr) list"
  | ArrIte lexpr bvarray bvarray
and expr = Elexpr lexpr | Ebvexpr bvexpr | Ebvarray bvarray

subsection \<open>Template arguments\<close>

primrec arr_A :: "bvarray \<Rightarrow> nat" where
  "arr_A (Undefined_array A V i n e) = A"
| "arr_A (Bvavariable v) = avar_A v"
| "arr_A (Storing a off v) = arr_A a"
| "arr_A (Concrete_storing a m) = arr_A a"
| "arr_A (ArrIte l a b) = arr_A a"

primrec arr_V :: "bvarray \<Rightarrow> nat" where
  "arr_V (Undefined_array A V i n e) = V"
| "arr_V (Bvavariable v) = avar_V v"
| "arr_V (Storing a off v) = arr_V a"
| "arr_V (Concrete_storing a m) = arr_V a"
| "arr_V (ArrIte l a b) = arr_V a"

text \<open>
  The template argument \<open>B\<close> of a \<open>bvexpr<B>\<close>.  For an extraction this is \<open>S-E+1\<close>; for a
  pointer it is the index width of its array.
\<close>

primrec width :: "bvexpr \<Rightarrow> nat" where
  "width (Undefined w i n e) = w"
| "width (Bitvector w v) = w"
| "width (Bvvariable w n) = w"
| "width (BvIte l a b) = width a"
| "width (Extraction S E e) = S - E + 1"
| "width (Bvnegation e) = width e"
| "width (Concatenation a b) = width a + width b"
| "width (Bvbinary f a b) = width a"
| "width (Bvbit f a b) = 1"
| "width (Bvrotation r e i) = width e"
| "width (Pointer p off) = avar_A p"
| "width (Pointer_ext p off ext) = avar_A p + width ext"
| "width (Pointer_base p s off) = avar_A p"
| "width (Selection a off) = arr_V a"

text \<open>The constructor of \<open>bitvector<B>\<close> clears the bits above \<open>B\<close>.\<close>

definition bvconstant :: "nat \<Rightarrow> u64 \<Rightarrow> bvexpr" where
  "bvconstant B v = Bitvector B (if B < 64 then v AND lowmask B else v)"

lemma width_bvconstant [simp, width_simps]: "width (bvconstant B v) = B"
  by (simp add: bvconstant_def)

subsection \<open>Meaning\<close>

text \<open>
  A valuation gives every declared variable and every unknown object a value.  \<open>base\<close> is the
  address an array lives at, as seen by the program that is analysed: \<open>Pointer p off\<close> is the
  address of element \<open>off\<close>, and \<open>Pointer_base p s off\<close> is that (possibly wider) address
  shifted right by \<open>s\<close>.
\<close>

record valuation =
  vars :: "string \<Rightarrow> int"
  unknowns :: "undef_id \<Rightarrow> int"
  arrays :: "string \<Rightarrow> int \<Rightarrow> int"
  unknown_arrays :: "undef_id \<Rightarrow> int \<Rightarrow> int"
  base :: "string \<Rightarrow> int"

primrec lcmp_eval :: "lcmp \<Rightarrow> int \<Rightarrow> int \<Rightarrow> bool" where
  "lcmp_eval Equality a b = (a = b)"
| "lcmp_eval Bvultcomparison a b = (a < b)"
| "lcmp_eval Bvulecomparison a b = (a \<le> b)"
| "lcmp_eval Bvugtcomparison a b = (a > b)"
| "lcmp_eval Bvugecomparison a b = (a \<ge> b)"

definition signed :: "nat \<Rightarrow> int \<Rightarrow> int" where
  "signed w a = signed_take_bit (w - 1) a"

primrec binop_eval :: "binop \<Rightarrow> nat \<Rightarrow> int \<Rightarrow> int \<Rightarrow> int" where
  "binop_eval Bvanding w a b = take_bit w (a AND b)"
| "binop_eval Bvoring w a b = take_bit w (a OR b)"
| "binop_eval Bvxoring w a b = take_bit w (a XOR b)"
| "binop_eval Bvshiftl w a b = take_bit w (push_bit (nat b) a)"
| "binop_eval Bvlshiftr w a b = take_bit w (drop_bit (nat b) a)"
| "binop_eval Bvashiftr w a b = take_bit w (drop_bit (nat b) (signed w a))"
| "binop_eval Bvaddition w a b = take_bit w (a + b)"
| "binop_eval Bvsubstraction w a b = take_bit w (a - b)"
| "binop_eval Bvmultiplication w a b = take_bit w (a * b)"

text \<open>
  The carry of an addition is the bit that falls out.  The carry of a subtraction follows the
  comment in \<open>bcs::check\<close>: it is set if no borrow happens.
\<close>

primrec bitop_eval :: "bitop \<Rightarrow> nat \<Rightarrow> int \<Rightarrow> int \<Rightarrow> int" where
  "bitop_eval Bvcomparison w a b = of_bool (a = b)"
| "bitop_eval Bvaddition_carry w a b = of_bool (2 ^ w \<le> a + b)"
| "bitop_eval Bvsubstraction_carry w a b = of_bool (b \<le> a)"

primrec rot_eval :: "rot \<Rightarrow> nat \<Rightarrow> nat \<Rightarrow> int \<Rightarrow> int" where
  "rot_eval Bvrotationl w i a = take_bit w (push_bit (i mod w) a OR drop_bit (w - i mod w) a)"
| "rot_eval Bvrotationr w i a = take_bit w (drop_bit (i mod w) a OR push_bit (w - i mod w) a)"

fun leval :: "valuation \<Rightarrow> lexpr \<Rightarrow> bool"
  and bveval :: "valuation \<Rightarrow> bvexpr \<Rightarrow> int"
  and aeval :: "valuation \<Rightarrow> bvarray \<Rightarrow> int \<Rightarrow> int" where
  "leval \<rho> (Boolean b) = b"
| "leval \<rho> (Negation e) = (\<not> leval \<rho> e)"
| "leval \<rho> (Loring a b) = (leval \<rho> a \<or> leval \<rho> b)"
| "leval \<rho> (Landing a b) = (leval \<rho> a \<and> leval \<rho> b)"
| "leval \<rho> (Comparison f a b) = lcmp_eval f (bveval \<rho> a) (bveval \<rho> b)"
| "bveval \<rho> (Undefined w i n e) = take_bit w (unknowns \<rho> i)"
| "bveval \<rho> (Bitvector w v) = take_bit w (uint v)"
| "bveval \<rho> (Bvvariable w n) = take_bit w (vars \<rho> n)"
| "bveval \<rho> (BvIte l a b) = take_bit (width a) (if leval \<rho> l then bveval \<rho> a else bveval \<rho> b)"
| "bveval \<rho> (Extraction S E e) = take_bit (S - E + 1) (drop_bit E (bveval \<rho> e))"
| "bveval \<rho> (Bvnegation e) = take_bit (width e) (NOT (bveval \<rho> e))"
| "bveval \<rho> (Concatenation a b) = push_bit (width b) (bveval \<rho> a) OR bveval \<rho> b"
| "bveval \<rho> (Bvbinary f a b) = binop_eval f (width a) (bveval \<rho> a) (bveval \<rho> b)"
| "bveval \<rho> (Bvbit f a b) = bitop_eval f (width a) (bveval \<rho> a) (bveval \<rho> b)"
| "bveval \<rho> (Bvrotation r e i) = rot_eval r (width e) i (bveval \<rho> e)"
| "bveval \<rho> (Pointer p off) = take_bit (avar_A p) (base \<rho> (declname p) + bveval \<rho> off)"
| "bveval \<rho> (Pointer_ext p off ext) =
     push_bit (avar_A p) (bveval \<rho> ext) OR take_bit (avar_A p) (base \<rho> (declname p) + bveval \<rho> off)"
| "bveval \<rho> (Pointer_base p s off) =
     take_bit (avar_A p) (drop_bit s (base \<rho> (declname p) + bveval \<rho> off))"
| "bveval \<rho> (Selection a off) = take_bit (arr_V a) (aeval \<rho> a (bveval \<rho> off))"
| "aeval \<rho> (Undefined_array A V i n e) = unknown_arrays \<rho> i"
| "aeval \<rho> (Bvavariable v) = arrays \<rho> (declname v)"
| "aeval \<rho> (Storing a off v) = (aeval \<rho> a)(bveval \<rho> off := bveval \<rho> v)"
| "aeval \<rho> (Concrete_storing a m) = (\<lambda>i.
     case map_of (map (\<lambda>(k, v). (uint k, bveval \<rho> v)) m) i of None \<Rightarrow> aeval \<rho> a i | Some x \<Rightarrow> x)"
| "aeval \<rho> (ArrIte l a b) = (if leval \<rho> l then aeval \<rho> a else aeval \<rho> b)"

text \<open>Every value fits its width.\<close>

lemma take_bit_binop [simp]: "take_bit w (binop_eval f w a b) = binop_eval f w a b"
  by (cases f) simp_all

lemma mod_2_bitop [simp]: "bitop_eval f w a b mod 2 = bitop_eval f w a b"
  by (cases f) simp_all

lemma take_bit_rot [simp]: "take_bit w (rot_eval r w i a) = rot_eval r w i a"
  by (cases r) simp_all

lemma take_bit_concat:
  "take_bit m x = x \<Longrightarrow> take_bit n y = y \<Longrightarrow>
     take_bit (m + n) (push_bit n x OR y) = push_bit n x OR y" for x y :: int
  by (rule bit_eqI) (auto simp: bit_simps dest: bit_take_bit_self)

lemma bveval_take_bit [simp]: "take_bit (width e) (bveval \<rho> e) = bveval \<rho> e"
proof (induction e)
  case (Concatenation a b)
  then show ?case by (simp only: bveval.simps width.simps take_bit_concat)
next
  case (Pointer_ext p off ext)
  then show ?case
    by (simp only: bveval.simps width.simps take_bit_concat take_bit_take_bit min.idem
        add.commute [of "avar_A p"])
qed simp_all

lemma bit_bveval: "bit (bveval \<rho> e) i \<Longrightarrow> i < width e"
  by (rule bit_take_bit_self [OF bveval_take_bit])

lemma bveval_nonneg [simp]: "0 \<le> bveval \<rho> e"
  using take_bit_bounds [OF bveval_take_bit] by blast

lemma bveval_less: "bveval \<rho> e < 2 ^ width e"
  using take_bit_bounds [OF bveval_take_bit] by blast

lemma bveval_bvconstant [simp, eval_simps]: "B \<le> 64 \<Longrightarrow> bveval \<rho> (bvconstant B v) = take_bit B (uint v)"
  by (auto simp: bvconstant_def uint_and_lowmask)

subsection \<open>Well-typed expressions\<close>

text \<open>
  What the C++ type checker guarantees of an expression object: operands have the width the
  template demands, extractions stay inside their operand, constants are masked, and the
  \<open>std::map\<close> of a \<open>concrete_storing\<close> has its keys in order.
\<close>

fun lwt :: "lexpr \<Rightarrow> bool"
  and bwt :: "bvexpr \<Rightarrow> bool"
  and awt :: "bvarray \<Rightarrow> bool" where
  "lwt (Boolean b) = True"
| "lwt (Negation e) = lwt e"
| "lwt (Loring a b) = (lwt a \<and> lwt b)"
| "lwt (Landing a b) = (lwt a \<and> lwt b)"
| "lwt (Comparison f a b) = (bwt a \<and> bwt b \<and> width a = width b)"
| "bwt (Undefined w i n e) = (0 < w)"
| "bwt (Bitvector w v) = (0 < w \<and> w \<le> 64 \<and> take_bit w v = v)"
| "bwt (Bvvariable w n) = (0 < w)"
| "bwt (BvIte l a b) = (lwt l \<and> bwt a \<and> bwt b \<and> width a = width b)"
| "bwt (Extraction S E e) = (bwt e \<and> E \<le> S \<and> S < width e)"
| "bwt (Bvnegation e) = bwt e"
| "bwt (Concatenation a b) = (bwt a \<and> bwt b)"
| "bwt (Bvbinary f a b) = (bwt a \<and> bwt b \<and> width a = width b)"
| "bwt (Bvbit f a b) = (bwt a \<and> bwt b \<and> width a = width b)"
| "bwt (Bvrotation r e i) = bwt e"
| "bwt (Pointer p off) = (bwt off \<and> width off = avar_A p)"
| "bwt (Pointer_ext p off ext) = (bwt off \<and> bwt ext \<and> width off = avar_A p)"
| "bwt (Pointer_base p s off) = (bwt off \<and> width off = avar_A p)"
| "bwt (Selection a off) = (awt a \<and> bwt off \<and> width off = arr_A a \<and> 0 < arr_V a)"
| "awt (Undefined_array A V i n e) = (0 < A \<and> 0 < V)"
| "awt (Bvavariable v) = (0 < avar_A v \<and> 0 < avar_V v)"
| "awt (Storing a off v) = (awt a \<and> bwt off \<and> bwt v \<and> width off = arr_A a \<and> width v = arr_V a)"
| "awt (Concrete_storing a m) =
     (awt a \<and> (\<forall>(k, v) \<in> set m. bwt v \<and> width v = arr_V a \<and> take_bit (arr_A a) k = k)
        \<and> sorted_wrt (<) (map fst m))"
| "awt (ArrIte l a b) = (lwt l \<and> awt a \<and> awt b \<and> arr_A a = arr_A b \<and> arr_V a = arr_V b)"

lemma bwt_width_pos: "bwt e \<Longrightarrow> 0 < width e"
  by (induction e) auto

lemma bwt_bvconstant [simp]: "0 < B \<Longrightarrow> B \<le> 64 \<Longrightarrow> bwt (bvconstant B v)"
  by (cases "B = 64") (auto simp: bvconstant_def lowmask_mask take_bit_word_eq_self simp flip: take_bit_eq_mask)

end
