(* ===== verification/Expr_Concat.thy ===== *)
theory Expr_Concat
  imports Expr
begin

text \<open>
  The smart constructors \<open>expr::extract\<close> and \<open>expr::concat\<close> of \<open>expr.hpp\<close>, which call each
  other, and the casts they use.

  A helper \<open>h::X::t(r, e)\<close> that returns true after an assignment to \<open>r\<close> is a function that
  returns \<open>Some\<close> request: the right-hand side of the assignment, with the calls of
  \<open>extract\<close> and \<open>concat\<close> in it not yet performed.  \<open>run\<close> performs a request.
\<close>

subsection \<open>Casts\<close>

text \<open>
  \<open>expr::cast\<close>: a \<open>dynamic_pointer_cast\<close> succeeds if the object has the class asked for, with
  the template arguments asked for.
\<close>

definition cast_constant :: "bvexpr \<Rightarrow> u64 option" where
  "cast_constant e = (case e of Bitvector B v \<Rightarrow> Some v | _ \<Rightarrow> None)"

definition cast_concat :: "nat \<Rightarrow> nat \<Rightarrow> bvexpr \<Rightarrow> (bvexpr \<times> bvexpr) option" where
  "cast_concat A B e = (case e of
     Concatenation a b \<Rightarrow> if width a = A \<and> width b = B then Some (a, b) else None | _ \<Rightarrow> None)"

definition cast_extract :: "nat \<Rightarrow> nat \<Rightarrow> nat \<Rightarrow> bvexpr \<Rightarrow> bvexpr option" where
  "cast_extract S E B e = (case e of
     Extraction S' E' e' \<Rightarrow> if S' = S \<and> E' = E \<and> width e' = B then Some e' else None | _ \<Rightarrow> None)"

definition cast_ptr :: "nat \<Rightarrow> nat \<Rightarrow> bvexpr \<Rightarrow> (avar \<times> bvexpr) option" where
  "cast_ptr A V e = (case e of
     Pointer p off \<Rightarrow> if avar_A p = A \<and> avar_V p = V then Some (p, off) else None | _ \<Rightarrow> None)"

definition cast_ptr_ext :: "nat \<Rightarrow> nat \<Rightarrow> nat \<Rightarrow> bvexpr \<Rightarrow> (avar \<times> bvexpr \<times> bvexpr) option" where
  "cast_ptr_ext A V E e = (case e of
     Pointer_ext p off ext \<Rightarrow>
       if avar_A p = A \<and> avar_V p = V \<and> width ext = E then Some (p, off, ext) else None
   | _ \<Rightarrow> None)"

definition cast_ptr_base :: "nat \<Rightarrow> nat \<Rightarrow> bvexpr \<Rightarrow> (avar \<times> nat \<times> bvexpr) option" where
  "cast_ptr_base A V e = (case e of
     Pointer_base p s off \<Rightarrow> if avar_A p = A \<and> avar_V p = V then Some (p, s, off) else None
   | _ \<Rightarrow> None)"

lemma cast_constant_Bitvector [simp]: "cast_constant (Bitvector B v) = Some v"
  by (simp add: cast_constant_def)

text \<open>What a successful cast tells about the object.\<close>

named_theorems cast_elims \<open>elimination of successful casts\<close>

lemma cast_constant_SomeE [cast_elims]:
  assumes "cast_constant e = Some v"
  obtains B where "e = Bitvector B v"
  using assms by (auto simp: cast_constant_def split: bvexpr.splits)

lemma cast_concat_SomeE [cast_elims]:
  assumes "cast_concat A B e = Some x"
  obtains a b where "x = (a, b)" "e = Concatenation a b" "width a = A" "width b = B"
  using assms by (auto simp: cast_concat_def split: bvexpr.splits if_splits)

lemma cast_extract_SomeE [cast_elims]:
  assumes "cast_extract S E B e = Some x"
  obtains S' E' where "e = Extraction S' E' x" "S' = S" "E' = E" "width x = B"
  using assms by (auto simp: cast_extract_def split: bvexpr.splits if_splits)

lemma cast_ptr_SomeE [cast_elims]:
  assumes "cast_ptr A V e = Some x"
  obtains p off where "x = (p, off)" "e = Pointer p off" "avar_A p = A" "avar_V p = V"
  using assms by (auto simp: cast_ptr_def split: bvexpr.splits if_splits)

lemma cast_ptr_ext_SomeE [cast_elims]:
  assumes "cast_ptr_ext A V E e = Some x"
  obtains p off ext where "x = (p, off, ext)" "e = Pointer_ext p off ext"
    "avar_A p = A" "avar_V p = V" "width ext = E"
  using assms by (auto simp: cast_ptr_ext_def split: bvexpr.splits if_splits)

lemma cast_ptr_base_SomeE [cast_elims]:
  assumes "cast_ptr_base A V e = Some x"
  obtains p s off where "x = (p, s, off)" "e = Pointer_base p s off" "avar_A p = A" "avar_V p = V"
  using assms by (auto simp: cast_ptr_base_def split: bvexpr.splits if_splits)

subsection \<open>Requests\<close>

datatype req = Done bvexpr | Extract nat nat req | Concat req req

primrec rwidth :: "req \<Rightarrow> nat" where
  "rwidth (Done e) = width e"
| "rwidth (Extract S E q) = S - E + 1"
| "rwidth (Concat p q) = rwidth p + rwidth q"

primrec reval :: "valuation \<Rightarrow> req \<Rightarrow> int" where
  "reval \<rho> (Done e) = bveval \<rho> e"
| "reval \<rho> (Extract S E q) = take_bit (S - E + 1) (drop_bit E (reval \<rho> q))"
| "reval \<rho> (Concat p q) = push_bit (rwidth q) (reval \<rho> p) OR reval \<rho> q"

text \<open>A request the type checker accepts.\<close>

primrec rwt :: "req \<Rightarrow> bool" where
  "rwt (Done e) = bwt e"
| "rwt (Extract S E q) = (rwt q \<and> E \<le> S \<and> S < rwidth q)"
| "rwt (Concat p q) = (rwt p \<and> rwt q)"

lemma bit_reval: "bit (reval \<rho> q) i \<Longrightarrow> i < rwidth q"
proof (induction q arbitrary: i)
  case (Concat p q)
  then show ?case by (fastforce simp: bit_simps)
qed (auto simp: bit_bveval bit_simps)

subsection \<open>Helpers of extract\<close>

definition ExtractConstant :: "nat \<Rightarrow> nat \<Rightarrow> bvexpr \<Rightarrow> req option" where
  "ExtractConstant S E e =
     (if width e \<le> 64 then map_option (\<lambda>v. Done (bvconstant (S - E + 1) (drop_bit E v))) (cast_constant e)
      else None)"

definition ExtractFull :: "nat \<Rightarrow> nat \<Rightarrow> bvexpr \<Rightarrow> req option" where
  "ExtractFull S E e = (if S + 1 = width e \<and> E = 0 then Some (Done e) else None)"

definition ExtractPointerExt :: "nat \<Rightarrow> nat \<Rightarrow> nat \<Rightarrow> bvexpr \<Rightarrow> req option" where
  "ExtractPointerExt S E V e =
     (let B = width e in
      if B = 64 \<and> E = 0 \<and> S = 31 then
        map_option (\<lambda>(p, off, ext). Done (Pointer p off)) (cast_ptr_ext (S + 1) V (B - S - 1) e)
      else if B = 64 \<and> E = 32 \<and> S = 63 then
        map_option (\<lambda>(p, off, ext). Done ext) (cast_ptr_ext E V (S - E + 1) e)
      else None)"

definition ExtractCl :: "nat \<Rightarrow> nat \<Rightarrow> bvexpr \<Rightarrow> req option" where
  "ExtractCl S E e = map_option (\<lambda>(a, b). Extract (S - E) 0 (Done a)) (cast_concat (width e - E) E e)"

definition ExtractCr :: "nat \<Rightarrow> nat \<Rightarrow> bvexpr \<Rightarrow> req option" where
  "ExtractCr S E e = map_option (\<lambda>(a, b). Extract S E (Done b)) (cast_concat (width e - S - 1) (S + 1) e)"

definition ExtractConcatLeft :: "nat \<Rightarrow> nat \<Rightarrow> nat \<Rightarrow> bvexpr \<Rightarrow> req option" where
  "ExtractConcatLeft S E Off e =
     (let B = width e in
      if B > Off \<and> E \<ge> Off \<and> B mod 8 = 0 \<and> B \<le> 64 then
        map_option (\<lambda>(a, b). Extract (S - Off) (E - Off) (Done a)) (cast_concat (B - Off) Off e)
      else if B > Off \<and> S \<ge> Off \<and> E < Off
           \<and> ((B mod 8 = 0 \<and> B \<le> 64 \<and> Off mod 8 = 0) \<or> (B = 65 \<and> E = 0)) then
        map_option (\<lambda>(a, b). Concat (Extract (S - Off) 0 (Done a)) (Extract (Off - 1) E (Done b)))
          (cast_concat (B - Off) Off e)
      else None)"

definition ExtractConcatRight :: "nat \<Rightarrow> nat \<Rightarrow> nat \<Rightarrow> bvexpr \<Rightarrow> req option" where
  "ExtractConcatRight S E Off e =
     (let B = width e in
      if B - S - 1 \<ge> Off \<and> B \<le> 64 then
        map_option (\<lambda>(a, b). Extract S E (Done b)) (cast_concat Off (B - Off) e)
      else None)"

definition ExtractExtractLeft :: "nat \<Rightarrow> nat \<Rightarrow> nat \<Rightarrow> bvexpr \<Rightarrow> req option" where
  "ExtractExtractLeft S E Off e =
     (let B = width e in
      if 255 - B > Off \<and> 255 + S > 0
         \<and> ((S = E \<and> S = B - 1 \<and> B mod 32 = 1) \<or> (B mod 8 = 0 \<and> B \<le> 32)) then
        map_option (\<lambda>x. Extract (S + Off) (E + Off) (Done x)) (cast_extract (B + Off - 1) Off (B + Off) e)
      else None)"

definition ExtractExtractRight :: "nat \<Rightarrow> nat \<Rightarrow> nat \<Rightarrow> bvexpr \<Rightarrow> req option" where
  "ExtractExtractRight S E Off e =
     (let B = width e in
      if 255 - B > Off \<and> B mod 8 = 0 \<and> B \<le> 32 then
        map_option (\<lambda>x. Extract S E (Done x)) (cast_extract (B - 1) 0 (B + Off) e)
      else None)"

definition extract_rule :: "nat \<Rightarrow> nat \<Rightarrow> bvexpr \<Rightarrow> req option" where
  "extract_rule S E e = first_some
     [ExtractConstant S E e,
      ExtractFull S E e,
      ExtractPointerExt S E 32 e,
      ExtractPointerExt S E 8 e,
      ExtractCl S E e,
      ExtractCr S E e,
      ExtractConcatLeft S E 8 e,
      ExtractConcatLeft S E 16 e,
      ExtractConcatLeft S E 24 e,
      ExtractConcatLeft S E 33 e,
      ExtractConcatRight S E 8 e,
      ExtractConcatRight S E 16 e,
      ExtractConcatRight S E 24 e,
      ExtractExtractLeft S E 8 e,
      ExtractExtractLeft S E 16 e,
      ExtractExtractLeft S E 24 e,
      ExtractExtractLeft S E 32 e,
      ExtractExtractLeft S E 33 e,
      ExtractExtractRight S E 8 e,
      ExtractExtractRight S E 16 e,
      ExtractExtractRight S E 24 e]"

subsection \<open>Helpers of concat\<close>

definition ConcatPointer :: "nat \<Rightarrow> bvexpr \<Rightarrow> bvexpr \<Rightarrow> req option" where
  "ConcatPointer V a b =
     (if width a = 32 \<and> width b = 32 then
        map_option (\<lambda>(p, off). Done (Pointer_ext p off a)) (cast_ptr (width b) V b)
      else None)"

definition ConcatConstants :: "bvexpr \<Rightarrow> bvexpr \<Rightarrow> req option" where
  "ConcatConstants a b =
     (case (cast_constant a, cast_constant b) of
        (Some va, Some vb) \<Rightarrow>
          if width a + width b \<le> 64 \<and> width a \<le> 64 \<and> width b \<le> 64
          then Some (Done (bvconstant (width a + width b) (push_bit (width b) va + vb)))
          else None
      | _ \<Rightarrow> None)"

definition ConcatMergeConstants :: "nat \<Rightarrow> bvexpr \<Rightarrow> bvexpr \<Rightarrow> req option" where
  "ConcatMergeConstants X a b =
     (let A = width a; B = width b in
      if A + B \<le> 64 \<and> B > X \<and> A \<le> 64 \<and> B \<le> 64 \<and> (A + B) mod 8 \<ge> 1
         \<and> ((A mod 8 = 0 \<and> B mod 8 = 0 \<and> A \<le> 32) \<or> A = 1 \<or> A = 31) then
        Option.bind (cast_constant a) (\<lambda>va.
        Option.bind (cast_concat X (B - X) b) (\<lambda>(x, y).
        Option.bind (cast_constant x) (\<lambda>vx.
          Some (Concat (Done (bvconstant (A + X) (push_bit X va + vx))) (Done y)))))
      else None)"

definition ConcatPullExtract :: "nat \<Rightarrow> bvexpr \<Rightarrow> bvexpr \<Rightarrow> req option" where
  "ConcatPullExtract X a b =
     (let A = width a; B = width b in
      if X + A + B \<le> 65 \<and> X \<le> 65 \<and> A \<le> 65 \<and> B \<le> 65 then
        Option.bind (cast_constant a) (\<lambda>va.
        Option.bind (cast_extract (X + B - 1) X (X + B) b) (\<lambda>e.
          Some (Extract (X + A + B - 1) X (Concat (Done a) (Done e)))))
      else None)"

definition ConcatPullConcat :: "nat \<Rightarrow> bvexpr \<Rightarrow> bvexpr \<Rightarrow> req option" where
  "ConcatPullConcat X a b =
     (if width a > X then
        map_option (\<lambda>(x, y). Concat (Done x) (Concat (Done y) (Done b))) (cast_concat X (width a - X) a)
      else None)"

definition concat_rule :: "bvexpr \<Rightarrow> bvexpr \<Rightarrow> req option" where
  "concat_rule a b = first_some
     [ConcatPointer 32 a b,
      ConcatPointer 8 a b,
      ConcatConstants a b,
      ConcatMergeConstants 1 a b,
      ConcatMergeConstants 8 a b,
      ConcatMergeConstants 16 a b,
      ConcatMergeConstants 18 a b,
      ConcatMergeConstants 24 a b,
      ConcatPullExtract 32 a b,
      ConcatPullConcat 8 a b]"

subsection \<open>Performing a request\<close>

partial_function (option) run :: "req \<Rightarrow> bvexpr option" where
  "run q = (case q of
     Done e \<Rightarrow> Some e
   | Extract S E p \<Rightarrow> Option.bind (run p) (\<lambda>e.
       case extract_rule S E e of None \<Rightarrow> Some (Extraction S E e) | Some r \<Rightarrow> run r)
   | Concat p r \<Rightarrow> Option.bind (run p) (\<lambda>a. Option.bind (run r) (\<lambda>b.
       case concat_rule a b of None \<Rightarrow> Some (Concatenation a b) | Some s \<Rightarrow> run s)))"

declare run.simps [code]

subsection \<open>Soundness\<close>

text \<open>
  A request is sound for an expression if it is well typed and has the width and the value of
  the expression.  Each helper is sound for the plain node that its caller would otherwise
  build.
\<close>

definition sound_req :: "valuation \<Rightarrow> bvexpr \<Rightarrow> req \<Rightarrow> bool" where
  "sound_req \<rho> e q \<longleftrightarrow> rwt q \<and> rwidth q = width e \<and> reval \<rho> q = bveval \<rho> e"

text \<open>Slices of a concatenation and of a slice.\<close>

lemma slice_high:
  fixes x y :: int
  assumes "take_bit w y = y" "w \<le> E"
  shows "take_bit n (drop_bit E (push_bit w x OR y)) = take_bit n (drop_bit (E - w) x)"
  using assms by (intro bit_eqI) (auto simp: bit_simps dest: bit_take_bit_self)

lemma slice_low:
  fixes x y :: int
  assumes "E + n \<le> w"
  shows "take_bit n (drop_bit E (push_bit w x OR y)) = take_bit n (drop_bit E y)"
  using assms by (intro bit_eqI) (auto simp: bit_simps)

lemma slice_mid:
  fixes x y :: int
  assumes "take_bit w y = y" "E \<le> w" "n = k + (w - E)"
  shows "take_bit n (drop_bit E (push_bit w x OR y)) =
    push_bit (w - E) (take_bit k x) OR take_bit (w - E) (drop_bit E y)"
proof (rule bit_eqI)
  fix i
  have "bit y (E + i) \<Longrightarrow> E + i < w" using assms(1) by (rule bit_take_bit_self)
  moreover have "w \<le> E + i \<Longrightarrow> E + i - w = i - (w - E)" using assms(2) by simp
  ultimately show "bit (take_bit n (drop_bit E (push_bit w x OR y))) i =
    bit (push_bit (w - E) (take_bit k x) OR take_bit (w - E) (drop_bit E y)) i"
    using assms(2,3) by (auto simp: bit_simps)
qed

lemma slice_slice:
  fixes x :: int
  assumes "E + n \<le> w"
  shows "take_bit n (drop_bit E (take_bit w (drop_bit F x))) = take_bit n (drop_bit (E + F) x)"
  using assms by (intro bit_eqI) (auto simp: bit_simps ac_simps)

definition slice :: "valuation \<Rightarrow> nat \<Rightarrow> nat \<Rightarrow> bvexpr \<Rightarrow> int" where
  "slice \<rho> S E e = bveval \<rho> (Extraction S E e)"

lemma sound_req_Extraction: "sound_req \<rho> (Extraction S E e) q \<longleftrightarrow>
    rwt q \<and> rwidth q = S - E + 1 \<and> reval \<rho> q = slice \<rho> S E e"
  by (simp add: sound_req_def slice_def)

lemma slice_concat_high: "width b \<le> E \<Longrightarrow> E \<le> S \<Longrightarrow>
  slice \<rho> S E (Concatenation a b) = slice \<rho> (S - width b) (E - width b) a"
  by (simp add: slice_def slice_high del: take_bit_or drop_bit_or)

lemma slice_concat_low: "E \<le> S \<Longrightarrow> S < width b \<Longrightarrow>
  slice \<rho> S E (Concatenation a b) = slice \<rho> S E b"
  by (simp add: slice_def slice_low del: take_bit_or drop_bit_or)

lemma slice_concat_mid: "E < width b \<Longrightarrow> width b \<le> S \<Longrightarrow>
  slice \<rho> S E (Concatenation a b) =
    push_bit (width b - E) (slice \<rho> (S - width b) 0 a) OR slice \<rho> (width b - 1) E b"
  by (simp add: slice_def slice_mid [where k = "S - width b + 1"] Suc_diff_Suc del: take_bit_or drop_bit_or)

lemma slice_extraction: "E \<le> S \<Longrightarrow> S \<le> S' - E' \<Longrightarrow>
  slice \<rho> S E (Extraction S' E' e) = slice \<rho> (S + E') (E + E') e"
  by (simp add: slice_def slice_slice del: take_bit_drop_bit)

lemma reval_Extract_Done: "reval \<rho> (Extract S E (Done e)) = slice \<rho> S E e"
  by (simp add: slice_def)

lemma slice_full: "S + 1 = width e \<Longrightarrow> slice \<rho> S 0 e = bveval \<rho> e"
  by (simp add: slice_def flip: Suc_eq_plus1)

text \<open>What a helper that applies tells about the expression and the request.\<close>

lemma ExtractConstant_SomeE:
  assumes "ExtractConstant S E e = Some q"
  obtains B v where "e = Bitvector B v" "B \<le> 64" "q = Done (bvconstant (S - E + 1) (drop_bit E v))"
  using assms by (auto simp: ExtractConstant_def split: if_splits elim!: cast_elims)

lemma ExtractFull_SomeE:
  assumes "ExtractFull S E e = Some q"
  obtains "E = 0" "S + 1 = width e" "q = Done e"
  using assms by (auto simp: ExtractFull_def split: if_splits)

lemma ExtractPointerExt_SomeE:
  assumes "ExtractPointerExt S E V e = Some q"
  obtains p off ext where "e = Pointer_ext p off ext" "S = 31" "E = 0" "avar_A p = 32" "avar_V p = V"
      "q = Done (Pointer p off)"
    | p off ext where "e = Pointer_ext p off ext" "S = 63" "E = 32" "avar_A p = 32" "avar_V p = V"
      "width ext = 32" "q = Done ext"
  using assms
  by (auto simp: ExtractPointerExt_def Let_def split: if_splits elim!: cast_elims simp del: width.simps)

lemma ExtractCl_SomeE:
  assumes "ExtractCl S E e = Some q"
  obtains a b where "e = Concatenation a b" "width b = E" "q = Extract (S - E) 0 (Done a)"
  using assms by (auto simp: ExtractCl_def elim!: cast_elims simp del: width.simps)

lemma ExtractCr_SomeE:
  assumes "ExtractCr S E e = Some q"
  obtains a b where "e = Concatenation a b" "width b = S + 1" "q = Extract S E (Done b)"
  using assms by (auto simp: ExtractCr_def elim!: cast_elims simp del: width.simps)

lemma ExtractConcatLeft_SomeE:
  assumes "ExtractConcatLeft S E Off e = Some q"
  obtains a b where "e = Concatenation a b" "width b = Off" "Off \<le> E"
      "q = Extract (S - Off) (E - Off) (Done a)"
    | a b where "e = Concatenation a b" "width b = Off" "E < Off" "Off \<le> S" "Off mod 8 = 0 \<or> E = 0"
      "q = Concat (Extract (S - Off) 0 (Done a)) (Extract (Off - 1) E (Done b))"
  using assms
  by (auto simp: ExtractConcatLeft_def Let_def split: if_splits elim!: cast_elims simp del: width.simps)

lemma ExtractConcatRight_SomeE:
  assumes "ExtractConcatRight S E Off e = Some q"
  obtains a b where "e = Concatenation a b" "width a = Off" "q = Extract S E (Done b)"
    "Off \<le> width e - S - 1"
  using assms by (auto simp: ExtractConcatRight_def Let_def split: if_splits elim!: cast_elims simp del: width.simps)

lemma ExtractExtractLeft_SomeE:
  assumes "ExtractExtractLeft S E Off e = Some q"
  obtains S' x where "e = Extraction S' Off x" "q = Extract (S + Off) (E + Off) (Done x)"
  using assms by (auto simp: ExtractExtractLeft_def Let_def split: if_splits elim!: cast_elims simp del: width.simps)

lemma ExtractExtractRight_SomeE:
  assumes "ExtractExtractRight S E Off e = Some q"
  obtains S' x where "e = Extraction S' 0 x" "q = Extract S E (Done x)"
  using assms by (auto simp: ExtractExtractRight_def Let_def split: if_splits elim!: cast_elims simp del: width.simps)

lemmas extract_helper_elims = ExtractConstant_SomeE ExtractFull_SomeE ExtractPointerExt_SomeE
  ExtractCl_SomeE ExtractCr_SomeE ExtractConcatLeft_SomeE ExtractConcatRight_SomeE
  ExtractExtractLeft_SomeE ExtractExtractRight_SomeE

lemma extract_rule_cases:
  assumes "extract_rule S E e = Some q"
  obtains "ExtractConstant S E e = Some q" | "ExtractFull S E e = Some q"
    | V where "ExtractPointerExt S E V e = Some q" "V = 8 \<or> V = 32"
    | "ExtractCl S E e = Some q" | "ExtractCr S E e = Some q"
    | Off where "ExtractConcatLeft S E Off e = Some q" "Off = 8 \<or> Off = 16 \<or> Off = 24 \<or> Off = 33"
    | Off where "ExtractConcatRight S E Off e = Some q" "0 < Off"
    | Off where "ExtractExtractLeft S E Off e = Some q"
    | Off where "ExtractExtractRight S E Off e = Some q"
  using first_some_mem [OF assms [unfolded extract_rule_def]] by (simp add: eq_commute) (metis zero_less_numeral)

lemma sound_ExtractConstant:
  assumes "bwt e" "E \<le> S" "S < width e" "ExtractConstant S E e = Some q"
  shows "sound_req \<rho> (Extraction S E e) q"
proof -
  from assms obtain B v where "e = Bitvector B v" "B \<le> 64" "q = Done (bvconstant (S - E + 1) (drop_bit E v))"
    by (auto elim: ExtractConstant_SomeE)
  moreover from this assms have "take_bit (S - E + 1) (drop_bit E (take_bit B (uint v))) =
    take_bit (S - E + 1) (drop_bit E (uint v))"
    using slice_slice [of E "S - E + 1" B 0 "uint v"] by simp
  ultimately show ?thesis using assms by (simp add: sound_req_Extraction uint_drop_bit_eq slice_def)
qed

lemma sound_ExtractFull:
  assumes "bwt e" "E \<le> S" "S < width e" "ExtractFull S E e = Some q"
  shows "sound_req \<rho> (Extraction S E e) q"
  using assms by (auto simp: ExtractFull_def sound_req_Extraction slice_full split: if_splits)

lemma slice_pointer_ext:
  "avar_A p = w \<Longrightarrow> 0 < w \<Longrightarrow> slice \<rho> (w - 1) 0 (Pointer_ext p off ext) = bveval \<rho> (Pointer p off)"
  "avar_A p = w \<Longrightarrow> E = w \<Longrightarrow> S = w + width ext - 1 \<Longrightarrow> 0 < width ext \<Longrightarrow> slice \<rho> S E (Pointer_ext p off ext) = bveval \<rho> ext"
  using slice_low [of 0 w w "bveval \<rho> ext" "take_bit w (base \<rho> (declname p) + bveval \<rho> off)"]
  by (simp_all add: slice_def slice_high del: take_bit_or drop_bit_or)

lemma sound_ExtractPointerExt:
  assumes "bwt e" "E \<le> S" "S < width e" "ExtractPointerExt S E V e = Some q"
  shows "sound_req \<rho> (Extraction S E e) q"
proof -
  from assms(4) consider p off ext where "e = Pointer_ext p off ext" "S = 31" "E = 0" "avar_A p = 32"
      "q = Done (Pointer p off)"
    | p off ext where "e = Pointer_ext p off ext" "S = 63" "E = 32" "avar_A p = 32" "width ext = 32"
      "q = Done ext"
    by (rule ExtractPointerExt_SomeE) blast+
  then show ?thesis
    using assms(1) slice_pointer_ext(1) [of _ 32 \<rho>] slice_pointer_ext(2) [of _ 32 32 63]
    by cases (simp_all add: sound_req_Extraction)
qed

lemma sound_ExtractCl:
  assumes "bwt e" "E \<le> S" "S < width e" "ExtractCl S E e = Some q"
  shows "sound_req \<rho> (Extraction S E e) q"
proof -
  from assms(4) obtain a b where "e = Concatenation a b" "width b = E" "q = Extract (S - E) 0 (Done a)"
    by (rule ExtractCl_SomeE)
  then show ?thesis using assms(1,2,3)
    by (auto simp: sound_req_Extraction reval_Extract_Done slice_concat_high simp del: reval.simps)
qed

lemma sound_ExtractCr:
  assumes "bwt e" "E \<le> S" "S < width e" "ExtractCr S E e = Some q"
  shows "sound_req \<rho> (Extraction S E e) q"
proof -
  from assms(4) obtain a b where "e = Concatenation a b" "width b = S + 1" "q = Extract S E (Done b)"
    by (rule ExtractCr_SomeE)
  then show ?thesis using assms(1,2,3)
    by (simp add: sound_req_Extraction reval_Extract_Done slice_concat_low del: reval.simps)
qed

lemma sound_ExtractConcatLeft:
  assumes "bwt e" "E \<le> S" "S < width e" "ExtractConcatLeft S E Off e = Some q" "0 < Off"
  shows "sound_req \<rho> (Extraction S E e) q"
proof -
  from assms(4) consider a b where "e = Concatenation a b" "width b = Off" "Off \<le> E"
      "q = Extract (S - Off) (E - Off) (Done a)"
    | a b where "e = Concatenation a b" "width b = Off" "E < Off" "Off \<le> S"
      "q = Concat (Extract (S - Off) 0 (Done a)) (Extract (Off - 1) E (Done b))"
    by (rule ExtractConcatLeft_SomeE) blast+
  then show ?thesis
  proof cases
    case 1
    then show ?thesis using assms(1,2,3)
      by (auto simp: sound_req_Extraction reval_Extract_Done slice_concat_high simp del: reval.simps)
  next
    case 2
    then show ?thesis using assms(1,2,3)
      by (auto simp: sound_req_Extraction reval_Extract_Done slice_concat_mid Suc_diff_Suc simp del: reval.simps(2) push_bit_Suc)
  qed
qed

lemma sound_ExtractConcatRight:
  assumes "bwt e" "E \<le> S" "S < width e" "ExtractConcatRight S E Off e = Some q"
  shows "sound_req \<rho> (Extraction S E e) q"
proof -
  from assms(4) obtain a b where "e = Concatenation a b" "width a = Off" "q = Extract S E (Done b)"
      "Off \<le> width e - S - 1"
    by (rule ExtractConcatRight_SomeE)
  then show ?thesis using assms(1,2,3)
    by (auto simp: sound_req_Extraction reval_Extract_Done slice_concat_low simp del: reval.simps)
qed

lemma sound_ExtractExtractLeft:
  assumes "bwt e" "E \<le> S" "S < width e" "ExtractExtractLeft S E Off e = Some q"
  shows "sound_req \<rho> (Extraction S E e) q"
proof -
  from assms(4) obtain S' x where "e = Extraction S' Off x" "q = Extract (S + Off) (E + Off) (Done x)"
    by (rule ExtractExtractLeft_SomeE)
  then show ?thesis using assms(1,2,3)
    by (auto simp: sound_req_Extraction reval_Extract_Done slice_extraction simp del: reval.simps)
qed

lemma sound_ExtractExtractRight:
  assumes "bwt e" "E \<le> S" "S < width e" "ExtractExtractRight S E Off e = Some q"
  shows "sound_req \<rho> (Extraction S E e) q"
proof -
  from assms(4) obtain S' x where "e = Extraction S' 0 x" "q = Extract S E (Done x)"
    by (rule ExtractExtractRight_SomeE)
  then show ?thesis using assms(1,2,3)
    by (auto simp: sound_req_Extraction reval_Extract_Done slice_extraction simp del: reval.simps)
qed

lemmas sound_extract_helpers = sound_ExtractConstant sound_ExtractFull sound_ExtractPointerExt
  sound_ExtractCl sound_ExtractCr sound_ExtractConcatLeft sound_ExtractConcatRight
  sound_ExtractExtractLeft sound_ExtractExtractRight

lemma sound_extract_rule:
  assumes "bwt e" "E \<le> S" "S < width e" "extract_rule S E e = Some q"
  shows "sound_req \<rho> (Extraction S E e) q"
  using assms(4,1-3) by (cases rule: extract_rule_cases) (auto intro: sound_extract_helpers)

lemma sound_ConcatPointer:
  assumes "bwt a" "bwt b" "ConcatPointer V a b = Some q"
  shows "sound_req \<rho> (Concatenation a b) q"
  using assms
  by (auto simp: ConcatPointer_def sound_req_def split: if_splits elim!: cast_elims)

lemma concat_constants_eval:
  assumes "bwt (Bitvector A va)" "bwt (Bitvector B vb)" "A + B \<le> 64"
  shows "take_bit (A + B) (uint (push_bit B va + vb)) = push_bit B (uint va) OR uint vb"
proof -
  have va: "take_bit A (uint va) = uint va" and vb: "take_bit B (uint vb) = uint vb"
    using assms(1,2) by (simp_all flip: unsigned_take_bit_eq)
  have "bit vb i \<Longrightarrow> i < B" for i
    using assms(2) by (metis bit_take_bit_iff bwt.simps(2))
  then have "push_bit B va AND vb = 0"
    by (intro bit_word_eqI) (auto simp: bit_simps dest: leD)
  then have "push_bit B va + vb = push_bit B va OR vb" by (rule disjunctive_add_eq_or)
  moreover have "take_bit (A + B) (uint (push_bit B va OR vb)) = push_bit B (uint va) OR uint vb"
    using assms(3) bit_take_bit_self [OF va] bit_take_bit_self [OF vb]
    by (intro bit_eqI) (fastforce simp: bit_simps)
  ultimately show ?thesis by simp
qed


lemma sound_ConcatConstants:
  assumes "bwt a" "bwt b" "ConcatConstants a b = Some q"
  shows "sound_req \<rho> (Concatenation a b) q"
proof -
  from assms(3) obtain A va B vb where "a = Bitvector A va" "b = Bitvector B vb" "A + B \<le> 64"
      "q = Done (bvconstant (A + B) (push_bit B va + vb))"
    by (auto simp: ConcatConstants_def split: if_splits option.splits elim!: cast_elims)
  then show ?thesis using assms(1,2) concat_constants_eval [of A va B vb]
    by (simp add: sound_req_def in_range_take_bit flip: unsigned_take_bit_eq)
qed

lemma ConcatMergeConstants_SomeE:
  assumes "ConcatMergeConstants X a b = Some q"
  obtains A va vx y where "a = Bitvector A va" "b = Concatenation (Bitvector X vx) y" "A + X \<le> 64"
    "q = Concat (Done (bvconstant (A + X) (push_bit X va + vx))) (Done y)"
proof -
  from assms obtain A va X' vx y where "a = Bitvector A va" "b = Concatenation (Bitvector X' vx) y"
      "width (Bitvector X' vx) = X" "width a + width b \<le> 64"
      "q = Concat (Done (bvconstant (width a + X) (push_bit X va + vx))) (Done y)"
    by (auto simp: ConcatMergeConstants_def Let_def bind_eq_Some_conv split: if_splits elim!: cast_elims
      simp del: width.simps)
  then show thesis by (intro that [of A va vx y]) simp_all
qed

lemma sound_ConcatMergeConstants:
  assumes "bwt a" "bwt b" "ConcatMergeConstants X a b = Some q"
  shows "sound_req \<rho> (Concatenation a b) q"
proof -
  from assms(3) obtain A va vx y where a: "a = Bitvector A va" and b: "b = Concatenation (Bitvector X vx) y"
      and AX: "A + X \<le> 64" and q: "q = Concat (Done (bvconstant (A + X) (push_bit X va + vx))) (Done y)"
    by (rule ConcatMergeConstants_SomeE)
  have wt: "bwt (Bitvector A va)" "bwt (Bitvector X vx)" "bwt y" using assms(1,2) a b by simp_all
  have ev: "bveval \<rho> (bvconstant (A + X) (push_bit X va + vx)) = push_bit X (uint va) OR uint vx"
    using concat_constants_eval [OF wt(1,2) AX] AX by simp
  have u: "take_bit A (uint va) = uint va" "take_bit X (uint vx) = uint vx"
    using wt(1,2) by (simp_all flip: unsigned_take_bit_eq)
  have "bveval \<rho> (Concatenation a b) =
      push_bit (width y) (push_bit X (uint va) OR uint vx) OR bveval \<rho> y"
    by (simp only: a b bveval.simps width.simps u push_bit_or push_bit_push_bit or.assoc add.commute)
  then show ?thesis using wt AX
    by (simp only: sound_req_def q rwt.simps rwidth.simps reval.simps ev) (simp add: a b)
qed

lemma sound_ConcatPullExtract:
  assumes "bwt a" "bwt b" "ConcatPullExtract X a b = Some q"
  shows "sound_req \<rho> (Concatenation a b) q"
proof -
  from assms(3) obtain S' e where b: "b = Extraction S' X e" and we: "width e = X + width b"
      and q: "q = Extract (X + width a + width b - 1) X (Concat (Done a) (Done e))"
    by (auto simp: ConcatPullExtract_def Let_def bind_eq_Some_conv split: if_splits elim!: cast_elims simp del: width.simps)
  have pos: "0 < width b" "0 < width a" using assms(1,2) bwt_width_pos by blast+
  have e: "bwt e" using assms(2) b by simp
  have "take_bit (width a + width b) (drop_bit X (push_bit (X + width b) (bveval \<rho> a) OR bveval \<rho> e)) =
      push_bit (X + width b - X) (take_bit (width a) (bveval \<rho> a)) OR take_bit (X + width b - X) (drop_bit X (bveval \<rho> e))"
    by (rule slice_mid) (use bveval_take_bit [of e \<rho>] in \<open>simp_all only: we le_add1 diff_add_inverse add.commute\<close>)
  moreover have "bveval \<rho> b = take_bit (width b) (drop_bit X (bveval \<rho> e))" using b by simp
  moreover have "X \<le> X + width a + width b - 1" "X + width a + width b - 1 < width a + (X + width b)"
    using pos by linarith+
  ultimately show ?thesis using assms(1) pos we e
    by (simp add: q sound_req_def del: take_bit_or drop_bit_or)
qed

lemma sound_ConcatPullConcat:
  assumes "bwt a" "bwt b" "ConcatPullConcat X a b = Some q"
  shows "sound_req \<rho> (Concatenation a b) q"
proof -
  from assms(3) obtain x y where "a = Concatenation x y" 
      "q = Concat (Done x) (Concat (Done y) (Done b))"
    by (auto simp: ConcatPullConcat_def Let_def split: if_splits elim!: cast_elims simp del: width.simps)
  then show ?thesis using assms(1,2) 
    by (auto simp: sound_req_def push_bit_or or.assoc ac_simps)
qed

lemmas sound_concat_helpers = sound_ConcatPointer sound_ConcatConstants sound_ConcatMergeConstants
  sound_ConcatPullExtract sound_ConcatPullConcat

lemma concat_rule_cases:
  assumes "concat_rule a b = Some q"
  obtains V where "ConcatPointer V a b = Some q" "V = 8 \<or> V = 32"
    | "ConcatConstants a b = Some q" | X where "ConcatMergeConstants X a b = Some q"
    | "ConcatPullExtract 32 a b = Some q" | "ConcatPullConcat 8 a b = Some q"
  using first_some_mem [OF assms [unfolded concat_rule_def]] by (simp add: eq_commute) metis

lemma sound_concat_rule:
  assumes "bwt a" "bwt b" "concat_rule a b = Some q"
  shows "sound_req \<rho> (Concatenation a b) q"
  using assms(3,1,2) by (cases rule: concat_rule_cases) (auto intro: sound_concat_helpers)

lemma run_sound_aux:
  assumes "run q = Some e"
  shows "rwt q \<longrightarrow> bwt e \<and> width e = rwidth q \<and> bveval \<rho> e = reval \<rho> q"
proof (rule run.raw_induct [OF _ assms])
  fix run' q e
  assume IH: "\<And>q e. run' q = Some e \<Longrightarrow> rwt q \<longrightarrow> bwt e \<and> width e = rwidth q \<and> bveval \<rho> e = reval \<rho> q"
    and run: "(case q of
     Done e \<Rightarrow> Some e
   | Extract S E p \<Rightarrow> Option.bind (run' p) (\<lambda>e.
       case extract_rule S E e of None \<Rightarrow> Some (Extraction S E e) | Some r \<Rightarrow> run' r)
   | Concat p r \<Rightarrow> Option.bind (run' p) (\<lambda>a. Option.bind (run' r) (\<lambda>b.
       case concat_rule a b of None \<Rightarrow> Some (Concatenation a b) | Some s \<Rightarrow> run' s))) = Some e"
  show "rwt q \<longrightarrow> bwt e \<and> width e = rwidth q \<and> bveval \<rho> e = reval \<rho> q"
  proof (cases q)
    case (Extract S E p)
    with run obtain x where x: "run' p = Some x" and
      r: "(case extract_rule S E x of None \<Rightarrow> Some (Extraction S E x) | Some r \<Rightarrow> run' r) = Some e"
      by (auto simp: bind_eq_Some_conv)
    show ?thesis
    proof (cases "extract_rule S E x")
      case None
      with r x Extract IH [OF x] show ?thesis by auto
    next
      case (Some s)
      with r IH have s: "rwt s \<longrightarrow> bwt e \<and> width e = rwidth s \<and> bveval \<rho> e = reval \<rho> s" by simp
      show ?thesis
      proof
        assume "rwt q"
        with IH [OF x] Extract have "bwt x" "E \<le> S" "S < width x" "width x = rwidth p"
          "bveval \<rho> x = reval \<rho> p" by auto
        with sound_extract_rule [OF this(1-3) Some] s Extract
        show "bwt e \<and> width e = rwidth q \<and> bveval \<rho> e = reval \<rho> q"
          by (simp add: sound_req_def)
      qed
    qed
  next
    case (Concat p r)
    with run obtain a b where ab: "run' p = Some a" "run' r = Some b" and
      c: "(case concat_rule a b of None \<Rightarrow> Some (Concatenation a b) | Some s \<Rightarrow> run' s) = Some e"
      by (auto simp: bind_eq_Some_conv)
    show ?thesis
    proof (cases "concat_rule a b")
      case None
      with c Concat IH [OF ab(1)] IH [OF ab(2)] show ?thesis by auto
    next
      case (Some s)
      with c IH have s: "rwt s \<longrightarrow> bwt e \<and> width e = rwidth s \<and> bveval \<rho> e = reval \<rho> s" by simp
      show ?thesis
      proof
        assume "rwt q"
        with IH [OF ab(1)] IH [OF ab(2)] Concat have "bwt a" "bwt b" "width a = rwidth p" "width b = rwidth r"
          "bveval \<rho> a = reval \<rho> p" "bveval \<rho> b = reval \<rho> r" by auto
        with sound_concat_rule [OF this(1,2) Some] s Concat
        show "bwt e \<and> width e = rwidth q \<and> bveval \<rho> e = reval \<rho> q"
          by (simp add: sound_req_def)
      qed
    qed
  qed (use run in auto)
qed

subsection \<open>Performing a request succeeds\<close>

lemma run_Done [simp]: "run (Done e) = Some e"
  by (simp add: run.simps)

lemma run_Extract:
  "run (Extract S E p) = Option.bind (run p) (\<lambda>e.
     case extract_rule S E e of None \<Rightarrow> Some (Extraction S E e) | Some r \<Rightarrow> run r)"
  by (simp add: run.simps)

lemma run_Concat:
  "run (Concat p q) = Option.bind (run p) (\<lambda>a. Option.bind (run q) (\<lambda>b.
     case concat_rule a b of None \<Rightarrow> Some (Concatenation a b) | Some s \<Rightarrow> run s))"
  by (simp add: run.simps)

lemma run_sound:
  assumes "run q = Some e" "rwt q"
  shows "bwt e" "width e = rwidth q" "bveval \<rho> e = reval \<rho> q"
  using run_sound_aux [OF assms(1), of \<rho>] assms(2) by auto

text \<open>The number of nodes that \<open>concat\<close> looks through.\<close>

primrec spine :: "bvexpr \<Rightarrow> nat" where
  "spine (Undefined w i n e) = 1"
| "spine (Bitvector w v) = 1"
| "spine (Bvvariable w n) = 1"
| "spine (BvIte l a b) = 1"
| "spine (Extraction S E e) = 1 + spine e"
| "spine (Bvnegation e) = 1"
| "spine (Concatenation a b) = 1 + spine a + spine b"
| "spine (Bvbinary f a b) = 1"
| "spine (Bvbit f a b) = 1"
| "spine (Bvrotation r e i) = 1"
| "spine (Pointer p off) = 1"
| "spine (Pointer_ext p off ext) = 1 + spine ext"
| "spine (Pointer_base p s off) = 1"
| "spine (Selection a off) = 1"

lemma spine_pos: "0 < spine e"
  by (cases e) simp_all

lemma spine_bvconstant [simp]: "spine (bvconstant B v) = 1"
  by (simp add: bvconstant_def)

text \<open>Extracting from a constant.\<close>

lemma extract_bitvector:
  assumes "B \<le> 64"
  shows "run (Extract S E (Done (Bitvector B v))) = Some (bvconstant (S - E + 1) (drop_bit E v))"
  using assms by (simp add: run_Extract extract_rule_def ExtractConstant_def cast_constant_def)

text \<open>
  Prepending a constant to an expression of more than 32 bits.  \<open>ConcatPullExtract\<close> does
  nothing here, because it asks for at most 65 bits in total.
\<close>

definition const_head :: "bvexpr \<Rightarrow> bool" where
  "const_head c \<longleftrightarrow> (\<exists>B v. c = Bitvector B v) \<or> (\<exists>B v y. c = Concatenation (Bitvector B v) y)
     \<or> (\<exists>p off B v. c = Pointer_ext p off (Bitvector B v) \<and> (avar_V p = 8 \<or> avar_V p = 32))"

lemma concat_constant_wide:
  assumes "bwt (Bitvector A va)" "bwt b" "34 \<le> A + width b"
  shows "\<exists>c. run (Concat (Done (Bitvector A va)) (Done b)) = Some c \<and> const_head c \<and> spine c \<le> 2 + spine b"
  using assms
proof (induction "spine b" arbitrary: A va b rule: less_induct)
  case less
  let ?a = "Bitvector A va"
  show ?case
  proof (cases "concat_rule ?a b")
    case None
    then show ?thesis by (auto simp: run_Concat const_head_def)
  next
    case (Some q)
    then have run: "run (Concat (Done ?a) (Done b)) = run q" by (simp add: run_Concat)
    from Some show ?thesis
    proof (cases rule: concat_rule_cases)
      case (3 X)
      then obtain vx y where b: "b = Concatenation (Bitvector X vx) y" and "A + X \<le> 64"
          "q = Concat (Done (bvconstant (A + X) (push_bit X va + vx))) (Done y)"
        by (auto elim: ConcatMergeConstants_SomeE)
      moreover have "bwt (bvconstant (A + X) (push_bit X va + vx))" "bwt y" "34 \<le> (A + X) + width y" "spine y < spine b"
        using less.prems calculation by simp_all
      ultimately show ?thesis
        using less.hyps [of y "A + X"] run by (fastforce simp add: bvconstant_def)
    qed (use less.prems run in \<open>auto simp: ConcatPointer_def ConcatConstants_def ConcatPullExtract_def
      ConcatPullConcat_def bvconstant_def const_head_def cast_concat_def cast_constant_def bind_eq_Some_conv Let_def
      split: if_splits option.splits elim!: cast_elims\<close>)
  qed
qed

lemma ConcatPullExtract_SomeE:
  assumes "ConcatPullExtract X a b = Some q"
  obtains A va S' e where "a = Bitvector A va" "b = Extraction S' X e" "width e = X + width b"
    "X + A + width b \<le> 65" "q = Extract (X + A + width b - 1) X (Concat (Done a) (Done e))"
proof -
  from assms obtain A va S' e where "a = Bitvector A va" "b = Extraction S' X e" "width e = X + width b"
      "X + width a + width b \<le> 65" "q = Extract (X + width a + width b - 1) X (Concat (Done a) (Done e))"
    by (auto simp: ConcatPullExtract_def Let_def bind_eq_Some_conv split: if_splits elim!: cast_elims
        simp del: width.simps)
  then show thesis by (intro that [of A va S' e]) simp_all
qed

lemma ConcatPullConcat_SomeE:
  assumes "ConcatPullConcat X a b = Some q"
  obtains x y where "a = Concatenation x y" "q = Concat (Done x) (Concat (Done y) (Done b))"
  using assms by (auto simp: ConcatPullConcat_def split: if_splits elim!: cast_elims simp del: width.simps)

lemma extract_const_head:
  assumes "const_head c" "bwt c" "width c \<le> 65" "33 \<le> width c"
  shows "\<exists>r. run (Extract (width c - 1) 32 (Done c)) = Some r \<and> spine r \<le> 1 + spine c"
proof (cases "extract_rule (width c - 1) 32 c")
  case None
  then show ?thesis by (auto simp: run_Extract)
next
  case (Some q)
  then have run: "run (Extract (width c - 1) 32 (Done c)) = run q" by (simp add: run_Extract)
  from assms(1) consider B v where "c = Bitvector B v" 
    | p off B v where "c = Pointer_ext p off (Bitvector B v)" "avar_V p = 8 \<or> avar_V p = 32"
    | B v y where "c = Concatenation (Bitvector B v) y"
    unfolding const_head_def by blast
  then show ?thesis
  proof cases
    case 1
    then show ?thesis using assms(2) by (simp add: extract_bitvector)
  next
    case 2
    have "q = Done (Bitvector B v)"
      using Some 2 assms(3,4) by (cases rule: extract_rule_cases) (auto elim!: extract_helper_elims)
    then show ?thesis using run 2 by simp
  next
    case 3
    have "\<exists>S E. q = Extract S E (Done (Bitvector B v))"
      using Some 3 assms(2,3,4) by (cases rule: extract_rule_cases) (auto elim!: extract_helper_elims)
    then show ?thesis using run assms(2) 3 by (auto simp: extract_bitvector)
  qed
qed

lemma concat_total:
  assumes "bwt a" "bwt b"
  shows "\<exists>c. run (Concat (Done a) (Done b)) = Some c \<and> spine c \<le> 1 + spine a + spine b"
  using assms
proof (induction "2 * spine a + spine b" arbitrary: a b rule: less_induct)
  case less
  show ?case
  proof (cases "concat_rule a b")
    case None
    then show ?thesis by (auto simp: run_Concat)
  next
    case (Some q)
    then have run: "run (Concat (Done a) (Done b)) = run q" by (simp add: run_Concat)
    from Some show ?thesis
    proof (cases rule: concat_rule_cases)
      case (3 X)
      then obtain A va vx y where ab: "a = Bitvector A va" "b = Concatenation (Bitvector X vx) y" and "A + X \<le> 64"
          and q: "q = Concat (Done (bvconstant (A + X) (push_bit X va + vx))) (Done y)"
        by (rule ConcatMergeConstants_SomeE)
      then show ?thesis
        using less.hyps [of "bvconstant (A + X) (push_bit X va + vx)" y] less.prems run by fastforce
    next
      case 4
      then obtain A va S' e where ab: "a = Bitvector A va" "b = Extraction S' 32 e" "width e = 32 + width b"
          "32 + A + width b \<le> 65" and q: "q = Extract (32 + A + width b - 1) 32 (Concat (Done a) (Done e))"
        by (rule ConcatPullExtract_SomeE)
      moreover have "0 < width b" "0 < A" "bwt e" using less.prems ab bwt_width_pos by auto
      ultimately obtain c where c: "run (Concat (Done a) (Done e)) = Some c" "const_head c" "spine c \<le> 2 + spine e"
        using concat_constant_wide [of A va e] less.prems by auto
      moreover have "bwt c" "width c = A + width e"
        using run_sound [OF c(1)] less.prems \<open>bwt e\<close> ab(1) by auto
      moreover note extract_const_head [of c]
      moreover have "run q = run (Extract (width c - 1) 32 (Done c))"
        using c(1) calculation ab(3) unfolding q by (simp add: run_Extract ac_simps)
      ultimately show ?thesis using run ab \<open>0 < width b\<close> \<open>0 < A\<close> by fastforce
    next
      case 5
      then obtain x y where a: "a = Concatenation x y" and q: "q = Concat (Done x) (Concat (Done y) (Done b))"
        by (rule ConcatPullConcat_SomeE)
      with less.hyps [of y b] less.prems obtain c where
        c: "run (Concat (Done y) (Done b)) = Some c" "spine c \<le> 1 + spine y + spine b" by auto
      moreover have "run q = run (Concat (Done x) (Done c))"
        using c(1) by (simp add: q run_Concat [of "Done x"])
      moreover have "bwt c" using run_sound(1) [OF c(1)] less.prems a by simp
      ultimately show ?thesis using less.hyps [of x c] less.prems run a by fastforce
    qed (use less.prems run in \<open>auto simp: ConcatPointer_def ConcatConstants_def
      split: if_splits option.splits elim!: cast_elims\<close>)
  qed
qed


lemma extract_total:
  assumes "bwt e" "E \<le> S" "S < width e"
  shows "\<exists>r. run (Extract S E (Done e)) = Some r"
  using assms
proof (induction "size e" arbitrary: e S E rule: less_induct)
  case less
  show ?case
  proof (cases "extract_rule S E e")
    case None
    then show ?thesis by (simp add: run_Extract)
  next
    case (Some q)
    then have run: "run (Extract S E (Done e)) = run q" by (simp add: run_Extract)
    from sound_extract_rule [OF less.prems Some] have q: "rwt q" by (simp add: sound_req_def)
    consider r where "q = Done r" | S' E' x where "q = Extract S' E' (Done x)" "size x < size e"
      | S' E' x S'' E'' y where "q = Concat (Extract S' E' (Done x)) (Extract S'' E'' (Done y))" 
        "size x < size e" "size y < size e"
      using Some by (cases rule: extract_rule_cases) (auto elim!: extract_helper_elims)
    then show ?thesis
    proof cases
      case (2 S' E' x)
      then show ?thesis using less.hyps [of x E' S'] q run by simp
    next
      case (3 S' E' x S'' E'' y)
      with less.hyps [of x E' S'] less.hyps [of y E'' S''] q obtain a b where
        "run (Extract S' E' (Done x)) = Some a" "run (Extract S'' E'' (Done y)) = Some b" by auto
      moreover from this 3 q have "bwt a" "bwt b" by (auto dest: run_sound(1))
      moreover have "run q = run (Concat (Done a) (Done b))" 
        using calculation 3 by (simp add: run_Concat)
      ultimately show ?thesis using concat_total [of a b] run by auto
    qed (use run in simp)
  qed
qed

theorem run_total: "rwt q \<Longrightarrow> \<exists>e. run q = Some e"
proof (induction q)
  case (Extract S E q)
  then obtain e where e: "run q = Some e" by auto
  with Extract.prems have "bwt e" "width e = rwidth q" by (auto dest: run_sound)
  moreover have "run (Extract S E q) = run (Extract S E (Done e))" using e by (simp add: run_Extract)
  ultimately show ?case using extract_total [of e E S] Extract.prems by auto
next
  case (Concat p q)
  then obtain a b where ab: "run p = Some a" "run q = Some b" by auto
  with Concat.prems have "bwt a" "bwt b" by (auto dest: run_sound)
  moreover have "run (Concat p q) = run (Concat (Done a) (Done b))" using ab by (simp add: run_Concat)
  ultimately show ?case using concat_total [of a b] by auto
qed simp

subsection \<open>The constructors\<close>

text \<open>
  \<open>extract<S,E>\<close>, \<open>concat\<close> and \<open>extend\<close>.  The C++ functions return a pointer in every case;
  \<open>run_total\<close> is what makes \<open>the\<close> harmless here.
\<close>

definition bvextract :: "nat \<Rightarrow> nat \<Rightarrow> bvexpr \<Rightarrow> bvexpr" where
  "bvextract S E e = the (run (Extract S E (Done e)))"

definition bvconcat :: "bvexpr \<Rightarrow> bvexpr \<Rightarrow> bvexpr" where
  "bvconcat a b = the (run (Concat (Done a) (Done b)))"

lemma bvextract_props:
  assumes "bwt e" "E \<le> S" "S < width e"
  shows bwt_bvextract: "bwt (bvextract S E e)"
    and width_bvextract: "width (bvextract S E e) = S - E + 1"
    and bveval_bvextract: "bveval \<rho> (bvextract S E e) = take_bit (S - E + 1) (drop_bit E (bveval \<rho> e))"
proof -
  obtain r where r: "run (Extract S E (Done e)) = Some r" using extract_total [OF assms] by auto
  moreover have "rwt (Extract S E (Done e))" using assms by simp
  ultimately show "bwt (bvextract S E e)" "width (bvextract S E e) = S - E + 1"
    "bveval \<rho> (bvextract S E e) = take_bit (S - E + 1) (drop_bit E (bveval \<rho> e))"
    using run_sound [of _ r] by (simp_all add: bvextract_def)
qed

lemma bvconcat_props:
  assumes "bwt a" "bwt b"
  shows bwt_bvconcat: "bwt (bvconcat a b)"
    and width_bvconcat: "width (bvconcat a b) = width a + width b"
    and bveval_bvconcat: "bveval \<rho> (bvconcat a b) = push_bit (width b) (bveval \<rho> a) OR bveval \<rho> b"
proof -
  obtain r where r: "run (Concat (Done a) (Done b)) = Some r" using concat_total [OF assms] by auto
  then show "bwt (bvconcat a b)" "width (bvconcat a b) = width a + width b"
    "bveval \<rho> (bvconcat a b) = push_bit (width b) (bveval \<rho> a) OR bveval \<rho> b"
    using run_sound [OF r] assms by (simp_all add: bvconcat_def)
qed

end
