(* ===== verification/Expr_Bits.thy ===== *)
theory Expr_Bits
  imports Expr_Concat
begin

text \<open>
  The bitwise smart constructors of \<open>expr.hpp\<close>: \<open>extend\<close>, \<open>bvnot\<close>, \<open>bvand\<close>, \<open>bvor\<close>,
  \<open>bvxor\<close>, the shifts and rotations.  Each is proved to implement the plain node that it
  stands for: same width, same value under every valuation, well typed.
\<close>

subsection \<open>Implementing a node\<close>

definition implements :: "valuation \<Rightarrow> bvexpr \<Rightarrow> bvexpr \<Rightarrow> bool" where
  "implements \<rho> r e \<longleftrightarrow> bwt r \<and> width r = width e \<and> bveval \<rho> r = bveval \<rho> e"

lemma implementsI: "bwt r \<Longrightarrow> width r = width e \<Longrightarrow> bveval \<rho> r = bveval \<rho> e \<Longrightarrow> implements \<rho> r e"
  by (simp add: implements_def)

lemma implements_bvextract: "bwt e \<Longrightarrow> E \<le> S \<Longrightarrow> S < width e \<Longrightarrow> implements \<rho> (bvextract S E e) (Extraction S E e)"
  by (simp add: implements_def bvextract_props)

lemma implements_bvconcat: "bwt a \<Longrightarrow> bwt b \<Longrightarrow> implements \<rho> (bvconcat a b) (Concatenation a b)"
  by (simp add: implements_def bvconcat_props)

text \<open>The value of a constant operand.\<close>

lemma bveval_const: "bwt (Bitvector B v) \<Longrightarrow> bveval \<rho> (Bitvector B v) = uint v"
  by (simp flip: unsigned_take_bit_eq)

lemma const_fits: "bwt (Bitvector B v) \<Longrightarrow> take_bit B (uint v) = uint v"
  by (simp flip: unsigned_take_bit_eq)

lemma const_range: "bwt (Bitvector B v) \<Longrightarrow> 0 < B \<and> B \<le> 64"
  by simp

lemma implements_const:
  "0 < B \<Longrightarrow> B \<le> 64 \<Longrightarrow> width e = B \<Longrightarrow> bveval \<rho> e = take_bit B (uint v) \<Longrightarrow>
     implements \<rho> (bvconstant B v) e"
  by (simp add: implements_def)

subsection \<open>Definitions\<close>

definition bvextend :: "nat \<Rightarrow> bvexpr \<Rightarrow> bvexpr" where
  "bvextend E e = bvconcat (bvconstant E 0) e"

definition bvnot :: "bvexpr \<Rightarrow> bvexpr" where
  "bvnot e = (case cast_constant e of
     Some v \<Rightarrow> bvconstant (width e) (v XOR lowmask (width e))
   | None \<Rightarrow> Bvnegation e)"

definition BVAndExtract :: "nat \<Rightarrow> nat \<Rightarrow> nat \<Rightarrow> u64 \<Rightarrow> bvexpr \<Rightarrow> bvexpr option" where
  "BVAndExtract S E B v b =
     (if B - 1 > S \<and> E = 0 then
        (if v = push_bit S 2 - 1 then Some (bvextend (B - S - 1) (bvextract S E b)) else None)
      else if B = S + 1 \<and> E > 0 then
        (if v = (push_bit S 2 - 1) AND NOT (push_bit E 1 - 1)
         then Some (bvconcat (bvextract S E b) (bvconstant E 0)) else None)
      else None)"

text \<open>
  The helper \<open>BVAndPullConcat\<close> answers with the call of \<open>bvand\<close> that it makes and the number of
  zeros that it prepends.
\<close>

definition BVAndPullConcat :: "nat \<Rightarrow> nat \<Rightarrow> u64 \<Rightarrow> bvexpr \<Rightarrow> (nat \<times> bvexpr \<times> bvexpr) option" where
  "BVAndPullConcat B X v b =
     (if B > X then
        Option.bind (cast_concat X (B - X) b) (\<lambda>(x, y).
          if v AND push_bit (B - X) 0xff = 0 then Some (X, bvconstant (B - X) v, y) else None)
      else None)"

definition bvand_masks :: "(nat \<times> nat) list" where
  "bvand_masks = [(7,0), (15,0), (15,8), (23,0), (23,8), (23,16), (31,0), (31,8), (31,16), (31,24)]"

definition bvand_rule :: "bvexpr \<Rightarrow> bvexpr \<Rightarrow> bvexpr option" where
  "bvand_rule a b =
     (let B = width a; ca = cast_constant a; cb = cast_constant b in first_some
       ([Option.bind ca (\<lambda>va. map_option (\<lambda>vb. bvconstant B (va AND vb)) cb),
         Option.bind ca (\<lambda>va. if va = lowmask B then Some b else None),
         Option.bind cb (\<lambda>vb. if vb = lowmask B then Some a else None)]
        @ map (\<lambda>(S, E). Option.bind ca (\<lambda>va. BVAndExtract S E B va b)) ((13,0) # bvand_masks)
        @ map (\<lambda>(S, E). Option.bind cb (\<lambda>vb. BVAndExtract S E B vb a)) bvand_masks))"

definition bvand_pull :: "bvexpr \<Rightarrow> bvexpr \<Rightarrow> (nat \<times> bvexpr \<times> bvexpr) option" where
  "bvand_pull a b =
     (let B = width a; ca = cast_constant a; cb = cast_constant b in first_some
       [Option.bind ca (\<lambda>va. BVAndPullConcat B 8 va b),
        Option.bind cb (\<lambda>vb. BVAndPullConcat B 8 vb a),
        Option.bind ca (\<lambda>va. BVAndPullConcat B 16 va b),
        Option.bind cb (\<lambda>vb. BVAndPullConcat B 16 vb a),
        Option.bind ca (\<lambda>va. BVAndPullConcat B 24 va b),
        Option.bind cb (\<lambda>vb. BVAndPullConcat B 24 vb a)])"

lemma BVAndPullConcat_SomeE:
  assumes "BVAndPullConcat B X v b = Some r"
  obtains x y where "b = Concatenation x y" "width x = X" "width y = B - X" "X < B"
    "v AND push_bit (B - X) 0xff = 0" "r = (X, bvconstant (B - X) v, y)"
  using assms by (auto simp: BVAndPullConcat_def bind_eq_Some_conv split: if_splits elim!: cast_elims)

lemma bvand_pull_cases:
  assumes "bvand_pull a b = Some r"
  obtains X W v where "a = Bitvector W v" "BVAndPullConcat (width a) X v b = Some r" "X = 8 \<or> X = 16 \<or> X = 24"
    | X W v where "b = Bitvector W v" "BVAndPullConcat (width a) X v a = Some r" "X = 8 \<or> X = 16 \<or> X = 24"
  using first_some_mem [OF assms [unfolded bvand_pull_def Let_def]]
  by (auto simp: bind_eq_Some_conv eq_commute [of "Some r"] elim!: cast_constant_SomeE)

function bvand :: "bvexpr \<Rightarrow> bvexpr \<Rightarrow> bvexpr" where
  "bvand a b =
     (case bvand_rule a b of
        Some r \<Rightarrow> r
      | None \<Rightarrow> (case bvand_pull a b of
            Some (X, m, y) \<Rightarrow> bvextend X (bvand m y)
          | None \<Rightarrow> Bvbinary Bvanding a b))"
  by pat_completeness auto
termination
  by (relation "measure (\<lambda>(a, b). width a)")
     (auto elim!: bvand_pull_cases BVAndPullConcat_SomeE simp del: width.simps)

declare bvand.simps [simp del]

subsection \<open>Soundness of bvextend, bvnot and bvand\<close>

lemma extend_props:
  assumes "0 < E" "E \<le> 64" "bwt e"
  shows bwt_extend: "bwt (bvextend E e)" and width_extend: "width (bvextend E e) = E + width e"
    and bveval_extend: "bveval \<rho> (bvextend E e) = bveval \<rho> e"
  using assms by (simp_all add: bvextend_def bvconcat_props)

lemma implements_bvnot:
  assumes "bwt e"
  shows "implements \<rho> (bvnot e) (Bvnegation e)"
proof (cases "cast_constant e")
  case None
  then show ?thesis using assms by (simp add: bvnot_def implements_def)
next
  case (Some v)
  then obtain B where e: "e = Bitvector B v" by (rule cast_constant_SomeE)
  have "take_bit B (NOT (uint v)) = take_bit B (uint (v XOR lowmask B))"
    using assms e by (intro bit_eqI) (auto simp: bit_simps lowmask_mask)
  then show ?thesis using assms e Some
    by (auto simp: bvnot_def cast_constant_def take_bit_not_take_bit intro!: implements_const)
qed

lemma word_mask: "push_bit S 2 - 1 = (mask (Suc S) :: u64)" "push_bit E 1 - 1 = (mask E :: u64)" "2 ^ E - 1 = (mask E :: u64)"
  by (simp_all add: mask_eq_decr_exp push_bit_eq_mult)

lemma implements_BVAndExtract:
  assumes "BVAndExtract S E B v b = Some r" "bwt b" "width b = B" "bwt a" "width a = B" "bveval \<rho> a = uint v"
    "B \<le> 64" "E \<le> S"
  shows "implements \<rho> r (Bvbinary Bvanding a b)" "implements \<rho> r (Bvbinary Bvanding b a)"
proof -
  have "implements \<rho> r (Bvbinary Bvanding a b) \<and> implements \<rho> r (Bvbinary Bvanding b a)"
  proof (cases "B - 1 > S \<and> E = 0")
    case True
    then have v: "v = mask (Suc S)" and r: "r = bvextend (B - S - 1) (bvextract S E b)"
      using assms(1) by (auto simp: BVAndExtract_def word_mask split: if_splits)
    have "Suc S \<le> B" using True by linarith
    have "uint v AND bveval \<rho> b = take_bit (Suc S) (bveval \<rho> b)"
      using True assms(7) v by (intro bit_eqI) (auto simp: bit_simps)
    moreover have "take_bit B (take_bit (Suc S) (bveval \<rho> b)) = take_bit (Suc S) (bveval \<rho> b)"
      using \<open>Suc S \<le> B\<close> by (simp add: min_absorb2)
    ultimately show ?thesis using True assms r
      by (auto simp: implements_def bvextract_props extend_props and.commute [of "bveval \<rho> b"])
  next
    case False
    then have v: "v = mask (Suc S) AND NOT (mask E)" and B: "B = S + 1" "0 < E"
      and r: "r = bvconcat (bvextract S E b) (bvconstant E 0)"
      using assms(1) by (auto simp: BVAndExtract_def word_mask split: if_splits)
    have "uint v AND bveval \<rho> b = push_bit E (take_bit (S - E + 1) (drop_bit E (bveval \<rho> b)))"
      using B assms(7,8) v assms(3) by (intro bit_eqI) (auto simp: bit_simps dest: bit_bveval)
    moreover have "take_bit B (uint v AND bveval \<rho> b) = uint v AND bveval \<rho> b"
      using bveval_take_bit [of b \<rho>] assms(3) by (simp only: take_bit_and) (simp add: bit_eq_iff bit_simps, metis bit_bveval)
    ultimately show ?thesis using B assms r
      by (auto simp: implements_def bvextract_props bvconcat_props and.commute [of "bveval \<rho> b"])
  qed
  then show "implements \<rho> r (Bvbinary Bvanding a b)" "implements \<rho> r (Bvbinary Bvanding b a)" by simp_all
qed

lemma bvand_masks_ordered: "(S, E) \<in> set bvand_masks \<Longrightarrow> E \<le> S"
  by (auto simp: bvand_masks_def)

lemma bvand_rule_cases:
  assumes "bvand_rule a b = Some r"
  obtains W va W' vb where "a = Bitvector W va" "b = Bitvector W' vb" "r = bvconstant (width a) (va AND vb)"
    | W v where "a = Bitvector W v" "v = lowmask (width a)" "r = b"
    | W v where "b = Bitvector W v" "v = lowmask (width a)" "r = a"
    | W v S E where "a = Bitvector W v" "BVAndExtract S E (width a) v b = Some r" "E \<le> S"
    | W v S E where "b = Bitvector W v" "BVAndExtract S E (width a) v a = Some r" "E \<le> S"
proof -
  let ?ca = "cast_constant a" and ?cb = "cast_constant b"
  from first_some_mem [OF assms [unfolded bvand_rule_def Let_def]]
  consider "Option.bind ?ca (\<lambda>va. map_option (\<lambda>vb. bvconstant (width a) (va AND vb)) ?cb) = Some r"
    | "Option.bind ?ca (\<lambda>va. if va = lowmask (width a) then Some b else None) = Some r"
    | "Option.bind ?cb (\<lambda>vb. if vb = lowmask (width a) then Some a else None) = Some r"
    | "Option.bind ?ca (\<lambda>va. BVAndExtract 13 0 (width a) va b) = Some r"
    | S E where "(S, E) \<in> set bvand_masks" "Option.bind ?ca (\<lambda>va. BVAndExtract S E (width a) va b) = Some r"
    | S E where "(S, E) \<in> set bvand_masks" "Option.bind ?cb (\<lambda>vb. BVAndExtract S E (width a) vb a) = Some r"
    unfolding set_append set_map by (auto simp del: bind_eq_Some_conv simp: eq_commute [of "Some r"])
  then show thesis
    by cases (use bvand_masks_ordered in \<open>auto simp: bind_eq_Some_conv simp del: width.simps split: if_splits
      elim!: cast_constant_SomeE intro: that\<close>)
qed

lemma implements_bvand_rule:
  assumes "bvand_rule a b = Some r" "bwt a" "bwt b" "width a = width b"
  shows "implements \<rho> r (Bvbinary Bvanding a b)"
proof -
  have full: "take_bit B (uint (lowmask B) AND x) = x" if "take_bit B x = x" "B \<le> 64" for B x
    using that bit_take_bit_self [OF that(1)] by (intro bit_eqI) (fastforce simp: bit_simps lowmask_mask)
  from assms(1) show ?thesis
  proof (cases rule: bvand_rule_cases)
    case 1
    then show ?thesis using assms(2-4)
      by (auto simp: uint_and take_bit_and elim!: cast_constant_SomeE intro!: implements_const)
  next
    case (2 W v)
    have "bveval \<rho> a = uint v" "width a \<le> 64"
      using assms(2) 2(1) bveval_const [of W v] by auto
    with full [of "width b" "bveval \<rho> b"] show ?thesis using 2(2,3) assms(2-4)
      by (simp add: implements_def)
  next
    case (3 W v)
    have "bveval \<rho> b = uint v" "width a \<le> 64"
      using assms(3,4) 3(1) bveval_const [of W v] by auto
    then have "take_bit (width a) (bveval \<rho> b AND bveval \<rho> a) = bveval \<rho> a"
      using full [OF bveval_take_bit [of a \<rho>]] 3(2) by simp
    then show ?thesis
      using assms(2) unfolding implements_def bveval.simps binop_eval.simps width.simps 3(3)
      by (simp only: and.commute)
  next
    case (4 W v S E)
    have "bveval \<rho> a = uint v" "width a \<le> 64" using assms(2) 4(1) bveval_const [of W v] by auto
    then show ?thesis
      using implements_BVAndExtract(1) [OF 4(2) assms(3) _ assms(2)] 4(3) assms(4) by simp
  next
    case (5 W v S E)
    have "bveval \<rho> b = uint v" "width a \<le> 64" using assms(3,4) 5(1) bveval_const [of W v] by auto
    then show ?thesis
      by (rule implements_BVAndExtract(2) [OF 5(2) assms(2) refl assms(3) assms(4) [symmetric] _ _ 5(3)])
  qed
qed

text \<open>
  \<open>BVAndPullConcat<B,X>\<close> tests eight bits of the mask and drops \<open>X\<close> of them.  It is sound for a
  mask that has no bit left above the eight.
\<close>

primrec mask_ok :: "u64 \<Rightarrow> bvexpr \<Rightarrow> bool" where
  "mask_ok v (Concatenation x y) =
     (((width x = 16 \<or> width x = 24) \<longrightarrow> v AND push_bit (width y) 0xff = 0 \<longrightarrow> drop_bit (width y) v = 0)
       \<and> mask_ok v y)"
| "mask_ok v (Undefined w i n e) = True"
| "mask_ok v (Bitvector w c) = True"
| "mask_ok v (Bvvariable w n) = True"
| "mask_ok v (BvIte l a b) = True"
| "mask_ok v (Extraction S E e) = True"
| "mask_ok v (Bvnegation e) = True"
| "mask_ok v (Bvbinary f a b) = True"
| "mask_ok v (Bvbit f a b) = True"
| "mask_ok v (Bvrotation r e i) = True"
| "mask_ok v (Pointer p off) = True"
| "mask_ok v (Pointer_ext p off ext) = True"
| "mask_ok v (Pointer_base p s off) = True"
| "mask_ok v (Selection a off) = True"

definition masks_ok :: "bvexpr \<Rightarrow> bvexpr \<Rightarrow> bool" where
  "masks_ok a b \<longleftrightarrow> (\<forall>v \<in> set_option (cast_constant a). mask_ok v b)
     \<and> (\<forall>v \<in> set_option (cast_constant b). mask_ok v a)"

lemma drop_bit_0_less: "drop_bit n v = 0 \<Longrightarrow> bit v i \<Longrightarrow> i < n" for v :: u64
proof (rule ccontr)
  assume "drop_bit n v = 0" "bit v i" "\<not> i < n"
  from \<open>bit v i\<close> \<open>\<not> i < n\<close> have "bit (drop_bit n v) (i - n)" by (simp add: bit_simps)
  then show False using \<open>drop_bit n v = 0\<close> by simp
qed

lemma pull_concat_value:
  assumes "drop_bit n v = 0"
  shows "uint v AND (push_bit n x OR y) = uint (v AND lowmask n) AND y"
  by (intro bit_eqI) (auto simp: bit_simps lowmask_mask dest: bit_imp_le_length drop_bit_0_less [OF assms])

lemma mask_clear:
  fixes v :: u64
  assumes "v AND push_bit n 0xff = 0" "take_bit (n + 8) v = v"
  shows "drop_bit n v = 0"
proof (rule bit_word_eqI)
  fix i assume i: "i < LENGTH(64)"
  show "bit (drop_bit n v) i = bit 0 i"
  proof
    assume b: "bit (drop_bit n v) i"
    then have "n + i < n + 8" "n + i < 64" using assms(2) bit_take_bit_iff [of "n + 8" v "n + i"] 
      by (auto simp: bit_simps dest: bit_imp_le_length)
    moreover have "bit (0xff :: u64) i" if "i < 8"
      using that by (simp add: less_Suc_eq numeral_eq_Suc) (auto simp: bit_numeral_rec)
    ultimately have "bit (v AND push_bit n 0xff) (n + i)" using b by (simp add: bit_simps)
    then show "bit 0 i" using assms(1) by simp
  qed simp
qed

lemma implements_pull:
  assumes "BVAndPullConcat B X v b = Some (X', m, y)" "X = 8 \<or> X = 16 \<or> X = 24" "bwt b" "width b = B" "take_bit B v = v"
    "B \<le> 64" "mask_ok v b"
  shows "X' = X" "X < B" "bwt m" "bwt y" "width m = B - X" "width y = B - X" "masks_ok m y"
    "uint v AND bveval \<rho> b = bveval \<rho> m AND bveval \<rho> y"
proof -
  from assms(1) obtain x where b: "b = Concatenation x y" "width x = X" "width y = B - X" "X < B"
    "v AND push_bit (B - X) 0xff = 0" "X' = X" "m = bvconstant (B - X) v"
    by (auto elim: BVAndPullConcat_SomeE)
  have d: "drop_bit (B - X) v = 0"
    using mask_clear [of v "B - X"] assms(2,5,7) b by auto
  then have "v AND lowmask (B - X) = v"
    using drop_bit_0_less [OF d] by (intro bit_word_eqI) (auto simp: bit_simps lowmask_mask)
  then have m: "m = Bitvector (B - X) v" using b(4,7) assms(6) by (auto simp: bvconstant_def)
  show "X' = X" "X < B" "bwt y" "width m = B - X" "width y = B - X" using b assms(3) by simp_all
  show "bwt m" using b(4,7) assms(6) by simp
  show "masks_ok m y" using m b(1) assms(7) 
    by (auto simp: masks_ok_def elim!: cast_constant_SomeE)
  show "uint v AND bveval \<rho> b = bveval \<rho> m AND bveval \<rho> y"
    using pull_concat_value [OF d, of "bveval \<rho> x" "bveval \<rho> y"] b assms(6)
    by (simp add: uint_and_lowmask)
qed

lemma implements_bvand:
  assumes "bwt a" "bwt b" "width a = width b" "masks_ok a b"
  shows "implements \<rho> (bvand a b) (Bvbinary Bvanding a b)"
  using assms
proof (induction a b rule: bvand.induct)
  case bv: (1 a b)
  show ?case
  proof (cases "bvand_rule a b")
    case (Some r)
    then show ?thesis using implements_bvand_rule [OF Some] bv.prems by (simp add: bvand.simps)
  next
    case None
    show ?thesis
    proof (cases "bvand_pull a b")
      case None
      then show ?thesis using \<open>bvand_rule a b = None\<close> bv.prems by (simp add: bvand.simps implements_def)
    next
      case (Some r)
      obtain X m y where r: "r = (X, m, y)" by (cases r)
      from Some r have p: "0 < X \<and> X \<le> 24 \<and> X < width a \<and> bwt m \<and> bwt y \<and> width m = width a - X \<and> width y = width a - X
        \<and> masks_ok m y \<and> bveval \<rho> a AND bveval \<rho> b = bveval \<rho> m AND bveval \<rho> y"
      proof (cases rule: bvand_pull_cases)
        case (1 X' W v)
        then have "take_bit (width a) v = v" "width a \<le> 64" "bveval \<rho> a = uint v" "mask_ok v b"
          using bv.prems bveval_const by (auto simp: masks_ok_def cast_constant_def)
        then show ?thesis using implements_pull [OF 1(2) [unfolded r] 1(3)] 1(3) bv.prems by auto
      next
        case (2 X' W v)
        then have "take_bit (width a) v = v" "width a \<le> 64" "bveval \<rho> b = uint v" "mask_ok v a"
          using bv.prems bveval_const by (auto simp: masks_ok_def cast_constant_def)
        then show ?thesis using implements_pull [OF 2(2) [unfolded r] 2(3)] 2(3) bv.prems 
          by (auto simp: and.commute)
      qed
      with bv.IH [OF None Some r [symmetric] refl] have "implements \<rho> (bvand m y) (Bvbinary Bvanding m y)" by simp
      moreover have "bvand a b = bvextend X (bvand m y)" using None Some r by (simp add: bvand.simps)
      moreover have "take_bit (width a) (bveval \<rho> m AND bveval \<rho> y) = take_bit (width a - X) (bveval \<rho> m AND bveval \<rho> y)"
        using p by (intro bit_eqI) (auto simp: bit_simps dest: bit_bveval)
      ultimately show ?thesis using p by (simp add: implements_def extend_props)
    qed
  qed
qed

subsection \<open>bvor and bvxor\<close>

text \<open>
  The C++ type checker accepts a binary operation on bit vectors of equal width only.  The
  functions whose recursion ends because of the widths test this.
\<close>

definition typed2 :: "bvexpr \<Rightarrow> bvexpr \<Rightarrow> bool" where
  "typed2 a b \<longleftrightarrow> bwt a \<and> bwt b \<and> width a = width b"

fun bvconcats :: "bvexpr list \<Rightarrow> bvexpr" where
  "bvconcats [] = Bitvector 0 0"
| "bvconcats [r] = r"
| "bvconcats (r # q # rs) = bvconcat r (bvconcats (q # rs))"

text \<open>The helper answers with the pairs of operands of the calls of \<open>bvor\<close> that it concatenates.\<close>

definition BVOrConcats :: "nat \<Rightarrow> nat \<Rightarrow> nat \<Rightarrow> bvexpr \<Rightarrow> bvexpr \<Rightarrow> (bvexpr \<times> bvexpr) list option" where
  "BVOrConcats B X Y a b =
     (if B > X \<and> X = Y then
        Option.bind (cast_concat X (B - X) a) (\<lambda>(a1, a2).
        Option.bind (cast_concat X (B - X) b) (\<lambda>(b1, b2).
          Some [(a1, b1), (a2, b2)]))
      else if B > X \<and> X > Y then
        Option.bind (cast_concat X (B - X) a) (\<lambda>(a1, a2).
        Option.bind (cast_concat Y (B - Y) b) (\<lambda>(b1, b2).
          Some [(bvextract (X - 1) (X - Y) a1, b1),
                (bvextract (X - Y - 1) 0 a1, bvextract (B - Y - 1) (B - X) b2),
                (a2, bvextract (B - X - 1) 0 b2)]))
      else if B > Y \<and> Y > X then
        Option.bind (cast_concat X (B - X) a) (\<lambda>(a1, a2).
        Option.bind (cast_concat Y (B - Y) b) (\<lambda>(b1, b2).
          Some [(a1, bvextract (Y - 1) (Y - X) b1),
                (bvextract (B - X - 1) (B - Y) a2, bvextract (Y - X - 1) 0 b1),
                (bvextract (B - Y - 1) 0 a2, b2)]))
      else None)"

definition bvor_rule :: "bvexpr \<Rightarrow> bvexpr \<Rightarrow> bvexpr option" where
  "bvor_rule a b =
     (let B = width a; ca = cast_constant a; cb = cast_constant b in first_some
       [Option.bind ca (\<lambda>va. map_option (\<lambda>vb. bvconstant B (va OR vb)) cb),
        Option.bind ca (\<lambda>va. if va = 0 then Some b else None),
        Option.bind cb (\<lambda>vb. if vb = 0 then Some a else None)])"

definition bvor_concats :: "bvexpr \<Rightarrow> bvexpr \<Rightarrow> (bvexpr \<times> bvexpr) list option" where
  "bvor_concats a b =
     (let B = width a in first_some
       [BVOrConcats B 8 8 a b, BVOrConcats B 8 16 a b, BVOrConcats B 8 24 a b,
        BVOrConcats B 16 8 a b, BVOrConcats B 16 16 a b, BVOrConcats B 16 24 a b,
        BVOrConcats B 24 8 a b, BVOrConcats B 24 16 a b, BVOrConcats B 24 24 a b])"

text \<open>The pairs of a helper that applies: operands of equal width whose unions make up the result.\<close>

fun pairs_width :: "(bvexpr \<times> bvexpr) list \<Rightarrow> nat" where
  "pairs_width [] = 0"
| "pairs_width ((p, q) # ps) = width p + pairs_width ps"

fun pairs_eval :: "valuation \<Rightarrow> (bvexpr \<times> bvexpr) list \<Rightarrow> int" where
  "pairs_eval \<rho> [] = 0"
| "pairs_eval \<rho> ((p, q) # ps) = push_bit (pairs_width ps) (bveval \<rho> p OR bveval \<rho> q) OR pairs_eval \<rho> ps"

lemma or_slices:
  fixes x y u v :: int
  assumes "take_bit p y = y" "take_bit (p + q) v = v" "take_bit (q + r) x = x"
  shows "push_bit (p + q) (take_bit r (drop_bit q x) OR u) OR
      (push_bit p (take_bit q x OR take_bit q (drop_bit p v)) OR (y OR take_bit p v)) =
    (push_bit p x OR y) OR (push_bit (p + q) u OR v)"
proof (rule bit_eqI)
  fix i
  have "p + q \<le> i \<Longrightarrow> q + (i - (p + q)) = i - p" "p \<le> i \<Longrightarrow> p + (i - p) = i" by simp_all
  then show "bit (push_bit (p + q) (take_bit r (drop_bit q x) OR u) OR
      (push_bit p (take_bit q x OR take_bit q (drop_bit p v)) OR (y OR take_bit p v))) i =
    bit ((push_bit p x OR y) OR (push_bit (p + q) u OR v)) i"
    using bit_take_bit_self [OF assms(1), of i] bit_take_bit_self [OF assms(2), of i]
      bit_take_bit_self [OF assms(3), of "i - p"]
    by (auto simp: bit_simps)
qed

lemma BVOrConcats_cases:
  assumes "BVOrConcats B X Y a b = Some ps"
  obtains a1 a2 b1 b2 where "a = Concatenation a1 a2" "b = Concatenation b1 b2" "width a1 = X" "width a2 = B - X"
      "width b1 = X" "width b2 = B - X" "X < B" "ps = [(a1, b1), (a2, b2)]"
    | a1 a2 b1 b2 where "a = Concatenation a1 a2" "b = Concatenation b1 b2" "width a1 = X" "width a2 = B - X"
      "width b1 = Y" "width b2 = B - Y" "Y < X" "X < B"
      "ps = [(bvextract (X - 1) (X - Y) a1, b1), (bvextract (X - Y - 1) 0 a1, bvextract (B - Y - 1) (B - X) b2),
             (a2, bvextract (B - X - 1) 0 b2)]"
    | a1 a2 b1 b2 where "a = Concatenation a1 a2" "b = Concatenation b1 b2" "width a1 = X" "width a2 = B - X"
      "width b1 = Y" "width b2 = B - Y" "X < Y" "Y < B"
      "ps = [(a1, bvextract (Y - 1) (Y - X) b1), (bvextract (B - X - 1) (B - Y) a2, bvextract (Y - X - 1) 0 b1),
             (bvextract (B - Y - 1) 0 a2, b2)]"
  using assms
  by (auto simp: BVOrConcats_def bind_eq_Some_conv split: if_splits elim!: cast_elims simp del: width.simps)

text \<open>What the recursive calls of \<open>bvor\<close> rely on.\<close>

definition or_pairs :: "valuation \<Rightarrow> nat \<Rightarrow> int \<Rightarrow> (bvexpr \<times> bvexpr) list \<Rightarrow> bool" where
  "or_pairs \<rho> B x ps \<longleftrightarrow>
     ps \<noteq> [] \<and> (\<forall>(p, q) \<in> set ps. typed2 p q \<and> width p < B) \<and> pairs_width ps = B \<and> pairs_eval \<rho> ps = x"

lemma or_pairs_wide:
  assumes "bwt a1" "bwt a2" "bwt b1" "bwt b2" "width a1 = q + r" "width a2 = p" "width b1 = r" "width b2 = p + q"
    "0 < p" "0 < q" "0 < r"
  shows "or_pairs \<rho> (p + q + r) (bveval \<rho> (Concatenation a1 a2) OR bveval \<rho> (Concatenation b1 b2))
      [(bvextract (q + r - 1) q a1, b1), (bvextract (q - 1) 0 a1, bvextract (p + q - 1) p b2),
       (a2, bvextract (p - 1) 0 b2)]" (is ?l)
    and "or_pairs \<rho> (p + q + r) (bveval \<rho> (Concatenation b1 b2) OR bveval \<rho> (Concatenation a1 a2))
      [(b1, bvextract (q + r - 1) q a1), (bvextract (p + q - 1) p b2, bvextract (q - 1) 0 a1),
       (bvextract (p - 1) 0 b2, a2)]" (is ?r)
proof -
  have w: "q \<le> q + r - 1" "q + r - 1 < width a1" "q - 1 < width a1" "p \<le> p + q - 1" "p + q - 1 < width b2" 
    "p - 1 < width b2" "q + r - 1 - q + 1 = r" "q - 1 - 0 + 1 = q" "p + q - 1 - p + 1 = q" "p - 1 - 0 + 1 = p"
    using assms(5-) by linarith+
  note props = bvextract_props [OF assms(1) w(1,2)] bvextract_props [OF assms(1) _ w(3), of 0, simplified]
    bvextract_props [OF assms(4) w(4,5)] bvextract_props [OF assms(4) _ w(6), of 0, simplified]
  have fits: "take_bit p (bveval \<rho> a2) = bveval \<rho> a2" "take_bit (p + q) (bveval \<rho> b2) = bveval \<rho> b2"
    "take_bit (q + r) (bveval \<rho> a1) = bveval \<rho> a1"
    using bveval_take_bit assms(5-8) by metis+
  from or_slices [OF fits, of "bveval \<rho> b1"] show ?l ?r
    using assms props w by (auto simp: or_pairs_def typed2_def or.assoc or.commute or.left_commute add.commute)
qed

lemma BVOrConcats_sound:
  assumes "BVOrConcats B X Y a b = Some ps" "bwt a" "bwt b" "width a = B" "width b = B"
  shows "or_pairs \<rho> B (bveval \<rho> a OR bveval \<rho> b) ps"
  using assms(1)
proof (cases rule: BVOrConcats_cases)
  case (1 a1 a2 b1 b2)
  then show ?thesis using assms(2,3) bwt_width_pos [of a1] bwt_width_pos [of a2]
    by (auto simp: or_pairs_def typed2_def or.assoc or.commute or.left_commute simp del: push_bit_or)
      (simp add: push_bit_or or.assoc or.commute or.left_commute)
next
  case (2 a1 a2 b1 b2)
  have pos: "0 < width a2" "0 < width b1" using assms(2,3) 2(1,2) bwt_width_pos by auto
  have B: "B - X + (X - Y) + Y = B" "B - X + (X - Y) = B - Y" "X - Y + Y = X" using 2(7,8) by linarith+
  show ?thesis
    using or_pairs_wide(1) [of a1 a2 b1 b2 "X - Y" Y "B - X" \<rho>] 2 assms(2,3) pos
    by (simp add: B del: bveval.simps)
next
  case (3 a1 a2 b1 b2)
  have pos: "0 < width a1" "0 < width b2" using assms(2,3) 3(1,2) bwt_width_pos by auto
  have B: "B - Y + (Y - X) + X = B" "B - Y + (Y - X) = B - X" "Y - X + X = Y" using 3(7,8) by linarith+
  show ?thesis
    using or_pairs_wide(2) [of b1 b2 a1 a2 "Y - X" X "B - Y" \<rho>] 3 assms(2,3) pos
    by (simp add: B del: bveval.simps)
qed

lemma bvor_concats_sound:
  assumes "bvor_concats a b = Some ps" "typed2 a b"
  shows "or_pairs \<rho> (width a) (bveval \<rho> a OR bveval \<rho> b) ps"
proof -
  from first_some_mem [OF assms(1) [unfolded bvor_concats_def Let_def]]
  obtain X Y where "BVOrConcats (width a) X Y a b = Some ps" by (auto simp: eq_commute [of "Some ps"])
  then show ?thesis using assms(2) by (auto simp: typed2_def intro: BVOrConcats_sound)
qed

function bvor :: "bvexpr \<Rightarrow> bvexpr \<Rightarrow> bvexpr" where
  "bvor a b =
     (if \<not> typed2 a b then Bvbinary Bvoring a b
      else case bvor_rule a b of
        Some r \<Rightarrow> r
      | None \<Rightarrow> (case bvor_concats a b of
            Some ps \<Rightarrow> bvconcats (map (\<lambda>(p, q). bvor p q) ps)
          | None \<Rightarrow> Bvbinary Bvoring a b))"
  by pat_completeness auto
termination
  by (relation "measure (\<lambda>(a, b). width a)") (use bvor_concats_sound in \<open>fastforce simp: or_pairs_def\<close>)+

declare bvor.simps [simp del]

lemma bvconcats_props:
  assumes "ps \<noteq> []" "\<forall>(p, q) \<in> set ps. implements \<rho> (f p q) (Bvbinary Bvoring p q) \<and> width p = width q"
  shows "bwt (bvconcats (map (\<lambda>(p, q). f p q) ps)) \<and> width (bvconcats (map (\<lambda>(p, q). f p q) ps)) = pairs_width ps
    \<and> bveval \<rho> (bvconcats (map (\<lambda>(p, q). f p q) ps)) = pairs_eval \<rho> ps"
  using assms
proof (induction ps rule: pairs_width.induct)
  case (2 p q ps)
  have "take_bit (width p) (bveval \<rho> p OR bveval \<rho> q) = bveval \<rho> p OR bveval \<rho> q" 
    if "width p = width q" using that by (simp add: take_bit_or) (metis bveval_take_bit)
  with 2 show ?case by (cases ps) (auto simp: implements_def bvconcat_props)
qed simp

lemma bvor_rule_sound:
  assumes "bvor_rule a b = Some r" "typed2 a b"
  shows "implements \<rho> r (Bvbinary Bvoring a b)"
proof -
  consider W va W' vb where "a = Bitvector W va" "b = Bitvector W' vb" "r = bvconstant (width a) (va OR vb)"
    | W where "a = Bitvector W 0" "r = b" | W where "b = Bitvector W 0" "r = a"
    using first_some_mem [OF assms(1) [unfolded bvor_rule_def Let_def]]
    by (auto simp: bind_eq_Some_conv eq_commute [of "Some r"] split: if_splits elim!: cast_constant_SomeE)
  then show ?thesis
    using assms(2) by cases (auto simp: typed2_def uint_or take_bit_or implements_def)
qed

lemma implements_bvor:
  assumes "bwt a" "bwt b" "width a = width b"
  shows "implements \<rho> (bvor a b) (Bvbinary Bvoring a b)"
  using assms
proof (induction a b rule: bvor.induct)
  case or: (1 a b)
  have t: "typed2 a b" using or.prems by (simp add: typed2_def)
  consider r where "bvor_rule a b = Some r" | ps where "bvor_rule a b = None" "bvor_concats a b = Some ps"
    | "bvor_rule a b = None" "bvor_concats a b = None"
    by (cases "bvor_rule a b"; cases "bvor_concats a b") auto
  then show ?case
  proof cases
    case 1
    then show ?thesis using bvor_rule_sound t by (simp add: bvor.simps)
  next
    case (2 ps)
    note op = bvor_concats_sound [OF 2(2) t, of \<rho>]
    have "implements \<rho> (bvor p q) (Bvbinary Bvoring p q) \<and> width p = width q" if "(p, q) \<in> set ps" for p q
      using or.IH [OF _ 2 that refl] t op that by (auto simp: or_pairs_def typed2_def)
    then have "\<forall>(p, q) \<in> set ps. implements \<rho> (bvor p q) (Bvbinary Bvoring p q) \<and> width p = width q" by blast
    moreover have "bvor a b = bvconcats (map (\<lambda>(p, q). bvor p q) ps)" using t 2 by (simp add: bvor.simps [of a b])
    moreover have "take_bit (width a) (bveval \<rho> a OR bveval \<rho> b) = bveval \<rho> a OR bveval \<rho> b"
      using or.prems(3) by (simp add: take_bit_or) (metis bveval_take_bit)
    ultimately show ?thesis using op bvconcats_props [of ps \<rho> bvor] 
      by (simp add: implements_def or_pairs_def)
  next
    case 3
    then show ?thesis using t or.prems by (simp add: bvor.simps implements_def)
  qed
qed

definition bvxor :: "bvexpr \<Rightarrow> bvexpr \<Rightarrow> bvexpr" where
  "bvxor a b =
     (case (cast_constant a, cast_constant b) of
        (Some va, Some vb) \<Rightarrow> bvconstant (width a) (va XOR vb)
      | (Some va, None) \<Rightarrow> if va = 0 then b else Bvbinary Bvxoring a b
      | (None, Some vb) \<Rightarrow> if vb = 0 then a else Bvbinary Bvxoring a b
      | (None, None) \<Rightarrow> Bvbinary Bvxoring a b)"

lemma implements_bvxor:
  assumes "bwt a" "bwt b" "width a = width b"
  shows "implements \<rho> (bvxor a b) (Bvbinary Bvxoring a b)"
  using assms
  by (auto simp: bvxor_def implements_def uint_xor take_bit_xor split: option.splits elim!: cast_constant_SomeE)

end
