(* ===== verification/Expr_Shift.thy ===== *)
theory Expr_Shift
  imports Expr_Bits
begin

text \<open>
  The shifts and rotations of \<open>expr.hpp\<close>.  A shift by a constant number of bytes becomes an
  extraction and a concatenation with zeros.
\<close>

subsection \<open>Left shift\<close>

definition BVShLPullConcat :: "nat \<Rightarrow> nat \<Rightarrow> bvexpr \<Rightarrow> bvexpr option" where
  "BVShLPullConcat B S a =
     (if B > S then map_option (\<lambda>(x, y). bvconcat y (bvconstant S 0)) (cast_concat S (B - S) a) else None)"

definition BVShLConstant :: "nat \<Rightarrow> nat \<Rightarrow> bvexpr \<Rightarrow> bvexpr option" where
  "BVShLConstant B S a =
     (if S < B then Some (bvconcat (bvextract (B - S - 1) 0 a) (bvconstant S 0)) else None)"

text \<open>The operand of type \<open>pointer_base<B,8>\<close>: the shift of the object is a \<open>std::uint8_t\<close>.\<close>

definition bvshl_rule :: "bvexpr \<Rightarrow> u64 \<Rightarrow> bvexpr option" where
  "bvshl_rule a vb =
     (let B = width a in first_some
       [map_option (\<lambda>va. bvconstant B (shl64 va vb)) (cast_constant a),
        Option.bind (cast_ptr_base B 8 a) (\<lambda>(p, s, off). if s = unat vb then Some (Pointer p off) else None),
        Option.bind (cast_ptr_base B 8 a) (\<lambda>(p, s, off).
          if s > unat vb then Some (Pointer_base p (s - unat vb) off) else None),
        if vb = 8 then BVShLPullConcat B 8 a else None,
        if vb = 16 then BVShLPullConcat B 16 a else None,
        if vb = 24 then BVShLPullConcat B 24 a else None,
        if vb = 8 then BVShLConstant B 8 a else None,
        if vb = 16 then BVShLConstant B 16 a else None,
        if vb = 24 then BVShLConstant B 24 a else None])"

definition bvshl :: "bvexpr \<Rightarrow> bvexpr \<Rightarrow> bvexpr" where
  "bvshl a b =
     (case Option.bind (cast_constant b) (bvshl_rule a) of
        Some r \<Rightarrow> r | None \<Rightarrow> Bvbinary Bvshiftl a b)"

text \<open>
  A base address that has been shifted right loses its low bits, so shifting it back is exact
  only if these were zero.
\<close>

definition aligned :: "valuation \<Rightarrow> bvexpr \<Rightarrow> bool" where
  "aligned \<rho> a = (case a of
     Pointer_base p s off \<Rightarrow> take_bit s (base \<rho> (declname p) + bveval \<rho> off) = 0 | _ \<Rightarrow> True)"

lemma shl_slices:
  fixes x :: int
  shows "S \<le> B \<Longrightarrow> push_bit S (take_bit (B - S) x) = take_bit B (push_bit S x)"
    and "S \<le> B \<Longrightarrow> take_bit (B - S) y = y \<Longrightarrow> push_bit S y = take_bit B (push_bit S (push_bit (B - S) x OR y))"
  by (rule bit_eqI; auto simp: bit_simps dest: bit_take_bit_self)+

lemma drop_push_aligned:
  fixes x :: int
  assumes "take_bit s x = 0" "v \<le> s"
  shows "push_bit v (drop_bit s x) = drop_bit (s - v) x"
proof (rule bit_eqI)
  fix i
  have "\<not> bit (take_bit s x) j" for j using assms(1) by simp
  then have "bit x j \<Longrightarrow> s \<le> j" for j by (auto simp: bit_take_bit_iff not_less)
  then show "bit (push_bit v (drop_bit s x)) i = bit (drop_bit (s - v) x) i"
    using assms(2) by (cases "v \<le> i") (fastforce simp: bit_simps)+
qed

lemma take_bit_push_take: "take_bit w (push_bit k (take_bit w x)) = take_bit w (push_bit k x)" for x :: int
  by (rule bit_eqI) (auto simp: bit_simps)

lemma implements_BVShLPullConcat:
  assumes "BVShLPullConcat B S a = Some r" "bwt a" "width a = B" "0 < S" "S \<le> 64" "bveval \<rho> b = int S"
  shows "implements \<rho> r (Bvbinary Bvshiftl a b)"
proof -
  from assms(1) obtain x y where "a = Concatenation x y" "width y = B - S" "S < B" "r = bvconcat y (bvconstant S 0)"
    by (auto simp: BVShLPullConcat_def split: if_splits elim!: cast_elims)
  then show ?thesis using assms(2-) shl_slices(2) [of S B "bveval \<rho> y" "bveval \<rho> x"] bveval_take_bit [of y \<rho>]
    by (simp add: implements_def bvconcat_props del: bveval_take_bit)
qed

lemma implements_BVShLConstant:
  assumes "BVShLConstant B S a = Some r" "bwt a" "width a = B" "0 < S" "S \<le> 64" "bveval \<rho> b = int S"
  shows "implements \<rho> r (Bvbinary Bvshiftl a b)"
proof -
  from assms(1) have S: "S < B" and r: "r = bvconcat (bvextract (B - S - 1) 0 a) (bvconstant S 0)"
    by (auto simp: BVShLConstant_def split: if_splits)
  have "B - S - 1 < width a" "B - S - 1 - 0 + 1 = B - S" using S assms(3) by linarith+
  then show ?thesis using assms(2-) S shl_slices(1) [of S B "bveval \<rho> a"]
    by (simp add: implements_def r bvconcat_props bvextract_props)
qed

lemma uint_shl64: "unat vb < 64 \<Longrightarrow> B \<le> 64 \<Longrightarrow>
  take_bit B (uint (shl64 va vb)) = take_bit B (push_bit (unat vb) (uint va))"
  by (simp add: shl64_def uint_push_bit_take)

lemma uint_shr64: "unat vb < 64 \<Longrightarrow> uint (shr64 va vb) = drop_bit (unat vb) (uint va)"
  by (simp add: shr64_def uint_drop_bit_eq)

lemma bvshl_rule_cases:
  assumes "bvshl_rule a vb = Some r"
  obtains W va where "a = Bitvector W va" "r = bvconstant (width a) (shl64 va vb)"
    | p s off where "a = Pointer_base p s off" "s = unat vb" "r = Pointer p off"
    | p s off where "a = Pointer_base p s off" "s > unat vb" "r = Pointer_base p (s - unat vb) off"
    | S where "BVShLPullConcat (width a) S a = Some r" "unat vb = S" "0 < S" "S \<le> 64"
    | S where "BVShLConstant (width a) S a = Some r" "unat vb = S" "0 < S" "S \<le> 64"
  using first_some_mem [OF assms [unfolded bvshl_rule_def Let_def]]
  by (auto simp: bind_eq_Some_conv eq_commute [of "Some r"] split: if_splits elim!: cast_elims simp del: width.simps)

lemma implements_bvshl:
  assumes "bwt a" "bwt b" "width a = width b" "aligned \<rho> a"
    "\<And>v. cast_constant b = Some v \<Longrightarrow> unat v < 64"
  shows "implements \<rho> (bvshl a b) (Bvbinary Bvshiftl a b)"
proof (cases "Option.bind (cast_constant b) (bvshl_rule a)")
  case None
  then show ?thesis using assms by (simp add: bvshl_def implements_def)
next
  case (Some r)
  then obtain W vb where b: "b = Bitvector W vb" and rule: "bvshl_rule a vb = Some r" and lt: "unat vb < 64"
    using assms(5) by (fastforce simp: bind_eq_Some_conv elim!: cast_constant_SomeE)
  have vb: "bveval \<rho> b = uint vb" using assms(2) b bveval_const by simp
  then have nb: "nat (bveval \<rho> b) = unat vb" "bveval \<rho> b = int (unat vb)" by simp_all
  from rule have "implements \<rho> r (Bvbinary Bvshiftl a b)"
  proof (cases rule: bvshl_rule_cases)
    case (1 W' va)
    then show ?thesis using assms(1) lt nb bveval_const [of W' va \<rho>]
      by (auto intro!: implements_const simp: uint_shl64 simp del: bveval.simps(7))
  next
    case (2 p s off)
    then show ?thesis using assms(1,4) nb drop_push_aligned [of s _ s] 
      by (simp add: implements_def aligned_def take_bit_push_take)
  next
    case (3 p s off)
    then show ?thesis using assms(1,4) nb drop_push_aligned [of s _ "unat vb"] 
      by (simp add: implements_def aligned_def take_bit_push_take)
  qed (use assms(1) nb in \<open>auto intro: implements_BVShLPullConcat implements_BVShLConstant\<close>)
  then show ?thesis using Some by (simp add: bvshl_def)
qed

text \<open>Alignment and the amount matter for the value only.\<close>

lemma bvshl_typed:
  assumes "bwt a" "bwt b" "width a = width b"
  shows "bwt (bvshl a b) \<and> width (bvshl a b) = width a"
proof (cases "Option.bind (cast_constant b) (bvshl_rule a)")
  case (Some r)
  then obtain W vb where b: "b = Bitvector W vb" and rule: "bvshl_rule a vb = Some r"
    by (auto simp: bind_eq_Some_conv elim!: cast_constant_SomeE)
  have ev: "bveval \<rho> b = int (unat vb)" for \<rho> using assms(2) b bveval_const [of W vb] by simp
  from rule have "bwt r \<and> width r = width a"
  proof (cases rule: bvshl_rule_cases)
    case (4 S)
    then show ?thesis using implements_BVShLPullConcat [OF 4(1) assms(1) refl 4(3,4) ev [unfolded 4(2)]]
      by (auto simp: implements_def)
  next
    case (5 S)
    then show ?thesis using implements_BVShLConstant [OF 5(1) assms(1) refl 5(3,4) ev [unfolded 5(2)]]
      by (auto simp: implements_def)
  qed (use assms(1) in auto)
  then show ?thesis using Some by (simp add: bvshl_def)
qed (use assms in \<open>simp add: bvshl_def\<close>)

subsection \<open>Logical right shift\<close>

text \<open>
  \<open>BVLShRPullConcat<B,S,X>\<close> has two specialisations.  The first is a result (\<open>Inl\<close>); the second
  calls \<open>bvlshr\<close> on the lower part and is given as the parts of its concatenation (\<open>Inr\<close>).
\<close>

definition BVLShRPullConcat :: "nat \<Rightarrow> nat \<Rightarrow> nat \<Rightarrow> bvexpr \<Rightarrow> (bvexpr + bvexpr \<times> bvexpr) option" where
  "BVLShRPullConcat B S X a =
     (if X \<le> 64 \<and> B = S + X \<and> B > S \<and> B > X then
        map_option (\<lambda>(x, y). Inl (bvextend S x)) (cast_concat X (B - X) a)
      else if X \<le> 64 \<and> B > S + X \<and> B > S \<and> B > X then
        map_option Inr (cast_concat X (B - X) a)
      else None)"

definition BVLShRConstant :: "nat \<Rightarrow> nat \<Rightarrow> bvexpr \<Rightarrow> bvexpr option" where
  "BVLShRConstant B S a = (if S < B then Some (bvextend S (bvextract (B - 1) S a)) else None)"

definition bvlshr_pull :: "bvexpr \<Rightarrow> u64 \<Rightarrow> (bvexpr + bvexpr \<times> bvexpr) option" where
  "bvlshr_pull a vb =
     first_some [if vb = 8 then BVLShRPullConcat (width a) 8 8 a else None,
       if vb = 16 then BVLShRPullConcat (width a) 16 8 a else None,
       if vb = 24 then BVLShRPullConcat (width a) 24 8 a else None]"

definition bvlshr_constant :: "bvexpr \<Rightarrow> u64 \<Rightarrow> bvexpr option" where
  "bvlshr_constant a vb =
     first_some [if vb = 8 then BVLShRConstant (width a) 8 a else None,
       if vb = 16 then BVLShRConstant (width a) 16 a else None,
       if vb = 24 then BVLShRConstant (width a) 24 a else None]"

lemma bvlshr_pull_cases:
  assumes "bvlshr_pull a vb = Some r"
  obtains S x y where "a = Concatenation x y" "width x = 8" "width y = S" "vb = of_nat S" "unat vb = S" "S \<in> {8, 16, 24}"
      "r = Inl (bvextend S x)"
    | S x y where "a = Concatenation x y" "width x = 8" "S < width y" "vb = of_nat S" "unat vb = S" "S \<in> {8, 16, 24}"
      "r = Inr (x, y)"
proof -
  from first_some_mem [OF assms [unfolded bvlshr_pull_def]] obtain S where S: "vb = of_nat S" "unat vb = S" "S \<in> {8, 16, 24}"
    and p: "BVLShRPullConcat (width a) S 8 a = Some r"
    by (auto simp: eq_commute [of "Some r"] split: if_splits)
  from p obtain x y where a: "a = Concatenation x y" "width x = 8"
      and "width a = S + 8 \<and> r = Inl (bvextend S x) \<or> width a > S + 8 \<and> r = Inr (x, y)"
    by (auto simp: BVLShRPullConcat_def split: if_splits elim!: cast_elims simp del: width.simps)
  then show thesis using S that by auto
qed

text \<open>\<open>S\<close> below is the byte count that the constant operand has when a helper applies.\<close>

function bvlshr :: "bvexpr \<Rightarrow> bvexpr \<Rightarrow> bvexpr" where
  "bvlshr a b =
     (case cast_constant b of
        None \<Rightarrow> Bvbinary Bvlshiftr a b
      | Some vb \<Rightarrow> (case cast_constant a of
          Some va \<Rightarrow> bvconstant (width a) (shr64 va vb)
        | None \<Rightarrow> (case bvlshr_pull a vb of
            Some (Inl r) \<Rightarrow> r
          | Some (Inr (x, y)) \<Rightarrow>
              (let S = unat vb in
               bvextend S (bvconcat x (bvextract (width y - S - 1) 0 (bvlshr y (bvconstant (width y) vb)))))
          | None \<Rightarrow> (case bvlshr_constant a vb of
              Some r \<Rightarrow> r
            | None \<Rightarrow> Bvbinary Bvlshiftr a b))))"
  by pat_completeness auto
termination
  by (relation "measure (\<lambda>(a, b). width a)") (auto elim!: bvlshr_pull_cases)

declare bvlshr.simps [simp del]

lemma shr_slice:
  fixes x y :: int
  assumes "S \<le> w" "take_bit w y = y"
  shows "drop_bit S (push_bit w x OR y) = push_bit (w - S) x OR take_bit (w - S) (drop_bit S y)"
proof (rule bit_eqI)
  fix i
  have "w \<le> S + i \<Longrightarrow> S + i - w = i - (w - S)" using assms(1) by simp
  then show "bit (drop_bit S (push_bit w x OR y)) i = bit (push_bit (w - S) x OR take_bit (w - S) (drop_bit S y)) i"
    using assms(1) bit_take_bit_self [OF assms(2), of "S + i"] by (auto simp: bit_simps)
qed

text \<open>The cases of \<open>bvlshr\<close> for an operand \<open>b\<close> that shifts by \<open>S\<close>.\<close>

lemma implements_extend_slice:
  assumes "implements \<rho> r e" "0 < S" "S \<le> 64" "width a = S + width e" "bveval \<rho> e = drop_bit S (bveval \<rho> a)"
    "nat (bveval \<rho> b) = S"
  shows "implements \<rho> (bvextend S r) (Bvbinary Bvlshiftr a b)"
proof -
  have "take_bit (width a) (drop_bit S (bveval \<rho> a)) = drop_bit S (bveval \<rho> a)"
    by (rule bit_eqI) (auto simp: bit_simps dest: bit_bveval)
  then show ?thesis using assms by (simp add: implements_def extend_props)
qed

lemma implements_BVLShRConstant:
  assumes "BVLShRConstant (width a) S a = Some r" "bwt a" "0 < S" "S \<le> 64" "nat (bveval \<rho> b) = S"
  shows "implements \<rho> r (Bvbinary Bvlshiftr a b)"
proof -
  from assms(1) have S: "S < width a" and r: "r = bvextend S (bvextract (width a - 1) S a)"
    by (auto simp: BVLShRConstant_def split: if_splits)
  have "take_bit (width a - S) (drop_bit S (bveval \<rho> a)) = drop_bit S (bveval \<rho> a)"
    by (rule bit_eqI) (auto simp: bit_simps dest: bit_bveval)
  moreover have "width a - 1 - S + 1 = width a - S" using S by simp
  ultimately show ?thesis unfolding r
    using implements_bvextract [OF assms(2), of S "width a - 1" \<rho>] S assms(3-5)
    by (intro implements_extend_slice [of \<rho> _ "Extraction (width a - 1) S a"]) simp_all
qed

lemma implements_bvlshr:
  assumes "bwt a" "bwt b" "width a = width b" "\<And>v. cast_constant b = Some v \<Longrightarrow> unat v < 64"
  shows "implements \<rho> (bvlshr a b) (Bvbinary Bvlshiftr a b)"
  using assms
proof (induction a b rule: bvlshr.induct)
  case shr: (1 a b)
  show ?case
  proof (cases "cast_constant b")
    case None
    then show ?thesis using shr.prems by (simp add: bvlshr.simps implements_def)
  next
    case (Some vb)
    then obtain W where b: "b = Bitvector W vb" by (auto elim: cast_constant_SomeE)
    have lt: "unat vb < 64" using shr.prems(4) Some by simp
    have "bveval \<rho> b = uint vb" using shr.prems(2) b bveval_const [of W vb] by simp
    then have nb: "nat (bveval \<rho> b) = unat vb" by simp
    consider va where "cast_constant a = Some va" | r where "cast_constant a = None" "bvlshr_pull a vb = Some r"
      | r where "cast_constant a = None" "bvlshr_pull a vb = None" "bvlshr_constant a vb = Some r"
      | "cast_constant a = None" "bvlshr_pull a vb = None" "bvlshr_constant a vb = None"
      by (cases "cast_constant a"; cases "bvlshr_pull a vb"; cases "bvlshr_constant a vb") auto
    then show ?thesis
    proof cases
      case (1 va)
      then show ?thesis using Some shr.prems nb lt
        by (auto simp: bvlshr.simps uint_shr64 simp flip: unsigned_take_bit_eq intro!: implements_const elim!: cast_constant_SomeE)
    next
      case (2 r)
      from 2(2) show ?thesis
      proof (cases rule: bvlshr_pull_cases)
        case (1 S x y)
        then have e: "bvlshr a b = bvextend S x" using Some 2 by (simp add: bvlshr.simps)
        have v: "bveval \<rho> x = drop_bit S (bveval \<rho> a)"
          using 1 shr_slice [of S "width y" "bveval \<rho> y" "bveval \<rho> x"] bveval_take_bit [of y \<rho>] by simp
        show ?thesis unfolding e
          by (rule implements_extend_slice [OF _ _ _ _ v]) (use 1 nb shr.prems(1) in \<open>auto simp: implements_def\<close>)
      next
        case (2 S x y)
        let ?c = "bvconstant (width y) vb"
        let ?z = "bvextract (width y - S - 1) 0 (bvlshr y ?c)"
        have y: "bwt y" "bwt x" and S: "0 < S" "S < width y" "S \<le> 24" using shr.prems(1) 2 by auto
        have W: "width y \<le> 64" using shr.prems(2,3) b 2(1) by simp
        have "int S < 2 ^ width y"
          using less_exp [of S] power_strict_increasing [OF S(2), of "2 :: nat"]
          by (metis of_nat_less_iff of_nat_numeral of_nat_power less_trans one_less_numeral_iff semiring_norm(76))
        then have "take_bit (width y) (int S) = int S" by (simp only: take_bit_int_eq_self of_nat_0_le_iff)
        moreover have "uint vb = int S" by (simp flip: 2(5))
        ultimately have c: "bveval \<rho> ?c = int S" using W by simp
        have "unat v < 64" if "cast_constant ?c = Some v" for v
        proof -
          from that obtain B where v: "?c = Bitvector B v" by (rule cast_constant_SomeE)
          moreover have "bwt ?c" using S W by simp
          ultimately have "bveval \<rho> ?c = uint v" using bveval_const by metis
          then have "unat v = S" using c by (metis nat_int nat_uint_eq)
          then show ?thesis using S(3) by simp
        qed
        then have r: "implements \<rho> (bvlshr y ?c) (Bvbinary Bvlshiftr y ?c)"
          using shr.IH [OF Some \<open>cast_constant a = None\<close> \<open>bvlshr_pull a vb = Some r\<close> 2(7) refl refl] y W S by simp
        have b: "width y - S - 1 < width (bvlshr y ?c)" "width y - S - 1 - 0 + 1 = width y - S"
          using r S by (auto simp: implements_def)
        have z: "bwt ?z" "width ?z = width y - S" 
          "bveval \<rho> ?z = take_bit (width y - S) (drop_bit S (bveval \<rho> y))"
          using bvextract_props [OF _ _ b(1), of 0] b(2) r c S by (simp_all add: implements_def)
        have e: "bvlshr a b = bvextend S (bvconcat x ?z)"
          unfolding bvlshr.simps [of a b]
          using 2(5,7) Some \<open>cast_constant a = None\<close> \<open>bvlshr_pull a vb = Some r\<close> by simp
        have v: "bveval \<rho> (Concatenation x ?z) = drop_bit S (bveval \<rho> a)"
          using 2(1) S z shr_slice [of S "width y" "bveval \<rho> y" "bveval \<rho> x"] bveval_take_bit [of y \<rho>] by simp
        show ?thesis unfolding e
          by (rule implements_extend_slice [OF implements_bvconcat [OF y(2) z(1)] _ _ _ v])
            (use 2 S z(2) nb in auto)
      qed
    next
      case (3 r)
      from 3(3) have "BVLShRConstant (width a) (unat vb) a = Some r \<and> 0 < unat vb"
        using first_some_mem [of _ r] by (fastforce simp: bvlshr_constant_def split: if_splits)
      then show ?thesis
        using 3 Some nb lt shr.prems(1) implements_BVLShRConstant [of a "unat vb" r \<rho> b] by (simp add: bvlshr.simps)
    next
      case 4
      then show ?thesis using Some shr.prems by (simp add: bvlshr.simps implements_def)
    qed
  qed
qed

subsection \<open>Arithmetic shift and rotations\<close>

definition bvashr :: "bvexpr \<Rightarrow> bvexpr \<Rightarrow> bvexpr" where
  "bvashr a b = Bvbinary Bvashiftr a b"

definition bvrotl :: "bvexpr \<Rightarrow> nat \<Rightarrow> bvexpr" where
  "bvrotl e i = Bvrotation Bvrotationl e i"

definition bvrotr :: "bvexpr \<Rightarrow> nat \<Rightarrow> bvexpr" where
  "bvrotr e i = Bvrotation Bvrotationr e i"

definition bvmul :: "bvexpr \<Rightarrow> bvexpr \<Rightarrow> bvexpr" where
  "bvmul a b = Bvbinary Bvmultiplication a b"

end
