(* ===== verification/Expr_Arith.thy ===== *)
theory Expr_Arith
  imports Expr_Shift
begin

text \<open>
  The additions and subtractions of \<open>expr.hpp\<close>, which do pointer arithmetic on the offset of a
  pointer, and the carry bits.
\<close>

subsection \<open>Definitions\<close>

definition BVAddConstant :: "nat \<Rightarrow> bvexpr \<Rightarrow> bvexpr \<Rightarrow> bvexpr option" where
  "BVAddConstant B a b =
     (if B \<le> 64 then
        (let ca = cast_constant a; cb = cast_constant b in first_some
          [Option.bind ca (\<lambda>va. map_option (\<lambda>vb. bvconstant B (va + vb)) cb),
           Option.bind ca (\<lambda>va. if va = 0 then Some b else None),
           Option.bind cb (\<lambda>vb. if vb = 0 then Some a else None)])
      else None)"

text \<open>
  The helpers of \<open>bvadd\<close> that call \<open>bvadd\<close> again: the node that they build, with the operands
  of the calls inside.
\<close>

datatype add_call =
    AddPointer avar "bvexpr \<times> bvexpr"
  | AddPointerExt avar "bvexpr \<times> bvexpr" "bvexpr \<times> bvexpr"
  | AddPointerBase avar nat "bvexpr \<times> bvexpr"
  | AddPullExtract nat nat "bvexpr \<times> bvexpr"

definition BVAddPointer :: "nat \<Rightarrow> nat \<Rightarrow> bvexpr \<Rightarrow> bvexpr \<Rightarrow> add_call option" where
  "BVAddPointer B V a b =
     (case (cast_ptr B V a, cast_ptr B V b) of
        (Some (p, off), None) \<Rightarrow> Some (AddPointer p (off, b))
      | (None, Some (p, off)) \<Rightarrow> Some (AddPointer p (a, off))
      | _ \<Rightarrow> None)"

definition BVAddPointerExt :: "nat \<Rightarrow> nat \<Rightarrow> nat \<Rightarrow> bvexpr \<Rightarrow> bvexpr \<Rightarrow> add_call option" where
  "BVAddPointerExt B V E a b =
     (if B > E then
        (case (cast_ptr_ext (B - E) V E a, cast_ptr_ext (B - E) V E b) of
           (Some (p, off, ext), None) \<Rightarrow>
             Some (AddPointerExt p (off, bvextract (B - E - 1) 0 b) (ext, bvextract (B - 1) (B - E) b))
         | (None, Some (p, off, ext)) \<Rightarrow>
             Some (AddPointerExt p (bvextract (B - E - 1) 0 a, off) (bvextract (B - 1) (B - E) a, ext))
         | _ \<Rightarrow> None)
      else None)"

definition BVAddPointerBase :: "nat \<Rightarrow> nat \<Rightarrow> bvexpr \<Rightarrow> bvexpr \<Rightarrow> add_call option" where
  "BVAddPointerBase B V a b =
     (if B = 32 then
        (case (cast_ptr_base B V a, cast_ptr_base B V b) of
           (Some (p, s, off), None) \<Rightarrow> Some (AddPointerBase p s (off, bvshl b (bvconstant B (of_nat s))))
         | (None, Some (p, s, off)) \<Rightarrow> Some (AddPointerBase p s (bvshl a (bvconstant B (of_nat s)), off))
         | _ \<Rightarrow> None)
      else None)"

definition BVAddPullExtract :: "nat \<Rightarrow> nat \<Rightarrow> bvexpr \<Rightarrow> bvexpr \<Rightarrow> add_call option" where
  "BVAddPullExtract B X a e =
     (if B + X \<le> 65 \<and> B \<le> 65 \<and> X \<le> 65
      then Some (AddPullExtract (B + X - 1) X (bvconcat a (bvconstant 32 0), e)) else None)"

definition bvadd_call :: "bvexpr \<Rightarrow> bvexpr \<Rightarrow> add_call option" where
  "bvadd_call a b =
     (let B = width a in first_some
       [BVAddPointer B 8 a b,
        BVAddPointer B 32 a b,
        BVAddPointerExt B 8 32 a b,
        BVAddPointerExt B 32 32 a b,
        BVAddPointerBase B 8 a b,
        Option.bind (cast_extract (B + 32 - 1) 32 (B + 32) b) (BVAddPullExtract B 32 a),
        Option.bind (cast_extract (B + 32 - 1) 32 (B + 32) a) (BVAddPullExtract B 32 b)])"

subsection \<open>Termination of bvadd\<close>

text \<open>
  Every call of \<open>bvadd\<close> inside \<open>bvadd\<close> has a pointer less in its operands, or is 32 bits wider;
  the latter stops at 65 bits.
\<close>

primrec pointers :: "bvexpr \<Rightarrow> nat" where
  "pointers (Undefined w i n e) = 0"
| "pointers (Bitvector w v) = 0"
| "pointers (Bvvariable w n) = 0"
| "pointers (BvIte l a b) = 0"
| "pointers (Extraction S E e) = pointers e"
| "pointers (Bvnegation e) = 0"
| "pointers (Concatenation a b) = pointers a + pointers b"
| "pointers (Bvbinary f a b) = 0"
| "pointers (Bvbit f a b) = 0"
| "pointers (Bvrotation r e i) = 0"
| "pointers (Pointer p off) = 1 + pointers off"
| "pointers (Pointer_ext p off ext) = 1 + pointers off + pointers ext"
| "pointers (Pointer_base p s off) = 1 + pointers off"
| "pointers (Selection a off) = 0"

primrec rpointers :: "req \<Rightarrow> nat" where
  "rpointers (Done e) = pointers e"
| "rpointers (Extract S E q) = rpointers q"
| "rpointers (Concat p q) = rpointers p + rpointers q"

lemma pointers_bvconstant [simp]: "pointers (bvconstant B v) = 0"
  by (simp add: bvconstant_def)

lemma pointers_extract_rule: "extract_rule S E e = Some q \<Longrightarrow> rpointers q \<le> pointers e"
  by (erule extract_rule_cases) (auto elim!: extract_helper_elims)

lemma pointers_concat_rule: "concat_rule a b = Some q \<Longrightarrow> rpointers q \<le> pointers a + pointers b"
  by (erule concat_rule_cases)
    (auto simp: ConcatPointer_def ConcatConstants_def split: if_splits option.splits
      elim!: cast_elims ConcatMergeConstants_SomeE ConcatPullExtract_SomeE ConcatPullConcat_SomeE)

lemma pointers_run: "run q = Some e \<Longrightarrow> pointers e \<le> rpointers q"
proof (rule run.raw_induct [where P = "\<lambda>q e. pointers e \<le> rpointers q"])
  fix run' q e
  assume IH: "\<And>q e. run' q = Some e \<Longrightarrow> pointers e \<le> rpointers q"
    and run: "(case q of
     Done e \<Rightarrow> Some e
   | Extract S E p \<Rightarrow> Option.bind (run' p) (\<lambda>e.
       case extract_rule S E e of None \<Rightarrow> Some (Extraction S E e) | Some r \<Rightarrow> run' r)
   | Concat p r \<Rightarrow> Option.bind (run' p) (\<lambda>a. Option.bind (run' r) (\<lambda>b.
       case concat_rule a b of None \<Rightarrow> Some (Concatenation a b) | Some s \<Rightarrow> run' s))) = Some e"
  show "pointers e \<le> rpointers q"
  proof (cases q)
    case (Extract S E p)
    with run obtain x where x: "run' p = Some x"
      and r: "(case extract_rule S E x of None \<Rightarrow> Some (Extraction S E x) | Some r \<Rightarrow> run' r) = Some e"
      by (auto simp: bind_eq_Some_conv)
    from r have "pointers e \<le> pointers x"
      using pointers_extract_rule [of S E x] IH by (fastforce split: option.splits)
    then show ?thesis using IH [OF x] Extract by simp
  next
    case (Concat p r)
    with run show ?thesis
      by (fastforce simp: bind_eq_Some_conv split: option.splits dest!: IH dest: pointers_concat_rule)
  qed (use run in auto)
qed

lemma pointers_bvextract: "bwt e \<Longrightarrow> E \<le> S \<Longrightarrow> S < width e \<Longrightarrow> pointers (bvextract S E e) \<le> pointers e"
  using extract_total [of e E S] pointers_run [of "Extract S E (Done e)"] by (auto simp: bvextract_def)

lemma pointers_bvconcat: "bwt a \<Longrightarrow> bwt b \<Longrightarrow> pointers (bvconcat a b) \<le> pointers a + pointers b"
  using concat_total [of a b] pointers_run [of "Concat (Done a) (Done b)"] by (auto simp: bvconcat_def)

lemma pointers_bvshl:
  assumes "bwt a"
  shows "pointers (bvshl a b) \<le> pointers a"
proof (cases "Option.bind (cast_constant b) (bvshl_rule a)")
  case (Some r)
  then obtain vb where "bvshl_rule a vb = Some r" by (auto simp: bind_eq_Some_conv)
  then have "pointers r \<le> pointers a"
  proof (cases rule: bvshl_rule_cases)
    case (4 S)
    then obtain x y where "a = Concatenation x y" "r = bvconcat y (bvconstant S 0)"
      by (auto simp: BVShLPullConcat_def split: if_splits elim!: cast_elims)
    then show ?thesis using assms 4 pointers_bvconcat [of y "bvconstant S 0"] by simp
  next
    case (5 S)
    then have S: "S < width a" "r = bvconcat (bvextract (width a - S - 1) 0 a) (bvconstant S 0)"
      by (auto simp: BVShLConstant_def split: if_splits)
    moreover have l: "width a - S - 1 < width a" using S by simp
    ultimately show ?thesis
      using 5(3,4) pointers_bvextract [OF assms _ l, of 0] bvextract_props(1) [OF assms _ l, of 0]
        pointers_bvconcat [of "bvextract (width a - S - 1) 0 a" "bvconstant S 0"] by simp
  qed (auto split: if_splits)
  then show ?thesis using Some by (simp add: bvshl_def)
qed (simp add: bvshl_def)

text \<open>The operands of the inner calls.\<close>

primrec add_calls :: "add_call \<Rightarrow> (bvexpr \<times> bvexpr) set" where
  "add_calls (AddPointer p xy) = {xy}"
| "add_calls (AddPointerExt p xy zw) = {xy, zw}"
| "add_calls (AddPointerBase p s xy) = {xy}"
| "add_calls (AddPullExtract S E xy) = {xy}"

lemma bvadd_call_cases:
  assumes "bvadd_call a b = Some c"
  obtains V where "BVAddPointer (width a) V a b = Some c" "V = 8 \<or> V = 32"
    | V where "BVAddPointerExt (width a) V 32 a b = Some c" "V = 8 \<or> V = 32"
    | "BVAddPointerBase (width a) 8 a b = Some c"
    | S E e where "b = Extraction S E e" "S = width a + 31" "E = 32" "width e = width a + 32" "width a \<le> 33"
        "c = AddPullExtract (width a + 31) 32 (bvconcat a (bvconstant 32 0), e)"
    | S E e where "a = Extraction S E e" "S = width a + 31" "E = 32" "width e = width a + 32" "width a \<le> 33"
        "c = AddPullExtract (width a + 31) 32 (bvconcat b (bvconstant 32 0), e)"
  using first_some_mem [OF assms [unfolded bvadd_call_def Let_def]]
  by (auto simp: BVAddPullExtract_def bind_eq_Some_conv eq_commute [of "Some c"] simp del: width.simps
      split: if_splits elim!: cast_elims)

text \<open>The two parts of an operand that is added to a \<open>pointer_ext\<close>.\<close>

lemma ext_parts:
  assumes "bwt b" "width b = W" "32 < W"
  shows "bwt (bvextract (W - 33) 0 b)" "width (bvextract (W - 33) 0 b) = W - 32"
    "bveval \<rho> (bvextract (W - 33) 0 b) = take_bit (W - 32) (bveval \<rho> b)"
    "pointers (bvextract (W - 33) 0 b) \<le> pointers b"
    "bwt (bvextract (W - 1) (W - 32) b)" "width (bvextract (W - 1) (W - 32) b) = 32"
    "bveval \<rho> (bvextract (W - 1) (W - 32) b) = take_bit 32 (drop_bit (W - 32) (bveval \<rho> b))"
    "pointers (bvextract (W - 1) (W - 32) b) \<le> pointers b"
proof -
  have l: "0 \<le> W - 33" "W - 33 < width b" and h: "W - 32 \<le> W - 1" "W - 1 < width b"
    and e: "W - 33 - 0 + 1 = W - 32" "W - 1 - (W - 32) + 1 = 32" using assms(2,3) by linarith+
  show "bwt (bvextract (W - 33) 0 b)" "width (bvextract (W - 33) 0 b) = W - 32"
    "bveval \<rho> (bvextract (W - 33) 0 b) = take_bit (W - 32) (bveval \<rho> b)"
    using bvextract_props [OF assms(1) l] unfolding e by simp_all
  show "bwt (bvextract (W - 1) (W - 32) b)" "width (bvextract (W - 1) (W - 32) b) = 32"
    "bveval \<rho> (bvextract (W - 1) (W - 32) b) = take_bit 32 (drop_bit (W - 32) (bveval \<rho> b))"
    using bvextract_props [OF assms(1) h] by (simp_all only: e)
  show "pointers (bvextract (W - 33) 0 b) \<le> pointers b" "pointers (bvextract (W - 1) (W - 32) b) \<le> pointers b"
    using pointers_bvextract [OF assms(1)] l h by simp_all
qed

lemma bvadd_ext_cases:
  assumes "BVAddPointerExt (width a) V 32 a b = Some c"
  obtains p off ext where "a = Pointer_ext p off ext" "width ext = 32" "32 < width a" "avar_A p = width a - 32"
      "c = AddPointerExt p (off, bvextract (width a - 33) 0 b) (ext, bvextract (width a - 1) (width a - 32) b)"
    | p off ext where "b = Pointer_ext p off ext" "width ext = 32" "32 < width a" "avar_A p = width a - 32"
      "c = AddPointerExt p (bvextract (width a - 33) 0 a, off) (bvextract (width a - 1) (width a - 32) a, ext)"
  using assms
  by (auto simp: BVAddPointerExt_def split: option.splits if_splits elim!: cast_elims simp del: width.simps)

lemma bvadd_base_cases:
  assumes "BVAddPointerBase W V a b = Some c"
  obtains p s off where "a = Pointer_base p s off" "avar_A p = 32" "W = 32"
      "c = AddPointerBase p s (off, bvshl b (bvconstant 32 (of_nat s)))"
    | p s off where "b = Pointer_base p s off" "avar_A p = 32" "W = 32"
      "c = AddPointerBase p s (bvshl a (bvconstant 32 (of_nat s)), off)"
  using assms
  by (auto simp: BVAddPointerBase_def split: option.splits if_splits elim!: cast_elims simp del: width.simps)

lemma bvadd_pointer_cases:
  assumes "BVAddPointer W V a b = Some c"
  obtains p off where "a = Pointer p off" "c = AddPointer p (off, b)"
    | p off where "b = Pointer p off" "c = AddPointer p (a, off)"
  using assms
  by (auto simp: BVAddPointer_def split: option.splits if_splits elim!: cast_elims simp del: width.simps)

definition add_descends :: "bvexpr \<Rightarrow> bvexpr \<Rightarrow> bvexpr \<times> bvexpr \<Rightarrow> bool" where
  "add_descends a b xy = (case xy of (x, y) \<Rightarrow> typed2 x y \<and> (pointers x + pointers y < pointers a + pointers b
    \<or> pointers x + pointers y \<le> pointers a + pointers b \<and> width a < 65 \<and> width a < width x))"

lemma bvadd_call_descends:
  assumes "bvadd_call a b = Some c" "typed2 a b"
  shows "\<forall>xy \<in> add_calls c. add_descends a b xy"
proof -
  have t: "bwt a" "bwt b" "width a = width b" using assms(2) by (simp_all add: typed2_def)
  from assms(1) show ?thesis
  proof (cases rule: bvadd_call_cases)
    case (1 V)
    from 1(1) t show ?thesis
      by (cases rule: bvadd_pointer_cases) (auto simp: add_descends_def typed2_def)
  next
    case (2 V)
    from 2(1) show ?thesis
    proof (cases rule: bvadd_ext_cases)
      case (1 p off ext)
      have "bwt off" "bwt ext" "width off = avar_A p" "pointers a = 1 + pointers off + pointers ext"
        using t(1) 1(1) by simp_all
      then show ?thesis using 1(2,4,5) ext_parts [OF t(2) t(3) [symmetric] 1(3)]
        by (simp add: add_descends_def typed2_def)
    next
      case (2 p off ext)
      have "bwt off" "bwt ext" "width off = avar_A p" "pointers b = 1 + pointers off + pointers ext"
        using t(2) 2(1) by simp_all
      then show ?thesis using 2(2,4,5) ext_parts [OF t(1) refl 2(3)]
        by (simp add: add_descends_def typed2_def)
    qed
  next
    case 3
    then show ?thesis
    proof (cases rule: bvadd_base_cases)
      case (1 p s off)
      have "bwt off" "width off = avar_A p" "pointers a = 1 + pointers off" using t(1) 1(1) by simp_all
      then show ?thesis using 1(2-4) t(2,3) bvshl_typed [of b "bvconstant 32 (of_nat s)"] pointers_bvshl [OF t(2), of "bvconstant 32 (of_nat s)"]
        by (simp add: add_descends_def typed2_def)
    next
      case (2 p s off)
      have "bwt off" "width off = avar_A p" "pointers b = 1 + pointers off" using t(2) 2(1) by simp_all
      then show ?thesis using 2(2-4) t(1,3) bvshl_typed [of a "bvconstant 32 (of_nat s)"] pointers_bvshl [OF t(1), of "bvconstant 32 (of_nat s)"]
        by (simp add: add_descends_def typed2_def)
    qed
  next
    case (4 S E e)
    have "bwt e" "pointers b = pointers e" using t(2) 4(1) by simp_all
    then show ?thesis using t 4(4-6) bvconcat_props [of a "bvconstant 32 0"] pointers_bvconcat [of a "bvconstant 32 0"]
      by (auto simp: typed2_def add_descends_def)
  next
    case (5 S E e)
    have "bwt e" "pointers a = pointers e" using t(1) 5(1) by simp_all
    then show ?thesis using t 5(4-6) bvconcat_props [of b "bvconstant 32 0"] pointers_bvconcat [of b "bvconstant 32 0"]
      by (auto simp: typed2_def add_descends_def)
  qed
qed

definition add_order :: "((bvexpr \<times> bvexpr) \<times> (bvexpr \<times> bvexpr)) set" where
  "add_order = inv_image (less_than <*lex*> less_than)
     (\<lambda>(a, b). (pointers a + pointers b, 65 - width a))"

lemma add_descends_order: "add_descends a b xy \<Longrightarrow> (xy, (a, b)) \<in> add_order"
  by (auto simp: add_descends_def add_order_def)

function bvadd :: "bvexpr \<Rightarrow> bvexpr \<Rightarrow> bvexpr" where
  "bvadd a b =
     (if \<not> typed2 a b then Bvbinary Bvaddition a b
      else case BVAddConstant (width a) a b of
        Some r \<Rightarrow> r
      | None \<Rightarrow> (case bvadd_call a b of
          Some (AddPointer p (x, y)) \<Rightarrow> Pointer p (bvadd x y)
        | Some (AddPointerExt p (x, y) (z, w)) \<Rightarrow> Pointer_ext p (bvadd x y) (bvadd z w)
        | Some (AddPointerBase p s (x, y)) \<Rightarrow> Pointer_base p s (bvadd x y)
        | Some (AddPullExtract S E (x, y)) \<Rightarrow> bvextract S E (bvadd x y)
        | None \<Rightarrow> Bvbinary Bvaddition a b))"
  by pat_completeness auto

termination
proof (relation add_order)
  show "wf add_order" by (auto simp: add_order_def)
qed (fastforce dest: bvadd_call_descends intro: add_descends_order)+

declare bvadd.simps [simp del]

subsection \<open>Soundness of bvadd\<close>

text \<open>
  An operand without pointers, or a pointer of an element width that \<open>bvadd\<close> looks for and with
  an offset that is free of pointers.
\<close>

definition simple_address :: "bvexpr \<Rightarrow> bool" where
  "simple_address e \<longleftrightarrow> pointers e = 0
     \<or> (\<exists>p off. e = Pointer p off \<and> (avar_V p = 8 \<or> avar_V p = 32) \<and> pointers off = 0)"

lemma simple_address_simps [simp]:
  "pointers e = 0 \<Longrightarrow> simple_address e"
  "simple_address (Pointer p off) \<longleftrightarrow> (avar_V p = 8 \<or> avar_V p = 32) \<and> pointers off = 0"
  "\<not> simple_address (Pointer_ext p off ext)"
  "\<not> simple_address (Pointer_base p s off)"
  "simple_address (Extraction S E x) \<longleftrightarrow> pointers x = 0"
  by (auto simp: simple_address_def)

lemma BVAddConstant_sound:
  assumes "BVAddConstant (width a) a b = Some r" "typed2 a b"
  shows "implements \<rho> r (Bvbinary Bvaddition a b)"
proof -
  have le: "width a \<le> 64" using assms(1) by (auto simp: BVAddConstant_def split: if_splits)
  consider W va W' vb where "a = Bitvector W va" "b = Bitvector W' vb" "r = bvconstant (width a) (va + vb)"
    | W where "a = Bitvector W 0" "r = b" | W where "b = Bitvector W 0" "r = a"
    using first_some_mem [OF assms(1) [unfolded BVAddConstant_def Let_def if_P [OF le]]]
    by (auto simp: bind_eq_Some_conv eq_commute [of "Some r"] split: if_splits elim!: cast_constant_SomeE)
  then show ?thesis
    using assms(2) by cases (auto simp: typed2_def uint_mod_add take_bit_add implements_def)
qed

lemma cast_ptr_None: "(\<And>q o'. b \<noteq> Pointer q o') \<Longrightarrow> cast_ptr A V b = None"
  by (auto simp: cast_ptr_def split: bvexpr.splits)

lemma bvadd_call_pointer:
  assumes "avar_V p = 8 \<or> avar_V p = 32" "avar_A p = width off" "width b = width off" "\<And>q o'. b \<noteq> Pointer q o'"
  shows "bvadd_call (Pointer p off) b = Some (AddPointer p (off, b))"
    "bvadd_call b (Pointer p off) = Some (AddPointer p (b, off))"
proof -
  have "cast_ptr (avar_A p) V (Pointer p off) = (if avar_V p = V then Some (p, off) else None)" for V
    by (simp add: cast_ptr_def)
  then show "bvadd_call (Pointer p off) b = Some (AddPointer p (off, b))"
    "bvadd_call b (Pointer p off) = Some (AddPointer p (b, off))"
    using assms(1-3) by (auto simp: bvadd_call_def Let_def BVAddPointer_def cast_ptr_None [OF assms(4)])
qed

lemma shifted_sum:
  fixes x e :: int
  shows "take_bit B (drop_bit k (take_bit (B + k) (push_bit k x + e))) = take_bit B (x + drop_bit k e)"
proof -
  have "drop_bit k (push_bit k x + e) = x + drop_bit k e"
    by (simp add: drop_bit_eq_div push_bit_eq_mult)
  then show ?thesis
    by (metis drop_bit_take_bit take_bit_drop_bit add_diff_cancel_right' take_bit_take_bit min.idem)
qed

lemma pull_extract_sound:
  assumes "implements \<rho> r (Bvbinary Bvaddition (bvconcat a (bvconstant 32 0)) e)" "bwt a" 
    "width e = width a + 32"
  shows "bwt (bvextract (width a + 31) 32 r)" "width (bvextract (width a + 31) 32 r) = width a"
    "bveval \<rho> (bvextract (width a + 31) 32 r) =
       take_bit (width a) (bveval \<rho> a + take_bit (width a) (drop_bit 32 (bveval \<rho> e)))"
proof -
  have c: "bwt (bvconcat a (bvconstant 32 0))" "width (bvconcat a (bvconstant 32 0)) = width a + 32"
    "bveval \<rho> (bvconcat a (bvconstant 32 0)) = push_bit 32 (bveval \<rho> a)"
    using assms(2) by (simp_all add: bvconcat_props)
  have r: "bwt r" "width r = width a + 32"
    "bveval \<rho> r = take_bit (width a + 32) (push_bit 32 (bveval \<rho> a) + bveval \<rho> e)"
    using assms(1) c by (simp_all add: implements_def)
  have le: "32 \<le> width a + 31" "width a + 31 < width r" "width a + 31 - 32 + 1 = width a"
    using r(2) bwt_width_pos [OF assms(2)] by linarith+
  note e = bvextract_props [OF r(1) le(1,2)]
  show "bwt (bvextract (width a + 31) 32 r)" "width (bvextract (width a + 31) 32 r) = width a"
    "bveval \<rho> (bvextract (width a + 31) 32 r) =
       take_bit (width a) (bveval \<rho> a + take_bit (width a) (drop_bit 32 (bveval \<rho> e)))"
    by (simp_all only: e le(3) r(3) shifted_sum) (simp add: take_bit_eq_mod mod_add_right_eq)
qed

lemma pointer_sum:
  fixes x y z :: int
  shows "take_bit w (x + take_bit w (y + z)) = take_bit w (take_bit w (x + y) + z)"
    "take_bit w (x + take_bit w (z + y)) = take_bit w (z + take_bit w (x + y))"
  by (simp_all add: take_bit_eq_mod mod_simps ac_simps)

lemma bvadd_call_no_pull:
  assumes "simple_address a" "\<And>q o'. b \<noteq> Pointer q o'" "bwt a" "width a = width b"
    "bvadd_call a b = Some (AddPullExtract S E xy) \<or> bvadd_call b a = Some (AddPullExtract S E xy)"
  shows "pointers a = 0"
proof (rule ccontr)
  assume "pointers a \<noteq> 0"
  with assms(1) obtain p off where a: "a = Pointer p off" and V: "avar_V p = 8 \<or> avar_V p = 32"
    by (auto simp: simple_address_def)
  have "avar_A p = width off" "width b = width off" using a assms(3,4) by simp_all
  from bvadd_call_pointer [OF V this assms(2)] assms(5) show False by (simp add: a)
qed

lemma bvadd_ext_not_simple: "BVAddPointerExt (width a) V 32 a b = Some c \<Longrightarrow> \<not> (simple_address a \<and> simple_address b)"
  by (erule bvadd_ext_cases) (metis simple_address_simps(3))+

lemma bvadd_base_not_simple: "BVAddPointerBase W V a b = Some c \<Longrightarrow> \<not> (simple_address a \<and> simple_address b)"
  by (erule bvadd_base_cases) (metis simple_address_simps(4))+

lemma implements_bvadd:
  assumes "bwt a" "bwt b" "width a = width b" "simple_address a" "simple_address b"
  shows "implements \<rho> (bvadd a b) (Bvbinary Bvaddition a b)"
  using assms
proof (induction a b rule: bvadd.induct)
  case add: (1 a b)
  have t: "typed2 a b" using add.prems by (simp add: typed2_def)
  consider r where "BVAddConstant (width a) a b = Some r"
    | "BVAddConstant (width a) a b = None" "bvadd_call a b = None"
    | c where "BVAddConstant (width a) a b = None" "bvadd_call a b = Some c"
    by (cases "BVAddConstant (width a) a b"; cases "bvadd_call a b") auto
  then show ?case
  proof cases
    case 1
    then show ?thesis using t BVAddConstant_sound by (simp add: bvadd.simps)
  next
    case 2
    then show ?thesis using t add.prems by (simp add: bvadd.simps implements_def)
  next
    case (3 c)
    note descends = bvadd_call_descends [OF 3(2) t]
    from 3(2) show ?thesis
    proof (cases rule: bvadd_call_cases)
      case (1 V)
      from 1(1) show ?thesis
      proof (cases rule: bvadd_pointer_cases)
        case p: (1 p off)
        then have "implements \<rho> (bvadd off b) (Bvbinary Bvaddition off b)"
          using add.IH(1) [OF _ 3 p(2) refl] t add.prems by auto
        moreover have "bvadd a b = Pointer p (bvadd off b)" using t 3 p(2) by (simp add: bvadd.simps [of a b])
        ultimately show ?thesis using p(1) add.prems
          by (simp add: implements_def pointer_sum)
      next
        case p: (2 p off)
        then have i: "implements \<rho> (bvadd a off) (Bvbinary Bvaddition a off)"
          using add.IH(1) [OF _ 3 p(2) refl] t add.prems by auto
        have e: "bvadd a b = Pointer p (bvadd a off)" using t 3 p(2) by (simp add: bvadd.simps [of a b])
        have w: "avar_A p = width a" using p(1) add.prems(2,3) by simp
        have "bveval \<rho> (bvadd a off) = take_bit (width a) (bveval \<rho> a + bveval \<rho> off)"
          using i by (simp add: implements_def)
        then have "bveval \<rho> (bvadd a b) = take_bit (width a) (bveval \<rho> a + take_bit (width a) (base \<rho> (declname p) + bveval \<rho> off))"
          unfolding e by (simp only: bveval.simps w pointer_sum(2))
        also have "\<dots> = bveval \<rho> (Bvbinary Bvaddition a b)"
          by (simp only: p(1) bveval.simps binop_eval.simps w)
        finally have "bveval \<rho> (bvadd a b) = bveval \<rho> (Bvbinary Bvaddition a b)" .
        moreover have "bwt (bvadd a b)" "width (bvadd a b) = width a"
          unfolding e using i p(1) add.prems by (simp_all add: implements_def)
        ultimately show ?thesis by (simp add: implements_def)
      qed
    next
      case (2 V)
      then show ?thesis using add.prems(4,5) bvadd_ext_not_simple by blast
    next
      case 3
      then show ?thesis using add.prems(4,5) bvadd_base_not_simple by blast
    next
      case (4 S E e)
      have b: "width b = S - E + 1" "bveval \<rho> b = take_bit (S - E + 1) (drop_bit E (bveval \<rho> e))" "bwt e" "pointers e = 0"
        using add.prems(2,5) 4(1) by simp_all
      have e: "bwt e" "pointers e = 0" "take_bit (width a) (drop_bit 32 (bveval \<rho> e)) = bveval \<rho> b"
        by (simp_all only: b 4(3) add.prems(3))
      have np: "\<And>q o'. b \<noteq> Pointer q o'" using 4(1) by simp
      have a: "pointers a = 0"
        by (rule bvadd_call_no_pull [OF add.prems(4) np add.prems(1,3) disjI1 [OF 3(2) [unfolded 4(6)]]])
      have i: "implements \<rho> (bvadd (bvconcat a (bvconstant 32 0)) e) (Bvbinary Bvaddition (bvconcat a (bvconstant 32 0)) e)"
        using add.IH(5) [OF _ 3 4(6) refl] t e a add.prems(1) 4(4) pointers_bvconcat [of a "bvconstant 32 0"]
        by (simp add: bvconcat_props)
      have q: "bvadd a b = bvextract (width a + 31) 32 (bvadd (bvconcat a (bvconstant 32 0)) e)"
        using t 3 4(6) by (simp add: bvadd.simps [of a b])
      show ?thesis unfolding q using pull_extract_sound [OF i add.prems(1) 4(4)] e(3)
        by (simp add: implements_def)
    next
      case (5 S E e)
      have a: "width a = S - E + 1" "bveval \<rho> a = take_bit (S - E + 1) (drop_bit E (bveval \<rho> e))" "bwt e" "pointers e = 0"
        using add.prems(1,4) 5(1) by simp_all
      have w: "width b = width a" using add.prems(3) by simp
      have e: "bwt e" "pointers e = 0" "take_bit (width b) (drop_bit 32 (bveval \<rho> e)) = bveval \<rho> a" 
        "width e = width b + 32"
        using 5(4) by (simp_all only: a(2-4) 5(3) w a(1))
      have np: "\<And>q o'. a \<noteq> Pointer q o'" using 5(1) by simp
      have b: "pointers b = 0"
        by (rule bvadd_call_no_pull [OF add.prems(5) np add.prems(2) w disjI2 [OF 3(2) [unfolded 5(6)]]])
      have i: "implements \<rho> (bvadd (bvconcat b (bvconstant 32 0)) e) (Bvbinary Bvaddition (bvconcat b (bvconstant 32 0)) e)"
        using add.IH(5) [OF _ 3 5(6) refl] t e b add.prems(2) pointers_bvconcat [of b "bvconstant 32 0"]
        by (simp add: bvconcat_props)
      have q: "bvadd a b = bvextract (width b + 31) 32 (bvadd (bvconcat b (bvconstant 32 0)) e)"
        using t 3 5(6) add.prems(3) by (simp add: bvadd.simps [of a b])
      show ?thesis unfolding q using pull_extract_sound [OF i add.prems(2) e(4)] e(3) w
        by (simp add: implements_def add.commute)
    qed
  qed
qed

subsection \<open>Subtraction and carries\<close>

definition BVSubConstant :: "nat \<Rightarrow> bvexpr \<Rightarrow> bvexpr \<Rightarrow> bvexpr option" where
  "BVSubConstant B a b =
     (if B \<le> 64 then
        (let ca = cast_constant a; cb = cast_constant b in first_some
          [Option.bind ca (\<lambda>va. map_option (\<lambda>vb. bvconstant B (va - vb)) cb),
           Option.bind cb (\<lambda>vb. if vb = 0 then Some a else None)])
      else None)"

text \<open>
  \<open>BVSubPointer\<close> subtracts the offsets; the result is a pointer (\<open>Some p\<close>) unless both operands
  are pointers.
\<close>

definition BVSubPointer :: "nat \<Rightarrow> nat \<Rightarrow> bvexpr \<Rightarrow> bvexpr \<Rightarrow> (avar option \<times> bvexpr \<times> bvexpr) option" where
  "BVSubPointer B V a b =
     (case (cast_ptr B V a, cast_ptr B V b) of
        (Some (p, off), Some (q, off')) \<Rightarrow> Some (None, off, off')
      | (Some (p, off), None) \<Rightarrow> Some (Some p, off, b)
      | _ \<Rightarrow> None)"

definition bvsub_call :: "bvexpr \<Rightarrow> bvexpr \<Rightarrow> (avar option \<times> bvexpr \<times> bvexpr) option" where
  "bvsub_call a b = first_some [BVSubPointer (width a) 8 a b, BVSubPointer (width a) 32 a b]"

lemma bvsub_call_cases:
  assumes "bvsub_call a b = Some c"
  obtains p off q off' where "a = Pointer p off" "b = Pointer q off'" "avar_V p = avar_V q" "c = (None, off, off')"
    | p off where "a = Pointer p off" "c = (Some p, off, b)"
  using first_some_mem [OF assms [unfolded bvsub_call_def]]
  by (auto simp: BVSubPointer_def eq_commute [of "Some c"] split: option.splits elim!: cast_elims simp del: width.simps)

function bvsub :: "bvexpr \<Rightarrow> bvexpr \<Rightarrow> bvexpr" where
  "bvsub a b =
     (case BVSubConstant (width a) a b of
        Some r \<Rightarrow> r
      | None \<Rightarrow> (case bvsub_call a b of
          Some (None, x, y) \<Rightarrow> bvsub x y
        | Some (Some p, x, y) \<Rightarrow> Pointer p (bvsub x y)
        | None \<Rightarrow> Bvbinary Bvsubstraction a b))"
  by pat_completeness auto
termination
  by (relation "measure (\<lambda>(a, b). pointers a + pointers b)") (auto elim!: bvsub_call_cases)

declare bvsub.simps [simp del]

definition bvadd_carry :: "bvexpr \<Rightarrow> bvexpr \<Rightarrow> bvexpr" where
  "bvadd_carry a b = Bvbit Bvaddition_carry a b"

definition bvsub_carry :: "bvexpr \<Rightarrow> bvexpr \<Rightarrow> bvexpr" where
  "bvsub_carry a b = Bvbit Bvsubstraction_carry a b"

lemma BVSubConstant_sound:
  assumes "BVSubConstant (width a) a b = Some r" "typed2 a b"
  shows "implements \<rho> r (Bvbinary Bvsubstraction a b)"
proof -
  have le: "width a \<le> 64" using assms(1) by (auto simp: BVSubConstant_def split: if_splits)
  consider W va W' vb where "a = Bitvector W va" "b = Bitvector W' vb" "r = bvconstant (width a) (va - vb)"
    | W where "b = Bitvector W 0" "r = a"
    using first_some_mem [OF assms(1) [unfolded BVSubConstant_def Let_def if_P [OF le]]]
    by (auto simp: bind_eq_Some_conv eq_commute [of "Some r"] split: if_splits elim!: cast_constant_SomeE)
  then show ?thesis
    using assms(2) by cases (auto simp: typed2_def uint_mod_sub take_bit_diff implements_def)
qed

text \<open>
  Two pointers whose element widths agree are subtracted without a look at their arrays, which
  is right for pointers into the same array.
\<close>

definition same_object :: "bvexpr \<Rightarrow> bvexpr \<Rightarrow> bool" where
  "same_object a b \<longleftrightarrow> (\<forall>p off q off'. a = Pointer p off \<longrightarrow> b = Pointer q off' \<longrightarrow> avar_V p = avar_V q \<longrightarrow>
     declname p = declname q)"

lemma same_object_no_pointer [simp]: "pointers a = 0 \<Longrightarrow> same_object a b"
  by (auto simp: same_object_def)

lemma sub_sums:
  fixes x y z :: int
  shows "take_bit w (x + take_bit w (y - z)) = take_bit w (take_bit w (x + y) - z)"
    "take_bit w (y - z) = take_bit w (take_bit w (x + y) - take_bit w (x + z))"
  by (simp_all add: take_bit_eq_mod mod_simps algebra_simps)

lemma implements_bvsub:
  assumes "bwt a" "bwt b" "width a = width b" "simple_address a" "simple_address b" "same_object a b"
  shows "implements \<rho> (bvsub a b) (Bvbinary Bvsubstraction a b)"
  using assms
proof (induction a b rule: bvsub.induct)
  case sub: (1 a b)
  have t: "typed2 a b" using sub.prems by (simp add: typed2_def)
  consider r where "BVSubConstant (width a) a b = Some r"
    | "BVSubConstant (width a) a b = None" "bvsub_call a b = None"
    | c where "BVSubConstant (width a) a b = None" "bvsub_call a b = Some c"
    by (cases "BVSubConstant (width a) a b"; cases "bvsub_call a b") auto
  then show ?case
  proof cases
    case 1
    then show ?thesis using t BVSubConstant_sound by (simp add: bvsub.simps)
  next
    case 2
    then show ?thesis using t sub.prems by (simp add: bvsub.simps implements_def)
  next
    case (3 c)
    from 3(2) show ?thesis
    proof (cases rule: bvsub_call_cases)
      case p: (1 p off q off')
      have i: "implements \<rho> (bvsub off off') (Bvbinary Bvsubstraction off off')"
        using sub.IH(1) [OF 3(1) 3(2) [unfolded p(4)] refl refl refl] sub.prems(1-5) p(1,2) by auto
      have e: "bvsub a b = bvsub off off'" using 3 p(4) by (simp add: bvsub.simps [of a b])
      have "declname p = declname q" using sub.prems(6) p by (simp add: same_object_def)
      then show ?thesis unfolding e using i sub.prems p(1,2)
        sub_sums(2) [of "width a" "bveval \<rho> off" "bveval \<rho> off'" "base \<rho> (declname p)"]
        by (simp add: implements_def)
    next
      case p: (2 p off)
      have i: "implements \<rho> (bvsub off b) (Bvbinary Bvsubstraction off b)"
        using sub.IH(2) [OF 3(1) 3(2) [unfolded p(2)] refl refl refl] sub.prems(1-5) p(1) by auto
      have e: "bvsub a b = Pointer p (bvsub off b)" using 3 p(2) by (simp add: bvsub.simps [of a b])
      show ?thesis unfolding e using i sub.prems p(1)
        by (simp add: implements_def sub_sums(1))
    qed
  qed
qed

end
