(* ===== verification/Expr_Logic.thy ===== *)
theory Expr_Logic
  imports Expr_Shift
begin

text \<open>
  Formulas, comparisons and memories: \<open>lor\<close>, \<open>land\<close> (\<open>expr.cpp\<close>) and \<open>isfalse\<close>, \<open>ite\<close>,
  \<open>bvcomp\<close>, the four unsigned comparisons, \<open>select\<close> and \<open>store\<close> (\<open>expr.hpp\<close>).
\<close>

subsection \<open>Formulas\<close>

text \<open>The virtual functions \<open>t_lor\<close> and \<open>t_land\<close>: only \<open>boolean\<close> overrides them.\<close>

definition t_lor :: "lexpr \<Rightarrow> lexpr \<Rightarrow> lexpr option" where
  "t_lor e x = (case e of Boolean v \<Rightarrow> Some (if v then e else x) | _ \<Rightarrow> None)"

definition t_land :: "lexpr \<Rightarrow> lexpr \<Rightarrow> lexpr option" where
  "t_land e x = (case e of Boolean v \<Rightarrow> Some (if v then x else e) | _ \<Rightarrow> None)"

definition lor :: "lexpr \<Rightarrow> lexpr \<Rightarrow> lexpr" where
  "lor a b = (case t_lor a b of Some r \<Rightarrow> r | None \<Rightarrow>
     (case t_lor b a of Some r \<Rightarrow> r | None \<Rightarrow> Loring a b))"

definition land :: "lexpr \<Rightarrow> lexpr \<Rightarrow> lexpr" where
  "land a b = (case t_land a b of Some r \<Rightarrow> r | None \<Rightarrow>
     (case t_land b a of Some r \<Rightarrow> r | None \<Rightarrow> Landing a b))"

lemma lor_sound:
  "leval \<rho> (lor a b) = (leval \<rho> a \<or> leval \<rho> b)" "lwt a \<Longrightarrow> lwt b \<Longrightarrow> lwt (lor a b)"
  by (auto simp: lor_def t_lor_def split: lexpr.splits)

lemma land_sound:
  "leval \<rho> (land a b) = (leval \<rho> a \<and> leval \<rho> b)" "lwt a \<Longrightarrow> lwt b \<Longrightarrow> lwt (land a b)"
  by (auto simp: land_def t_land_def split: lexpr.splits)

subsection \<open>If-then-else\<close>

definition bv_ite :: "lexpr \<Rightarrow> bvexpr \<Rightarrow> bvexpr \<Rightarrow> bvexpr" where
  "bv_ite l a b = (case l of Boolean v \<Rightarrow> if v then a else b | _ \<Rightarrow> BvIte l a b)"

definition arr_ite :: "lexpr \<Rightarrow> bvarray \<Rightarrow> bvarray \<Rightarrow> bvarray" where
  "arr_ite l a b = (case l of Boolean v \<Rightarrow> if v then a else b | _ \<Rightarrow> ArrIte l a b)"

lemma implements_bv_ite:
  assumes "lwt l" "bwt a" "bwt b" "width a = width b"
  shows "implements \<rho> (bv_ite l a b) (BvIte l a b)"
  using assms by (cases l) (auto simp: bv_ite_def implements_def, metis bveval_take_bit)

lemma arr_ite_sound:
  "aeval \<rho> (arr_ite l a b) = (if leval \<rho> l then aeval \<rho> a else aeval \<rho> b)"
  "lwt l \<Longrightarrow> awt a \<Longrightarrow> awt b \<Longrightarrow> arr_A a = arr_A b \<Longrightarrow> arr_V a = arr_V b \<Longrightarrow> awt (arr_ite l a b)"
  by (cases l; auto simp: arr_ite_def)+

subsection \<open>Unsigned comparisons\<close>

text \<open>
  A comparison of a concatenation whose head is a constant with a constant is decided by the
  heads (\<open>Inl\<close>) or goes on with the tails (\<open>Inr\<close>).
\<close>

definition BVULTConcatConstant :: "nat \<Rightarrow> nat \<Rightarrow> bvexpr \<Rightarrow> u64 \<Rightarrow> (bool + bvexpr \<times> bvexpr) option" where
  "BVULTConcatConstant B X a b =
     (if X < B \<and> ((B = 64 \<and> X = 31) \<or> (B = 33 \<and> X = 19)) then
        Option.bind (cast_concat X (B - X) a) (\<lambda>(x, y).
        Option.bind (cast_constant x) (\<lambda>ba.
          let vb = drop_bit (B - X) b in
          Some (if ba < vb then Inl True else if ba > vb then Inl False
                else Inr (y, bvconstant (B - X) (b AND (push_bit (B - X) 1 - 1))))))
      else None)"

definition BVUGEConcatConstant :: "nat \<Rightarrow> nat \<Rightarrow> bvexpr \<Rightarrow> u64 \<Rightarrow> (bool + bvexpr \<times> bvexpr) option" where
  "BVUGEConcatConstant B X a b =
     (if X < B \<and> ((B = 64 \<and> X = 31) \<or> (B = 33 \<and> X = 19)) then
        Option.bind (cast_concat X (B - X) a) (\<lambda>(x, y).
        Option.bind (cast_constant x) (\<lambda>ba.
          let vb = drop_bit (B - X) b in
          Some (if ba > vb then Inl True else if ba < vb then Inl False
                else Inr (y, bvconstant (B - X) (b AND (push_bit (B - X) 1 - 1))))))
      else None)"

definition bvult_rule :: "bvexpr \<Rightarrow> bvexpr \<Rightarrow> (bool + bvexpr \<times> bvexpr) option" where
  "bvult_rule a b = Option.bind (cast_constant b) (\<lambda>vb. first_some
     [map_option (\<lambda>va. Inl (va < vb)) (cast_constant a),
      BVULTConcatConstant (width b) 19 a vb,
      BVULTConcatConstant (width b) 31 a vb])"

definition bvuge_rule :: "bvexpr \<Rightarrow> bvexpr \<Rightarrow> (bool + bvexpr \<times> bvexpr) option" where
  "bvuge_rule a b = Option.bind (cast_constant b) (\<lambda>vb. first_some
     [map_option (\<lambda>va. Inl (va \<ge> vb)) (cast_constant a),
      BVUGEConcatConstant (width b) 19 a vb,
      BVUGEConcatConstant (width b) 31 a vb])"

lemma BVULTConcatConstant_SomeE:
  assumes "BVULTConcatConstant B X a b = Some r"
  obtains ba y where "a = Concatenation (Bitvector X ba) y" "width y = B - X" "0 < X" "X < B" "B \<le> 64"
    "r = (if ba < drop_bit (B - X) b then Inl True else if ba > drop_bit (B - X) b then Inl False
          else Inr (y, bvconstant (B - X) (b AND lowmask (B - X))))"
proof -
  from assms have X: "0 < X" "X < B" "B \<le> 64" by (auto simp: BVULTConcatConstant_def split: if_splits)
  from assms obtain ba X' y where a: "a = Concatenation (Bitvector X' ba) y" "width (Bitvector X' ba) = X" "width y = B - X"
      and r: "r = (if ba < drop_bit (B - X) b then Inl True else if ba > drop_bit (B - X) b then Inl False
          else Inr (y, bvconstant (B - X) (b AND lowmask (B - X))))"
    by (auto simp: BVULTConcatConstant_def Let_def bind_eq_Some_conv lowmask_def split: if_splits elim!: cast_elims simp del: width.simps)
  then show thesis using X by (intro that [of ba y]) simp_all
qed

lemma bvult_rule_cases:
  assumes "bvult_rule a b = Some r"
  obtains A va B vb where "a = Bitvector A va" "b = Bitvector B vb" "r = Inl (va < vb)"
    | X W vb where "BVULTConcatConstant W X a vb = Some r" "b = Bitvector W vb"
proof -
  from assms obtain W vb where b: "b = Bitvector W vb" and
    "map_option (\<lambda>va. Inl (va < vb)) (cast_constant a) = Some r \<or> BVULTConcatConstant W 19 a vb = Some r \<or> BVULTConcatConstant W 31 a vb = Some r"
    by (auto simp: bvult_rule_def bind_eq_Some_conv eq_commute [of "Some r"] dest!: first_some_mem elim!: cast_constant_SomeE)
  then show thesis using that b by (auto elim!: cast_constant_SomeE)
qed

lemma BVUGEConcatConstant_SomeE:
  assumes "BVUGEConcatConstant B X a b = Some r"
  obtains ba y where "a = Concatenation (Bitvector X ba) y" "width y = B - X" "0 < X" "X < B" "B \<le> 64"
    "r = (if ba > drop_bit (B - X) b then Inl True else if ba < drop_bit (B - X) b then Inl False
          else Inr (y, bvconstant (B - X) (b AND lowmask (B - X))))"
proof -
  from assms have X: "0 < X" "X < B" "B \<le> 64" by (auto simp: BVUGEConcatConstant_def split: if_splits)
  from assms obtain ba X' y where a: "a = Concatenation (Bitvector X' ba) y" "width (Bitvector X' ba) = X" "width y = B - X"
      and r: "r = (if ba > drop_bit (B - X) b then Inl True else if ba < drop_bit (B - X) b then Inl False
          else Inr (y, bvconstant (B - X) (b AND lowmask (B - X))))"
    by (auto simp: BVUGEConcatConstant_def Let_def bind_eq_Some_conv lowmask_def split: if_splits elim!: cast_elims simp del: width.simps)
  then show thesis using X by (intro that [of ba y]) simp_all
qed

lemma bvuge_rule_cases:
  assumes "bvuge_rule a b = Some r"
  obtains A va B vb where "a = Bitvector A va" "b = Bitvector B vb" "r = Inl (va \<ge> vb)"
    | X W vb where "BVUGEConcatConstant W X a vb = Some r" "b = Bitvector W vb"
proof -
  from assms obtain W vb where b: "b = Bitvector W vb" and
    "map_option (\<lambda>va. Inl (va \<ge> vb)) (cast_constant a) = Some r \<or> BVUGEConcatConstant W 19 a vb = Some r \<or> BVUGEConcatConstant W 31 a vb = Some r"
    by (auto simp: bvuge_rule_def bind_eq_Some_conv eq_commute [of "Some r"] dest!: first_some_mem elim!: cast_constant_SomeE)
  then show thesis using that b by (auto elim!: cast_constant_SomeE)
qed

function bvult :: "bvexpr \<Rightarrow> bvexpr \<Rightarrow> lexpr" where
  "bvult a b = (case bvult_rule a b of
     Some (Inl v) \<Rightarrow> Boolean v
   | Some (Inr (x, y)) \<Rightarrow> bvult x y
   | None \<Rightarrow> Comparison Bvultcomparison a b)"
  by pat_completeness auto
termination
  by (relation "measure (\<lambda>(a, b). width b)") (auto elim!: bvult_rule_cases BVULTConcatConstant_SomeE split: if_splits)

declare bvult.simps [simp del]

function bvuge :: "bvexpr \<Rightarrow> bvexpr \<Rightarrow> lexpr" where
  "bvuge a b = (case bvuge_rule a b of
     Some (Inl v) \<Rightarrow> Boolean v
   | Some (Inr (x, y)) \<Rightarrow> bvuge x y
   | None \<Rightarrow> Comparison Bvugecomparison a b)"
  by pat_completeness auto
termination
  by (relation "measure (\<lambda>(a, b). width b)") (auto elim!: bvuge_rule_cases BVUGEConcatConstant_SomeE split: if_splits)

declare bvuge.simps [simp del]

definition bvule :: "bvexpr \<Rightarrow> bvexpr \<Rightarrow> lexpr" where
  "bvule a b = (case (cast_constant a, cast_constant b) of
     (Some va, Some vb) \<Rightarrow> Boolean (va \<le> vb) | _ \<Rightarrow> Comparison Bvulecomparison a b)"

definition bvugt :: "bvexpr \<Rightarrow> bvexpr \<Rightarrow> lexpr" where
  "bvugt a b = (case (cast_constant a, cast_constant b) of
     (Some va, Some vb) \<Rightarrow> Boolean (va > vb) | _ \<Rightarrow> Comparison Bvugtcomparison a b)"

definition isfalse :: "lexpr \<Rightarrow> lexpr" where
  "isfalse e = (case e of
     Boolean v \<Rightarrow> Boolean (\<not> v)
   | Comparison Bvultcomparison a b \<Rightarrow>
       if width a = 14 \<or> width a = 32 \<or> width a = 64 then bvuge a b else Negation e
   | _ \<Rightarrow> Negation e)"

text \<open>Comparing a concatenation part by part.\<close>

lemma concat_sum:
  fixes x y :: int
  assumes "take_bit n y = y"
  shows "push_bit n x OR y = x * 2 ^ n + y"
  using concat_bit_eq [of n y x] assms by (simp add: concat_bit_def push_bit_eq_mult ac_simps)

lemma less_parts:
  fixes x y q m P :: int
  assumes "0 \<le> y" "y < P" "0 \<le> m" "m < P"
  shows "x * P + y < q * P + m \<longleftrightarrow> x < q \<or> x = q \<and> y < m"
proof -
  have "x * P + y < q * P + m" if "x < q"
    using mult_right_mono [of "x + 1" q P] that assms by (simp add: algebra_simps)
  moreover have "\<not> x * P + y < q * P + m" if "q < x"
    using mult_right_mono [of "q + 1" x P] that assms by (simp add: algebra_simps)
  ultimately show ?thesis by (cases x q rule: linorder_cases) auto
qed

lemma concat_less:
  fixes x y v :: int
  assumes "take_bit n y = y"
  shows "push_bit n x OR y < v \<longleftrightarrow> x < drop_bit n v \<or> x = drop_bit n v \<and> y < take_bit n v"
proof -
  have "v = drop_bit n v * 2 ^ n + take_bit n v"
    by (simp only: drop_bit_eq_div take_bit_eq_mod div_mult_mod_eq)
  then show ?thesis
    unfolding concat_sum [OF assms]
    using less_parts [of y "2 ^ n" "take_bit n v" x "drop_bit n v"] take_bit_bounds [OF assms] by simp
qed

text \<open>What the recursive call compares.\<close>

lemma compare_tail:
  assumes "bwt (Concatenation (Bitvector X ba) y)" "bwt (Bitvector B b)" "width y = B - X" "0 < X" "X < B" "B \<le> 64"
    and c: "c = bvconstant (B - X) (b AND lowmask (B - X))"
  shows "bwt c" "width c = B - X" "bveval \<rho> c = take_bit (B - X) (uint b)"
    "bveval \<rho> (Concatenation (Bitvector X ba) y) < bveval \<rho> (Bitvector B b) \<longleftrightarrow>
       ba < drop_bit (B - X) b \<or> ba = drop_bit (B - X) b \<and> bveval \<rho> y < bveval \<rho> c"
proof -
  show "bwt c" "width c = B - X" using assms(4-6) by (simp_all add: c)
  show ev: "bveval \<rho> c = take_bit (B - X) (uint b)" using assms(6) by (simp add: c uint_and_lowmask)
  have u: "bveval \<rho> (Bitvector X ba) = uint ba" "bveval \<rho> (Bitvector B b) = uint b"
    using assms(1,2) bveval_const by simp_all
  then have "bveval \<rho> (Concatenation (Bitvector X ba) y) = push_bit (B - X) (uint ba) OR bveval \<rho> y"
    using assms(3) by simp
  moreover have "take_bit (B - X) (bveval \<rho> y) = bveval \<rho> y"
    using bveval_take_bit [of y \<rho>] by (simp only: assms(3))
  ultimately show "bveval \<rho> (Concatenation (Bitvector X ba) y) < bveval \<rho> (Bitvector B b) \<longleftrightarrow>
       ba < drop_bit (B - X) b \<or> ba = drop_bit (B - X) b \<and> bveval \<rho> y < bveval \<rho> c"
    using concat_less [of "B - X" "bveval \<rho> y" "uint ba" "uint b"]
    by (simp only: ev u) (simp add: word_less_def word_uint_eq_iff uint_drop_bit_eq)
qed

lemma bvult_sound:
  assumes "bwt a" "bwt b" "width a = width b"
  shows "lwt (bvult a b) \<and> leval \<rho> (bvult a b) = (bveval \<rho> a < bveval \<rho> b)"
  using assms
proof (induction a b rule: bvult.induct)
  case ult: (1 a b)
  show ?case
  proof (cases "bvult_rule a b")
    case None
    then show ?thesis using ult.prems by (simp add: bvult.simps)
  next
    case (Some r)
    then show ?thesis
    proof (cases rule: bvult_rule_cases)
      case (1 A va B vb)
      then show ?thesis using Some ult.prems bveval_const [of A va] bveval_const [of B vb]
        by (simp add: bvult.simps word_less_def)
    next
      case (2 X W vb)
      from 2(1) obtain ba y where a: "a = Concatenation (Bitvector X ba) y" "width y = W - X" "0 < X" "X < W" "W \<le> 64"
        and r: "r = (if ba < drop_bit (W - X) vb then Inl True else if ba > drop_bit (W - X) vb then Inl False
          else Inr (y, bvconstant (W - X) (vb AND lowmask (W - X))))"
        by (rule BVULTConcatConstant_SomeE)
      let ?c = "bvconstant (W - X) (vb AND lowmask (W - X))"
      note tail = compare_tail [OF ult.prems(1) [unfolded a(1)] ult.prems(2) [unfolded 2(2)] a(2-5) refl,
          folded a(1) 2(2)]
      show ?thesis
      proof (cases "ba = drop_bit (W - X) vb")
        case True
        then have ri: "bvult_rule a b = Some (Inr (y, ?c))" using Some r by simp
        have "lwt (bvult y ?c) \<and> leval \<rho> (bvult y ?c) = (bveval \<rho> y < bveval \<rho> ?c)"
          using ult.IH [OF ri refl refl] tail(1,2) a(1,2) ult.prems(1) by simp
        then show ?thesis using tail(4) True ri by (simp add: bvult.simps [of a b])
      next
        case False
        then show ?thesis using tail(4) Some r by (auto simp: bvult.simps [of a b])
      qed
    qed
  qed
qed

lemma bvuge_sound:
  assumes "bwt a" "bwt b" "width a = width b"
  shows "lwt (bvuge a b) \<and> leval \<rho> (bvuge a b) = (bveval \<rho> a \<ge> bveval \<rho> b)"
  using assms
proof (induction a b rule: bvuge.induct)
  case uge: (1 a b)
  show ?case
  proof (cases "bvuge_rule a b")
    case None
    then show ?thesis using uge.prems by (simp add: bvuge.simps)
  next
    case (Some r)
    then show ?thesis
    proof (cases rule: bvuge_rule_cases)
      case (1 A va B vb)
      then show ?thesis using Some uge.prems bveval_const [of A va] bveval_const [of B vb]
        by (simp add: bvuge.simps word_le_def)
    next
      case (2 X W vb)
      from 2(1) obtain ba y where a: "a = Concatenation (Bitvector X ba) y" "width y = W - X" "0 < X" "X < W" "W \<le> 64"
        and r: "r = (if ba > drop_bit (W - X) vb then Inl True else if ba < drop_bit (W - X) vb then Inl False
          else Inr (y, bvconstant (W - X) (vb AND lowmask (W - X))))"
        by (rule BVUGEConcatConstant_SomeE)
      let ?c = "bvconstant (W - X) (vb AND lowmask (W - X))"
      note tail = compare_tail [OF uge.prems(1) [unfolded a(1)] uge.prems(2) [unfolded 2(2)] a(2-5) refl,
          folded a(1) 2(2)]
      show ?thesis
      proof (cases "ba = drop_bit (W - X) vb")
        case True
        then have ri: "bvuge_rule a b = Some (Inr (y, ?c))" using Some r by simp
        have "lwt (bvuge y ?c) \<and> leval \<rho> (bvuge y ?c) = (bveval \<rho> y \<ge> bveval \<rho> ?c)"
          using uge.IH [OF ri refl refl] tail(1,2) a(1,2) uge.prems(1) by simp
        then show ?thesis using tail(4) [of \<rho>] True ri by (simp add: bvuge.simps [of a b]) (metis not_less)
      next
        case False
        then show ?thesis using tail(4) [of \<rho>] Some r by (auto simp: bvuge.simps [of a b] simp flip: not_less)
      qed
    qed
  qed
qed

lemma bvule_sound:
  assumes "bwt a" "bwt b" "width a = width b"
  shows "lwt (bvule a b)" "leval \<rho> (bvule a b) = (bveval \<rho> a \<le> bveval \<rho> b)"
  using assms bveval_const
  by (auto simp: bvule_def word_le_def split: option.splits elim!: cast_constant_SomeE simp del: bveval.simps(7))

lemma bvugt_sound:
  assumes "bwt a" "bwt b" "width a = width b"
  shows "lwt (bvugt a b)" "leval \<rho> (bvugt a b) = (bveval \<rho> a > bveval \<rho> b)"
  using assms bveval_const
  by (auto simp: bvugt_def word_less_def split: option.splits elim!: cast_constant_SomeE simp del: bveval.simps(7))

lemma isfalse_sound:
  assumes "lwt e"
  shows "lwt (isfalse e)" "leval \<rho> (isfalse e) = (\<not> leval \<rho> e)"
  using assms bvuge_sound by (auto simp: isfalse_def not_less split: lexpr.splits lcmp.splits)

subsection \<open>Equality as a bit\<close>

definition is_zero :: "bvexpr \<Rightarrow> bool" where
  "is_zero e \<longleftrightarrow> cast_constant e = Some 0"

definition cast_or :: "nat \<Rightarrow> bvexpr \<Rightarrow> (bvexpr \<times> bvexpr) option" where
  "cast_or B e = (case e of
     Bvbinary f a b \<Rightarrow> if f = Bvoring \<and> width a = B then Some (a, b) else None | _ \<Rightarrow> None)"

lemma cast_or_SomeE [cast_elims]:
  assumes "cast_or B e = Some x"
  obtains a b where "x = (a, b)" "e = Bvbinary Bvoring a b" "width a = B"
  using assms by (auto simp: cast_or_def split: bvexpr.splits if_splits)

text \<open>
  A pointer is taken to differ from the null pointer.  The two recursive calls of the case for
  \<open>bvoring\<close> are under a \<open>bvand\<close>.
\<close>

definition bvcomp_rule :: "bvexpr \<Rightarrow> bvexpr \<Rightarrow> bvexpr option" where
  "bvcomp_rule a b =
     (let B = width a in first_some
       [Option.bind (cast_constant a) (\<lambda>va. map_option (\<lambda>vb. bvconstant 1 (if va = vb then 1 else 0)) (cast_constant b)),
        if is_zero a then map_option (\<lambda>_. bvconstant 1 0) (cast_ptr B 8 b) else None,
        if is_zero b then map_option (\<lambda>_. bvconstant 1 0) (cast_ptr B 8 a) else None,
        if is_zero a then map_option (\<lambda>_. bvconstant 1 0) (cast_ptr_base B 8 b) else None,
        if is_zero b then map_option (\<lambda>_. bvconstant 1 0) (cast_ptr_base B 8 a) else None])"

definition bvcomp_or :: "bvexpr \<Rightarrow> bvexpr \<Rightarrow> ((bvexpr \<times> bvexpr) \<times> (bvexpr \<times> bvexpr)) option" where
  "bvcomp_or a b =
     (let B = width a in first_some
       [if is_zero a then map_option (\<lambda>(x, y). ((a, x), (a, y))) (cast_or B b) else None,
        if is_zero b then map_option (\<lambda>(x, y). ((x, b), (y, b))) (cast_or B a) else None])"

lemma bvcomp_or_cases:
  assumes "bvcomp_or a b = Some r"
  obtains x y where "is_zero a" "b = Bvbinary Bvoring x y" "width x = width a" "r = ((a, x), (a, y))"
    | x y where "is_zero b" "a = Bvbinary Bvoring x y" "r = ((x, b), (y, b))"
  using first_some_mem [OF assms [unfolded bvcomp_or_def Let_def]]
  by (auto simp: eq_commute [of "Some r"] split: if_splits elim!: cast_elims)

function bvcomp :: "bvexpr \<Rightarrow> bvexpr \<Rightarrow> bvexpr" where
  "bvcomp a b =
     (case bvcomp_rule a b of
        Some r \<Rightarrow> r
      | None \<Rightarrow> (case bvcomp_or a b of
          Some ((x, y), (z, w)) \<Rightarrow> bvand (bvcomp x y) (bvcomp z w)
        | None \<Rightarrow> Bvbit Bvcomparison a b))"
  by pat_completeness auto
termination
  by (relation "measure (\<lambda>(a, b). size a + size b)") (auto elim!: bvcomp_or_cases)

declare bvcomp.simps [simp del]

text \<open>No pointer in the operand, or in the operands of its unions, is null.\<close>

fun nonnull :: "valuation \<Rightarrow> bvexpr \<Rightarrow> bool" where
  "nonnull \<rho> (Bvbinary Bvoring a b) = (nonnull \<rho> a \<and> nonnull \<rho> b)"
| "nonnull \<rho> (Pointer p off) = (bveval \<rho> (Pointer p off) \<noteq> 0)"
| "nonnull \<rho> (Pointer_base p s off) = (bveval \<rho> (Pointer_base p s off) \<noteq> 0)"
| "nonnull \<rho> _ = True"

lemma masks_ok_bit: "bwt a \<Longrightarrow> bwt b \<Longrightarrow> width a = 1 \<Longrightarrow> width b = 1 \<Longrightarrow> masks_ok a b"
proof -
  have "mask_ok v e" if "bwt e" "width e = 1" for v e
    using that bwt_width_pos by (cases e) (auto, metis add_is_1 less_numeral_extra(3))
  then show "bwt a \<Longrightarrow> bwt b \<Longrightarrow> width a = 1 \<Longrightarrow> width b = 1 \<Longrightarrow> masks_ok a b"
    by (simp add: masks_ok_def)
qed

lemma is_zero_eval: "is_zero e \<Longrightarrow> bveval \<rho> e = 0"
  by (auto simp: is_zero_def elim!: cast_constant_SomeE)

lemma bvcomp_rule_sound:
  assumes "bvcomp_rule a b = Some r" "bwt a" "bwt b" "width a = width b" "nonnull \<rho> a" "nonnull \<rho> b"
  shows "implements \<rho> r (Bvbit Bvcomparison a b)"
proof -
  consider W va W' vb where "a = Bitvector W va" "b = Bitvector W' vb" "r = bvconstant 1 (if va = vb then 1 else 0)"
    | "is_zero a" "bveval \<rho> b \<noteq> 0" "r = bvconstant 1 0" | "is_zero b" "bveval \<rho> a \<noteq> 0" "r = bvconstant 1 0"
    using first_some_mem [OF assms(1) [unfolded bvcomp_rule_def Let_def]] assms(5,6)
    by (auto simp: bind_eq_Some_conv eq_commute [of "Some r"] split: if_splits elim!: cast_elims
      simp del: width.simps bveval.simps)
  then show ?thesis
  proof cases
    case (1 W va W' vb)
    then show ?thesis using assms(2,3) bveval_const [of W va] bveval_const [of W' vb]
      by (auto simp: implements_def bvconstant_def lowmask_def word_uint_eq_iff)
  qed (auto simp: implements_def is_zero_eval)
qed

lemma or_node_eval:
  "width u = width v \<Longrightarrow> bveval \<rho> (Bvbinary Bvoring u v) = bveval \<rho> u OR bveval \<rho> v"
  by (simp add: take_bit_or) (metis bveval_take_bit)

lemma implements_bvcomp:
  assumes "bwt a" "bwt b" "width a = width b" "nonnull \<rho> a" "nonnull \<rho> b"
  shows "implements \<rho> (bvcomp a b) (Bvbit Bvcomparison a b)"
  using assms
proof (induction a b rule: bvcomp.induct)
  case comp: (1 a b)
  consider r where "bvcomp_rule a b = Some r" | "bvcomp_rule a b = None" "bvcomp_or a b = None"
    | r where "bvcomp_rule a b = None" "bvcomp_or a b = Some r"
    by (cases "bvcomp_rule a b"; cases "bvcomp_or a b") auto
  then show ?case
  proof cases
    case 1
    then show ?thesis using bvcomp_rule_sound comp.prems by (simp add: bvcomp.simps)
  next
    case 2
    then show ?thesis using comp.prems by (simp add: bvcomp.simps implements_def)
  next
    case (3 r)
    obtain x y z w where r: "r = ((x, y), (z, w))" by (cases r) auto
    have ops: "bwt x \<and> bwt y \<and> bwt z \<and> bwt w \<and> width x = width y \<and> width z = width w
      \<and> nonnull \<rho> x \<and> nonnull \<rho> y \<and> nonnull \<rho> z \<and> nonnull \<rho> w
      \<and> (bveval \<rho> a = bveval \<rho> b \<longleftrightarrow> bveval \<rho> x = bveval \<rho> y \<and> bveval \<rho> z = bveval \<rho> w)"
      using 3(2)
    proof (cases rule: bvcomp_or_cases)
      case p: (1 u v)
      have o: "x = a" "y = u" "z = a" "w = v" using p(4) r by simp_all
      have uv: "bwt u" "bwt v" "width u = width v" "nonnull \<rho> u" "nonnull \<rho> v"
        using comp.prems(2,5) p(2) by simp_all
      then have "bveval \<rho> b = bveval \<rho> u OR bveval \<rho> v" by (simp only: p(2) or_node_eval)
      then show ?thesis using uv comp.prems(1,4) p(3) is_zero_eval [OF p(1), of \<rho>] by (auto simp: o or_eq_0_iff)
    next
      case p: (2 u v)
      have o: "x = u" "y = b" "z = v" "w = b" using p(3) r by simp_all
      have uv: "bwt u" "bwt v" "width u = width v" "width a = width u" "nonnull \<rho> u" "nonnull \<rho> v"
        using comp.prems(1,4) p(2) by simp_all
      then have "bveval \<rho> a = bveval \<rho> u OR bveval \<rho> v" by (simp only: p(2) or_node_eval)
      then show ?thesis using uv comp.prems(2,3,5) is_zero_eval [OF p(1), of \<rho>] by (auto simp: o or_eq_0_iff)
    qed
    have i: "implements \<rho> (bvcomp x y) (Bvbit Bvcomparison x y)" "implements \<rho> (bvcomp z w) (Bvbit Bvcomparison z w)"
      using comp.IH(1) [OF 3(1) 3(2) [unfolded r] refl refl refl] comp.IH(2) [OF 3(1) 3(2) [unfolded r] refl refl refl]
        ops by blast+
    then have "implements \<rho> (bvand (bvcomp x y) (bvcomp z w)) (Bvbinary Bvanding (bvcomp x y) (bvcomp z w))"
      by (intro implements_bvand masks_ok_bit) (simp_all add: implements_def)
    moreover have "bvcomp a b = bvand (bvcomp x y) (bvcomp z w)" using 3 r by (simp add: bvcomp.simps [of a b])
    ultimately show ?thesis using i ops by (simp add: implements_def)
  qed
qed

subsection \<open>Memories\<close>

text \<open>\<open>std::map::operator[]\<close> followed by an assignment, on the key-ordered list.\<close>

fun map_put :: "u64 \<Rightarrow> bvexpr \<Rightarrow> (u64 \<times> bvexpr) list \<Rightarrow> (u64 \<times> bvexpr) list" where
  "map_put k v [] = [(k, v)]"
| "map_put k v ((k', v') # m) =
     (if k < k' then (k, v) # (k', v') # m else if k = k' then (k, v) # m else (k', v') # map_put k v m)"

definition select :: "bvarray \<Rightarrow> bvexpr \<Rightarrow> bvexpr" where
  "select arr off =
     (case (arr, cast_constant off) of
        (Concrete_storing a m, Some k) \<Rightarrow> (case map_of m k of Some v \<Rightarrow> v | None \<Rightarrow> Selection a off)
      | _ \<Rightarrow> Selection arr off)"

definition store :: "bvarray \<Rightarrow> bvexpr \<Rightarrow> bvexpr \<Rightarrow> bvarray" where
  "store arr off v =
     (case cast_constant off of
        None \<Rightarrow> Storing arr off v
      | Some k \<Rightarrow> (case arr of
          Concrete_storing a m \<Rightarrow> Concrete_storing a (map_put k v m)
        | _ \<Rightarrow> Concrete_storing arr [(k, v)]))"

lemma map_of_map_put: "map_of (map_put k v m) = (map_of m)(k \<mapsto> v)"
  by (induction k v m rule: map_put.induct) (auto simp: fun_eq_iff)

lemma set_map_put: "set (map_put k v m) \<subseteq> insert (k, v) (set m)"
  by (induction k v m rule: map_put.induct) auto

lemma sorted_map_put: "sorted_wrt (<) (map fst m) \<Longrightarrow> sorted_wrt (<) (map fst (map_put k v m))"
  using set_map_put by (induction k v m rule: map_put.induct) fastforce+

lemma map_of_uint: "map_of (map (\<lambda>(k, v). (uint k, f v)) m) (uint k) = map_option f (map_of m k)" for m :: "(u64 \<times> 'a) list"
  by (induction m) (auto simp: word_uint_eq_iff)

lemma implements_select:
  assumes "awt arr" "bwt off" "width off = arr_A arr" "0 < arr_V arr"
  shows "implements \<rho> (select arr off) (Selection arr off)"
proof (cases "\<exists>a m k. arr = Concrete_storing a m \<and> cast_constant off = Some k")
  case True
  then obtain a m k W where a: "arr = Concrete_storing a m" "off = Bitvector W k" by (auto elim!: cast_constant_SomeE)
  have k: "bveval \<rho> off = uint k" using assms(2) a(2) bveval_const by simp
  show ?thesis
  proof (cases "map_of m k")
    case None
    then show ?thesis using assms a k map_of_uint [of "bveval \<rho>" m k]
      by (simp add: select_def implements_def)
  next
    case (Some v)
    then have "bwt v" "width v = arr_V a" using assms(1) a(1) by (auto dest!: map_of_SomeD)
    then show ?thesis using assms a k Some map_of_uint [of "bveval \<rho>" m k] bveval_take_bit [of v \<rho>]
      by (simp add: select_def implements_def)
  qed
next
  case False
  then have "select arr off = Selection arr off" by (auto simp: select_def split: bvarray.splits option.splits)
  then show ?thesis using assms by (simp add: implements_def)
qed

lemma awt_store:
  assumes "awt arr" "bwt off" "bwt v" "width off = arr_A arr" "width v = arr_V arr"
  shows "awt (store arr off v)" "arr_A (store arr off v) = arr_A arr" "arr_V (store arr off v) = arr_V arr"
  using assms sorted_map_put set_map_put
  by (auto simp: store_def split: option.splits bvarray.splits elim!: cast_constant_SomeE) fastforce+

lemma aeval_store:
  assumes "bwt off"
  shows "aeval \<rho> (store arr off v) = (aeval \<rho> arr)(bveval \<rho> off := bveval \<rho> v)"
proof (cases "cast_constant off")
  case None
  then show ?thesis by (simp add: store_def)
next
  case (Some k)
  then obtain W where "off = Bitvector W k" by (rule cast_constant_SomeE)
  then have k: "bveval \<rho> off = uint k" using assms bveval_const by simp
  have put: "map_of (map (\<lambda>(k, v). (uint k, bveval \<rho> v)) (map_put k v m)) =
      (map_of (map (\<lambda>(k, v). (uint k, bveval \<rho> v)) m))(uint k \<mapsto> bveval \<rho> v)" for m
    by (induction k v m rule: map_put.induct) (auto simp: fun_eq_iff word_uint_eq_iff)
  show ?thesis
    by (cases arr) (auto simp: store_def Some k put fun_eq_iff)
qed

end
