(* ===== verification/Expr_Eq.thy ===== *)
theory Expr_Eq
  imports Expr_Logic
begin

text \<open>
  Equality of expression objects (\<open>operator==\<close>), \<open>eq\<close>, the collection of declarations and
  undefined objects (\<open>defs\<close>), and \<open>static_merge\<close>, which joins the expressions that two paths
  leave in a register.
\<close>

subsection \<open>Equality of objects\<close>

text \<open>
  \<open>operator==\<close> first compares the addresses and then the dynamic types; \<open>&&\<close> evaluates its
  second operand only if the first is true.  An address comparison that succeeds is subsumed by
  the structural comparison, except for \<open>undefined\<close> objects, whose identity is explicit here.
  The three-iterator \<open>std::equal\<close> of \<open>concrete_storing\<close> reads past the end of the other map if
  that map is a proper prefix: \<open>None\<close>.
\<close>

definition cand :: "bool option \<Rightarrow> bool option \<Rightarrow> bool option" where
  "cand x y = (case x of Some True \<Rightarrow> y | _ \<Rightarrow> x)"

lemma cand_simps [simp]:
  "cand (Some True) y = y" "cand (Some False) y = Some False" "cand None y = None"
  by (simp_all add: cand_def)

lemma cand_True [simp]: "cand x y = Some True \<longleftrightarrow> x = Some True \<and> y = Some True"
  by (auto simp: cand_def split: option.splits bool.splits)

fun leq :: "lexpr \<Rightarrow> lexpr \<Rightarrow> bool option"
  and beq :: "bvexpr \<Rightarrow> bvexpr \<Rightarrow> bool option"
  and aeq :: "bvarray \<Rightarrow> bvarray \<Rightarrow> bool option"
  and meq :: "(u64 \<times> bvexpr) list \<Rightarrow> (u64 \<times> bvexpr) list \<Rightarrow> bool option" where
  "leq (Boolean v) z = (case z of Boolean v' \<Rightarrow> Some (v = v') | _ \<Rightarrow> Some False)"
| "leq (Negation e) z = (case z of Negation e' \<Rightarrow> leq e e' | _ \<Rightarrow> Some False)"
| "leq (Loring a b) z = (case z of Loring a' b' \<Rightarrow> cand (leq a a') (leq b b') | _ \<Rightarrow> Some False)"
| "leq (Landing a b) z = (case z of Landing a' b' \<Rightarrow> cand (leq a a') (leq b b') | _ \<Rightarrow> Some False)"
| "leq (Comparison f a b) z = (case z of
     Comparison f' a' b' \<Rightarrow> if f = f' \<and> width a = width a' then cand (beq a a') (beq b b') else Some False
   | _ \<Rightarrow> Some False)"
| "beq (Undefined w i n e) z = (case z of Undefined w' i' n' e' \<Rightarrow> Some (w = w' \<and> i = i') | _ \<Rightarrow> Some False)"
| "beq (Bitvector w v) z = (case z of Bitvector w' v' \<Rightarrow> Some (w = w' \<and> v = v') | _ \<Rightarrow> Some False)"
| "beq (Bvvariable w n) z = (case z of Bvvariable w' n' \<Rightarrow> Some (w = w' \<and> n = n') | _ \<Rightarrow> Some False)"
| "beq (BvIte l a b) z = (case z of
     BvIte l' a' b' \<Rightarrow> if width a = width a' then cand (leq l l') (cand (beq a a') (beq b b')) else Some False
   | _ \<Rightarrow> Some False)"
| "beq (Extraction S E e) z = (case z of
     Extraction S' E' e' \<Rightarrow> if S = S' \<and> E = E' \<and> width e = width e' then beq e e' else Some False
   | _ \<Rightarrow> Some False)"
| "beq (Bvnegation e) z = (case z of
     Bvnegation e' \<Rightarrow> if width e = width e' then beq e e' else Some False | _ \<Rightarrow> Some False)"
| "beq (Concatenation a b) z = (case z of
     Concatenation a' b' \<Rightarrow>
       if width a = width a' \<and> width b = width b' then cand (beq a a') (beq b b') else Some False
   | _ \<Rightarrow> Some False)"
| "beq (Bvbinary f a b) z = (case z of
     Bvbinary f' a' b' \<Rightarrow> if f = f' \<and> width a = width a' then cand (beq a a') (beq b b') else Some False
   | _ \<Rightarrow> Some False)"
| "beq (Bvbit f a b) z = (case z of
     Bvbit f' a' b' \<Rightarrow> if f = f' \<and> width a = width a' then cand (beq a a') (beq b b') else Some False
   | _ \<Rightarrow> Some False)"
| "beq (Bvrotation r e i) z = (case z of
     Bvrotation r' e' i' \<Rightarrow> if r = r' \<and> width e = width e' then beq e e' else Some False
   | _ \<Rightarrow> Some False)"
| "beq (Pointer p off) z = (case z of
     Pointer p' off' \<Rightarrow> if p = p' then beq off off' else Some False | _ \<Rightarrow> Some False)"
| "beq (Pointer_ext p off ext) z = (case z of
     Pointer_ext p' off' ext' \<Rightarrow>
       if p = p' \<and> width ext = width ext' then cand (beq off off') (beq ext ext') else Some False
   | _ \<Rightarrow> Some False)"
| "beq (Pointer_base p s off) z = (case z of
     Pointer_base p' s' off' \<Rightarrow> if p = p' \<and> s = s' then beq off off' else Some False | _ \<Rightarrow> Some False)"
| "beq (Selection a off) z = (case z of
     Selection a' off' \<Rightarrow>
       if arr_A a = arr_A a' \<and> arr_V a = arr_V a' then cand (aeq a a') (beq off off') else Some False
   | _ \<Rightarrow> Some False)"
| "aeq (Undefined_array A V i n e) z = (case z of
     Undefined_array A' V' i' n' e' \<Rightarrow> Some (A = A' \<and> V = V' \<and> i = i') | _ \<Rightarrow> Some False)"
| "aeq (Bvavariable v) z = (case z of Bvavariable v' \<Rightarrow> Some (v = v') | _ \<Rightarrow> Some False)"
| "aeq (Storing a off v) z = (case z of
     Storing a' off' v' \<Rightarrow>
       if arr_A a = arr_A a' \<and> arr_V a = arr_V a' then cand (aeq a a') (cand (beq off off') (beq v v')) else Some False
   | _ \<Rightarrow> Some False)"
| "aeq (Concrete_storing a m) z = (case z of
     Concrete_storing a' m' \<Rightarrow>
       if arr_A a = arr_A a' \<and> arr_V a = arr_V a' then cand (aeq a a') (meq m m') else Some False
   | _ \<Rightarrow> Some False)"
| "aeq (ArrIte l a b) z = (case z of
     ArrIte l' a' b' \<Rightarrow>
       if arr_A a = arr_A a' \<and> arr_V a = arr_V a' then cand (leq l l') (cand (aeq a a') (aeq b b')) else Some False
   | _ \<Rightarrow> Some False)"
| "meq [] m' = Some True"
| "meq ((k, v) # m) m' = (case m' of
     [] \<Rightarrow> None
   | (k', v') # m'' \<Rightarrow> if k = k' then cand (beq v v') (meq m m'') else Some False)"

definition eq_bv :: "bvexpr \<Rightarrow> bvexpr \<Rightarrow> lexpr option" where
  "eq_bv a b = map_option (\<lambda>t. if t then Boolean True else Comparison Equality a b) (beq a b)"

text \<open>
  Two classes compare less than their whole state: \<open>operator==\<close> of \<open>unary\<close> does not look at the
  amount of a rotation, and that of \<open>concrete_storing\<close> does not look at the sizes of the maps.
  Without these two, equality is defined and implies equal values.
\<close>

fun lexact :: "lexpr \<Rightarrow> bool"
  and bexact :: "bvexpr \<Rightarrow> bool"
  and aexact :: "bvarray \<Rightarrow> bool" where
  "lexact (Boolean v) = True"
| "lexact (Negation e) = lexact e"
| "lexact (Loring a b) = (lexact a \<and> lexact b)"
| "lexact (Landing a b) = (lexact a \<and> lexact b)"
| "lexact (Comparison f a b) = (bexact a \<and> bexact b)"
| "bexact (Undefined w i n e) = True"
| "bexact (Bitvector w v) = True"
| "bexact (Bvvariable w n) = True"
| "bexact (BvIte l a b) = (lexact l \<and> bexact a \<and> bexact b)"
| "bexact (Extraction S E e) = bexact e"
| "bexact (Bvnegation e) = bexact e"
| "bexact (Concatenation a b) = (bexact a \<and> bexact b)"
| "bexact (Bvbinary f a b) = (bexact a \<and> bexact b)"
| "bexact (Bvbit f a b) = (bexact a \<and> bexact b)"
| "bexact (Bvrotation r e i) = False"
| "bexact (Pointer p off) = bexact off"
| "bexact (Pointer_ext p off ext) = (bexact off \<and> bexact ext)"
| "bexact (Pointer_base p s off) = bexact off"
| "bexact (Selection a off) = (aexact a \<and> bexact off)"
| "aexact (Undefined_array A V i n e) = True"
| "aexact (Bvavariable v) = True"
| "aexact (Storing a off v) = (aexact a \<and> bexact off \<and> bexact v)"
| "aexact (Concrete_storing a m) = False"
| "aexact (ArrIte l a b) = (lexact l \<and> aexact a \<and> aexact b)"

lemma eq_sound_aux:
  "lexact a \<longrightarrow> leq a a' = Some True \<longrightarrow> leval \<rho> a = leval \<rho> a'"
  "bexact b \<longrightarrow> beq b b' = Some True \<longrightarrow> bveval \<rho> b = bveval \<rho> b' \<and> width b = width b'"
  "aexact c \<longrightarrow> aeq c c' = Some True \<longrightarrow> aeval \<rho> c = aeval \<rho> c' \<and> arr_V c = arr_V c'"
  "meq m m' = meq m m'"
proof (induction a a' and b b' and c c' and m m' rule: leq_beq_aeq_meq.induct)
qed (auto split: lexpr.splits bvexpr.splits bvarray.splits if_splits)

lemma beq_sound: "bexact a \<Longrightarrow> beq a b = Some True \<Longrightarrow> bveval \<rho> a = bveval \<rho> b"
  using eq_sound_aux(2) by blast

lemma cand_None: "cand x y \<noteq> None \<longleftrightarrow> x \<noteq> None \<and> (x = Some True \<longrightarrow> y \<noteq> None)"
  by (auto simp: cand_def split: option.splits bool.splits)

lemma eq_defined_aux:
  "lexact a \<longrightarrow> leq a a' \<noteq> None" "bexact b \<longrightarrow> beq b b' \<noteq> None" "aexact c \<longrightarrow> aeq c c' \<noteq> None" "meq m m' = meq m m'"
proof (induction a a' and b b' and c c' and m m' rule: leq_beq_aeq_meq.induct)
qed (auto simp: cand_None split: lexpr.splits bvexpr.splits bvarray.splits simp del: not_None_eq)

lemma beq_defined: "bexact a \<Longrightarrow> beq a b \<noteq> None"
  using eq_defined_aux(2) by blast

lemma eq_refl_aux:
  "leq a a = Some True" "beq b b = Some True" "aeq c c = Some True" "d = (d :: expr)"
proof (induction a and b and c and d rule: lexpr.induct bvexpr.induct bvarray.induct expr.induct)
  case (Concrete_storing a m)
  have "meq m' m' = Some True" if "set m' \<subseteq> set m" for m'
    using that by (induction m') (use Concrete_storing(2) in fastforce)+
  then show ?case using Concrete_storing(1) by simp
qed (auto simp: cand_def)

lemma beq_refl: "beq a a = Some True"
  by (rule eq_refl_aux(2))

lemma aeq_refl: "aeq a a = Some True"
  by (rule eq_refl_aux(3))

lemma meq_prefix: "meq m (m @ m') = Some True"
  by (induction m) (auto simp: beq_refl)

subsection \<open>Merging\<close>

definition undef :: "nat \<Rightarrow> bvexpr" where
  "undef B = Undefined B Shared [] None"

definition undef_array :: "nat \<Rightarrow> nat \<Rightarrow> bvarray" where
  "undef_array A V = Undefined_array A V Shared [] None"

definition merge_leaf :: "bvexpr \<Rightarrow> bvexpr \<Rightarrow> bvexpr option" where
  "merge_leaf x z = map_option (\<lambda>t. if t then x else undef (width x)) (beq x z)"

text \<open>\<open>bvexpr::static_merge\<close>, overridden by \<open>concatenation::static_merge\<close>.\<close>

fun bv_merge :: "bvexpr \<Rightarrow> bvexpr \<Rightarrow> bvexpr option" where
  "bv_merge (Concatenation a b) z =
     Option.bind (beq (Concatenation a b) z) (\<lambda>t.
       if t then Some (Concatenation a b)
       else (case cast_concat (width a) (width b) z of
           None \<Rightarrow> Some (undef (width a + width b))
         | Some (a', b') \<Rightarrow>
             Option.bind (bv_merge a a') (\<lambda>x. Option.bind (bv_merge b b') (\<lambda>y. Some (bvconcat x y)))))"
| "bv_merge x z = merge_leaf x z"

text \<open>The loop over both maps of \<open>concrete_storing::static_merge\<close>.\<close>

fun map_merge :: "nat \<Rightarrow> (u64 \<times> bvexpr) list \<Rightarrow> (u64 \<times> bvexpr) list \<Rightarrow> (u64 \<times> bvexpr) list option" where
  "map_merge V [] [] = Some []"
| "map_merge V [] ((k', v') # m') = map_option ((#) (k', undef V)) (map_merge V [] m')"
| "map_merge V ((k, v) # m) [] = map_option ((#) (k, undef V)) (map_merge V m [])"
| "map_merge V ((k, v) # m) ((k', v') # m') =
     (if k < k' then map_option ((#) (k, undef V)) (map_merge V m ((k', v') # m'))
      else if k' < k then map_option ((#) (k', undef V)) (map_merge V ((k, v) # m) m')
      else Option.bind (bv_merge v v') (\<lambda>x. map_option ((#) (k, x)) (map_merge V m m')))"

fun arr_merge :: "bvarray \<Rightarrow> bvarray \<Rightarrow> bvarray option" where
  "arr_merge (Concrete_storing a m) z =
     Option.bind (aeq (Concrete_storing a m) z) (\<lambda>t.
       if t then Some (Concrete_storing a m)
       else (case z of
           Concrete_storing a' m' \<Rightarrow>
             if arr_A a = arr_A a' \<and> arr_V a = arr_V a' then
               Option.bind (arr_merge a a') (\<lambda>x. map_option (Concrete_storing x) (map_merge (arr_V a) m m'))
             else Some (undef_array (arr_A a) (arr_V a))
         | _ \<Rightarrow> Some (undef_array (arr_A a) (arr_V a))))"
| "arr_merge x z = map_option (\<lambda>t. if t then x else undef_array (arr_A x) (arr_V x)) (aeq x z)"

text \<open>
  The contract of a merge: \<open>generalizes t a\<close> says that \<open>t\<close> is \<open>a\<close> with some parts replaced by
  undefined objects.
\<close>

inductive generalizes :: "bvexpr \<Rightarrow> bvexpr \<Rightarrow> bool" where
  gen_same: "(\<And>\<rho>. implements \<rho> t a) \<Longrightarrow> generalizes t a"
| gen_undef: "width a = w \<Longrightarrow> generalizes (undef w) a"
| gen_concat: "generalizes x a \<Longrightarrow> generalizes y b \<Longrightarrow> generalizes (Concatenation x y) (Concatenation a b)"

lemma merge_leaf_sound:
  assumes "merge_leaf a b = Some r" "bexact a" "bwt a" "bwt b" "width a = width b"
  shows "generalizes r a" "generalizes r b" "bwt r" "width r = width a"
proof -
  from assms(1) consider "r = a" "beq a b = Some True" | "r = undef (width a)"
    by (auto simp: merge_leaf_def split: if_splits)
  then have "generalizes r a \<and> generalizes r b \<and> bwt r \<and> width r = width a"
  proof cases
    case 1
    then show ?thesis using beq_sound [OF assms(2), of b] assms(3-5)
      by (auto simp: implements_def intro!: gen_same)
  next
    case 2
    then show ?thesis using assms(3,5) bwt_width_pos [OF assms(3)] by (auto simp: undef_def [symmetric] intro: gen_undef)
      (simp_all add: undef_def)
  qed
  then show "generalizes r a" "generalizes r b" "bwt r" "width r = width a" by simp_all
qed

lemma bv_merge_sound:
  assumes "bv_merge a b = Some r" "bexact a" "bwt a" "bwt b" "width a = width b"
  shows "\<exists>t. generalizes t a \<and> generalizes t b \<and> (\<forall>\<rho>. implements \<rho> r t)"
  using assms
proof (induction a b arbitrary: r rule: bv_merge.induct)
  case m: (1 a b z)
  let ?ab = "Concatenation a b"
  from m.prems(1) consider "beq ?ab z = Some True" "r = ?ab"
    | "r = undef (width a + width b)"
    | a' b' x y where "beq ?ab z = Some False" "cast_concat (width a) (width b) z = Some (a', b')"
      "bv_merge a a' = Some x" "bv_merge b b' = Some y" "r = bvconcat x y"
    by (auto simp: bind_eq_Some_conv split: if_splits option.splits)
  then show ?case
  proof cases
    case 1
    then show ?thesis using beq_sound [OF m.prems(2) 1(1)] m.prems(3-5)
      by (intro exI [of _ ?ab]) (auto simp: implements_def intro!: gen_same)
  next
    case 2
    then have "implements \<rho> r (undef (width a + width b))" for \<rho>
      using m.prems(3) bwt_width_pos [of a] by (simp add: implements_def undef_def)
    then show ?thesis using m.prems(5) by (auto intro!: exI [of _ "undef (width a + width b)"] gen_undef)
  next
    case (3 a' b' x y)
    then have z: "z = Concatenation a' b'" "width a = width a'" "width b = width b'" by (auto elim: cast_concat_SomeE)
    have "\<exists>t. generalizes t a \<and> generalizes t a' \<and> (\<forall>\<rho>. implements \<rho> x t)"
      using m.IH(1) [OF 3(1) _ 3(2) refl 3(3)] m.prems z by simp
    moreover have "\<exists>u. generalizes u b \<and> generalizes u b' \<and> (\<forall>\<rho>. implements \<rho> y u)"
      using m.IH(2) [OF 3(1) _ 3(2) refl 3(3,4)] m.prems z by simp
    ultimately obtain t u where tu: "generalizes t a" "generalizes t a'" "\<And>\<rho>. implements \<rho> x t"
      "generalizes u b" "generalizes u b'" "\<And>\<rho>. implements \<rho> y u" by blast
    then have "implements \<rho> r (Concatenation t u)" for \<rho>
      using 3(5) implements_bvconcat [of x y \<rho>] by (simp add: implements_def)
    then show ?thesis using tu z(1) by (intro exI [of _ "Concatenation t u"]) (auto intro: gen_concat)
  qed
qed (metis bv_merge.simps implements_def merge_leaf_sound)+

lemma bv_merge_defined: "bexact a \<Longrightarrow> bv_merge a b \<noteq> None"
proof (induction a b rule: bv_merge.induct)
  case m: (1 a b z)
  then obtain t where t: "beq (Concatenation a b) z = Some t" using beq_defined [of "Concatenation a b" z] by auto
  show ?case
  proof (cases "t \<or> cast_concat (width a) (width b) z = None")
    case True
    with t show ?thesis by (auto simp del: beq.simps)
  next
    case False
    then obtain a' b' where c: "cast_concat (width a) (width b) z = Some (a', b')" and f: "\<not> t" by auto
    from m.IH(1) [OF t f c refl] m.prems obtain x where x: "bv_merge a a' = Some x" by auto
    from m.IH(2) [OF t f c refl x] m.prems obtain y where "bv_merge b b' = Some y" by auto
    with t c x show ?thesis by (simp del: beq.simps)
  qed
qed (simp_all only: bv_merge.simps merge_leaf_def option.map_disc_iff beq_defined not_False_eq_True)

text \<open>A merge of equal objects is the first of them.\<close>

lemma bv_merge_equal: "beq a b = Some True \<Longrightarrow> bv_merge a b = Some a"
  by (cases a) (simp_all add: merge_leaf_def)

subsection \<open>Declarations and undefined objects\<close>

datatype decl = Decl_var string | Decl_array string

text \<open>
  \<open>expr::defs\<close> counts expressions so that shared ones are printed once; the sets of declarations
  and of undefined objects that it collects do not depend on the counts.  The classes of
  pointers collect nothing.
\<close>

fun ldecls :: "lexpr \<Rightarrow> decl list"
  and bdecls :: "bvexpr \<Rightarrow> decl list"
  and adecls :: "bvarray \<Rightarrow> decl list"
  and edecls :: "expr \<Rightarrow> decl list" where
  "ldecls (Boolean v) = []"
| "ldecls (Negation e) = ldecls e"
| "ldecls (Loring a b) = ldecls a @ ldecls b"
| "ldecls (Landing a b) = ldecls a @ ldecls b"
| "ldecls (Comparison f a b) = bdecls a @ bdecls b"
| "bdecls (Undefined w i n e) = (case e of None \<Rightarrow> [] | Some x \<Rightarrow> edecls x)"
| "bdecls (Bitvector w v) = []"
| "bdecls (Bvvariable w n) = [Decl_var n]"
| "bdecls (BvIte l a b) = ldecls l @ bdecls a @ bdecls b"
| "bdecls (Extraction S E e) = bdecls e"
| "bdecls (Bvnegation e) = bdecls e"
| "bdecls (Concatenation a b) = bdecls a @ bdecls b"
| "bdecls (Bvbinary f a b) = bdecls a @ bdecls b"
| "bdecls (Bvbit f a b) = bdecls a @ bdecls b"
| "bdecls (Bvrotation r e i) = bdecls e"
| "bdecls (Pointer p off) = []"
| "bdecls (Pointer_ext p off ext) = []"
| "bdecls (Pointer_base p s off) = []"
| "bdecls (Selection a off) = adecls a @ bdecls off"
| "adecls (Undefined_array A V i n e) = (case e of None \<Rightarrow> [] | Some x \<Rightarrow> edecls x)"
| "adecls (Bvavariable v) = [Decl_array (declname v)]"
| "adecls (Storing a off v) = adecls a @ bdecls off @ bdecls v"
| "adecls (Concrete_storing a m) = adecls a @ concat (map (\<lambda>(k, v). bdecls v) m)"
| "adecls (ArrIte l a b) = ldecls l @ adecls a @ adecls b"
| "edecls (Elexpr l) = ldecls l"
| "edecls (Ebvexpr b) = bdecls b"
| "edecls (Ebvarray a) = adecls a"

fun lundefs :: "lexpr \<Rightarrow> undef_id list"
  and bundefs :: "bvexpr \<Rightarrow> undef_id list"
  and aundefs :: "bvarray \<Rightarrow> undef_id list"
  and eundefs :: "expr \<Rightarrow> undef_id list" where
  "lundefs (Boolean v) = []"
| "lundefs (Negation e) = lundefs e"
| "lundefs (Loring a b) = lundefs a @ lundefs b"
| "lundefs (Landing a b) = lundefs a @ lundefs b"
| "lundefs (Comparison f a b) = bundefs a @ bundefs b"
| "bundefs (Undefined w i n e) = i # (case e of None \<Rightarrow> [] | Some x \<Rightarrow> eundefs x)"
| "bundefs (Bitvector w v) = []"
| "bundefs (Bvvariable w n) = []"
| "bundefs (BvIte l a b) = lundefs l @ bundefs a @ bundefs b"
| "bundefs (Extraction S E e) = bundefs e"
| "bundefs (Bvnegation e) = bundefs e"
| "bundefs (Concatenation a b) = bundefs a @ bundefs b"
| "bundefs (Bvbinary f a b) = bundefs a @ bundefs b"
| "bundefs (Bvbit f a b) = bundefs a @ bundefs b"
| "bundefs (Bvrotation r e i) = bundefs e"
| "bundefs (Pointer p off) = []"
| "bundefs (Pointer_ext p off ext) = []"
| "bundefs (Pointer_base p s off) = []"
| "bundefs (Selection a off) = aundefs a @ bundefs off"
| "aundefs (Undefined_array A V i n e) = i # (case e of None \<Rightarrow> [] | Some x \<Rightarrow> eundefs x)"
| "aundefs (Bvavariable v) = []"
| "aundefs (Storing a off v) = aundefs a @ bundefs off @ bundefs v"
| "aundefs (Concrete_storing a m) = aundefs a @ concat (map (\<lambda>(k, v). bundefs v) m)"
| "aundefs (ArrIte l a b) = lundefs l @ aundefs a @ aundefs b"
| "eundefs (Elexpr l) = lundefs l"
| "eundefs (Ebvexpr b) = bundefs b"
| "eundefs (Ebvarray a) = aundefs a"

text \<open>
  What a formula declares determines its value, as far as no pointer is in it: two valuations
  that agree on the declarations and undefined objects agree on the formula.
\<close>

fun lpointer_free :: "lexpr \<Rightarrow> bool"
  and bpointer_free :: "bvexpr \<Rightarrow> bool"
  and apointer_free :: "bvarray \<Rightarrow> bool" where
  "lpointer_free (Boolean v) = True"
| "lpointer_free (Negation e) = lpointer_free e"
| "lpointer_free (Loring a b) = (lpointer_free a \<and> lpointer_free b)"
| "lpointer_free (Landing a b) = (lpointer_free a \<and> lpointer_free b)"
| "lpointer_free (Comparison f a b) = (bpointer_free a \<and> bpointer_free b)"
| "bpointer_free (Undefined w i n e) = True"
| "bpointer_free (Bitvector w v) = True"
| "bpointer_free (Bvvariable w n) = True"
| "bpointer_free (BvIte l a b) = (lpointer_free l \<and> bpointer_free a \<and> bpointer_free b)"
| "bpointer_free (Extraction S E e) = bpointer_free e"
| "bpointer_free (Bvnegation e) = bpointer_free e"
| "bpointer_free (Concatenation a b) = (bpointer_free a \<and> bpointer_free b)"
| "bpointer_free (Bvbinary f a b) = (bpointer_free a \<and> bpointer_free b)"
| "bpointer_free (Bvbit f a b) = (bpointer_free a \<and> bpointer_free b)"
| "bpointer_free (Bvrotation r e i) = bpointer_free e"
| "bpointer_free (Pointer p off) = False"
| "bpointer_free (Pointer_ext p off ext) = False"
| "bpointer_free (Pointer_base p s off) = False"
| "bpointer_free (Selection a off) = (apointer_free a \<and> bpointer_free off)"
| "apointer_free (Undefined_array A V i n e) = True"
| "apointer_free (Bvavariable v) = True"
| "apointer_free (Storing a off v) = (apointer_free a \<and> bpointer_free off \<and> bpointer_free v)"
| "apointer_free (Concrete_storing a m) = (apointer_free a \<and> (\<forall>(k, v) \<in> set m. bpointer_free v))"
| "apointer_free (ArrIte l a b) = (lpointer_free l \<and> apointer_free a \<and> apointer_free b)"

definition agree :: "valuation \<Rightarrow> valuation \<Rightarrow> decl list \<Rightarrow> undef_id list \<Rightarrow> bool" where
  "agree \<rho> \<sigma> ds us \<longleftrightarrow>
     (\<forall>d \<in> set ds. case d of Decl_var n \<Rightarrow> vars \<rho> n = vars \<sigma> n | Decl_array n \<Rightarrow> arrays \<rho> n = arrays \<sigma> n)
     \<and> (\<forall>u \<in> set us. unknowns \<rho> u = unknowns \<sigma> u \<and> unknown_arrays \<rho> u = unknown_arrays \<sigma> u)"

lemma agree_append [simp]:
  "agree \<rho> \<sigma> (ds @ es) (us @ vs) \<longleftrightarrow> agree \<rho> \<sigma> ds us \<and> agree \<rho> \<sigma> es vs"
  by (auto simp: agree_def)

lemma agree_concat:
  "agree \<rho> \<sigma> (concat (map f m)) (concat (map g m)) \<longleftrightarrow> (\<forall>x \<in> set m. agree \<rho> \<sigma> (f x) (g x))"
  by (induction m) (auto simp: agree_def)

lemma coincidence_aux:
  "lpointer_free l \<longrightarrow> agree \<rho> \<sigma> (ldecls l) (lundefs l) \<longrightarrow> leval \<rho> l = leval \<sigma> l"
  "bpointer_free b \<longrightarrow> agree \<rho> \<sigma> (bdecls b) (bundefs b) \<longrightarrow> bveval \<rho> b = bveval \<sigma> b"
  "apointer_free a \<longrightarrow> agree \<rho> \<sigma> (adecls a) (aundefs a) \<longrightarrow> aeval \<rho> a = aeval \<sigma> a"
  "e = (e :: expr)"
proof (induction l and b and a and e rule: lexpr.induct bvexpr.induct bvarray.induct expr.induct)
  case (Concrete_storing a m)
  show ?case
  proof (intro impI)
    assume pf: "apointer_free (Concrete_storing a m)"
      and ag: "agree \<rho> \<sigma> (adecls (Concrete_storing a m)) (aundefs (Concrete_storing a m))"
    have m: "map (\<lambda>(k, v). (uint k, bveval \<rho> v)) m = map (\<lambda>(k, v). (uint k, bveval \<sigma> v)) m"
      using pf ag Concrete_storing(2) by (fastforce simp: agree_concat)
    have "aeval \<rho> a = aeval \<sigma> a" using pf ag Concrete_storing(1) by simp
    then show "aeval \<rho> (Concrete_storing a m) = aeval \<sigma> (Concrete_storing a m)"
      by (simp only: aeval.simps m)
  qed
qed (auto simp: agree_def split: option.splits)

lemma coincidence:
  "lpointer_free l \<Longrightarrow> agree \<rho> \<sigma> (ldecls l) (lundefs l) \<Longrightarrow> leval \<rho> l = leval \<sigma> l"
  using coincidence_aux(1) by blast

end
