(* ===== verification/Expr_Typed.thy ===== *)
theory Expr_Typed
  imports Expr_Arith Expr_Eq
begin

text \<open>
  Type preservation of the smart constructors, without the side conditions under which their
  values are right, and the contract that they share.

  \<open>well w e\<close> says that \<open>e\<close> is an object of class \<open>bvexpr<w>\<close>.
\<close>

definition well :: "nat \<Rightarrow> bvexpr \<Rightarrow> bool" where
  "well w e \<longleftrightarrow> bwt e \<and> width e = w"

named_theorems typing \<open>typing rules of the constructors\<close>

lemma wellI: "bwt e \<Longrightarrow> width e = w \<Longrightarrow> well w e"
  by (simp add: well_def)

lemma well_pos: "well w e \<Longrightarrow> 0 < w"
  using bwt_width_pos by (auto simp: well_def)

lemma typed2_well: "typed2 a b \<longleftrightarrow> well (width a) a \<and> well (width a) b"
  by (auto simp: typed2_def well_def)

lemma well_implements: "implements \<rho> r e \<Longrightarrow> width e = w \<Longrightarrow> well w r"
  by (simp add: implements_def well_def)

subsection \<open>Bits\<close>

lemma well_const [typing]: "0 < w \<Longrightarrow> w \<le> 64 \<Longrightarrow> well w (bvconstant w v)"
  by (simp add: well_def)

lemma well_extract [typing]: "well w e \<Longrightarrow> E \<le> S \<Longrightarrow> S < w \<Longrightarrow> v = S - E + 1 \<Longrightarrow> well v (bvextract S E e)"
  by (auto simp: well_def bvextract_props)

lemma well_concat [typing]: "well v a \<Longrightarrow> well w b \<Longrightarrow> u = v + w \<Longrightarrow> well u (bvconcat a b)"
  by (auto simp: well_def bvconcat_props)

lemma well_extend [typing]: "well w e \<Longrightarrow> 0 < E \<Longrightarrow> E \<le> 64 \<Longrightarrow> v = E + w \<Longrightarrow> well v (bvextend E e)"
  by (auto simp: well_def extend_props)

lemma well_undef [typing]: "0 < w \<Longrightarrow> well w (undef w)"
  by (simp add: well_def undef_def)

lemma well_not [typing]: "well w e \<Longrightarrow> well w (bvnot e)"
  using implements_bvnot well_implements by (fastforce simp: well_def)

lemma well_or [typing]: "well w a \<Longrightarrow> well w b \<Longrightarrow> well w (bvor a b)"
  using implements_bvor [of a b] well_implements by (fastforce simp: well_def)

lemma well_xor [typing]: "well w a \<Longrightarrow> well w b \<Longrightarrow> well w (bvxor a b)"
  using implements_bvxor [of a b] well_implements by (fastforce simp: well_def)

lemma bvand_typed: "typed2 a b \<Longrightarrow> well (width a) (bvand a b)"
proof (induction a b rule: bvand.induct)
  case bv: (1 a b)
  then have t: "bwt a" "bwt b" "width a = width b" by (auto simp: typed2_def)
  consider r where "bvand_rule a b = Some r" | "bvand_rule a b = None" "bvand_pull a b = None"
    | X m y where "bvand_rule a b = None" "bvand_pull a b = Some (X, m, y)"
    by (cases "bvand_rule a b"; cases "bvand_pull a b") auto
  then show ?case
  proof cases
    case (1 r)
    then show ?thesis using implements_bvand_rule [OF 1 t] by (simp add: bvand.simps implements_def well_def)
  next
    case 2
    then show ?thesis using t by (simp add: bvand.simps well_def)
  next
    case (3 X m y)
    from 3(2) have p: "0 < X \<and> X \<le> 24 \<and> X < width a \<and> typed2 m y \<and> width m = width a - X"
    proof (cases rule: bvand_pull_cases)
      case (1 X' W v)
      from 1(2) show ?thesis
      proof (cases rule: BVAndPullConcat_SomeE)
        case c: (1 u w)
        have "bwt w" "width a \<le> 64" using t(1,2) 1(1) c(1) by simp_all
        then show ?thesis using c(3,4,6) 1(3) by (auto simp: typed2_def simp del: width.simps)
      qed
    next
      case (2 X' W v)
      from 2(2) show ?thesis
      proof (cases rule: BVAndPullConcat_SomeE)
        case c: (1 u w)
        have "bwt w" "width a \<le> 64" using t 2(1) c(1) by simp_all
        then show ?thesis using c(3,4,6) 2(3) by (auto simp: typed2_def simp del: width.simps)
      qed
    qed
    moreover have "well (width a - X) (bvand m y)" using bv.IH [OF 3 refl refl] p by simp
    moreover have "bvand a b = bvextend X (bvand m y)" using 3 by (simp add: bvand.simps)
    ultimately show ?thesis by (auto intro!: well_extend)
  qed
qed

lemma well_and [typing]: "well w a \<Longrightarrow> well w b \<Longrightarrow> well w (bvand a b)"
  using bvand_typed [of a b] by (simp add: typed2_def well_def)

subsection \<open>Shifts\<close>

lemma well_shl [typing]: "well w a \<Longrightarrow> well w b \<Longrightarrow> well w (bvshl a b)"
  using bvshl_typed by (simp add: well_def)

text \<open>No helper applies to a shift by 64 bits or more.\<close>

lemma bvlshr_large:
  assumes "cast_constant b = Some v" "64 \<le> unat v" "cast_constant a = None"
  shows "bvlshr a b = Bvbinary Bvlshiftr a b"
proof -
  have "v \<noteq> 8 \<and> v \<noteq> 16 \<and> v \<noteq> 24" using assms(2) by auto
  then show ?thesis using assms by (simp add: bvlshr.simps bvlshr_pull_def bvlshr_constant_def)
qed

lemma well_lshr [typing]:
  assumes "well w a" "well w b"
  shows "well w (bvlshr a b)"
proof (cases "\<exists>v. cast_constant b = Some v \<and> 64 \<le> unat v")
  case True
  then obtain v where v: "cast_constant b = Some v" "64 \<le> unat v" by blast
  show ?thesis
  proof (cases "cast_constant a")
    case None
    then show ?thesis using bvlshr_large [OF v None] assms by (simp add: well_def)
  next
    case (Some va)
    then obtain W where "a = Bitvector W va" by (rule cast_constant_SomeE)
    then show ?thesis using Some v(1) assms by (simp add: bvlshr.simps well_def)
  qed
next
  case False
  then have "\<And>v. cast_constant b = Some v \<Longrightarrow> unat v < 64" by (meson not_less)
  then show ?thesis using implements_bvlshr [of a b] assms by (auto simp: well_def implements_def)
qed

lemma well_ashr [typing]: "well w a \<Longrightarrow> well w b \<Longrightarrow> well w (bvashr a b)"
  by (simp add: well_def bvashr_def)

lemma well_rot [typing]: "well w e \<Longrightarrow> well w (bvrotl e i)" "well w e \<Longrightarrow> well w (bvrotr e i)"
  by (simp_all add: well_def bvrotl_def bvrotr_def)

subsection \<open>Arithmetic\<close>

lemma well_mul [typing]: "well w a \<Longrightarrow> well w b \<Longrightarrow> well w (bvmul a b)"
  by (simp add: well_def bvmul_def)

lemma well_pull_extract:
  assumes "well (width a + 32) r" "bwt a"
  shows "well (width a) (bvextract (width a + 31) 32 r)"
  using assms bwt_width_pos [OF assms(2)] by (intro well_extract [OF assms(1)]) auto

text \<open>The widths of the operands of the inner calls.\<close>

fun call_shape :: "nat \<Rightarrow> add_call \<Rightarrow> bool" where
  "call_shape W (AddPointer p (x, y)) = (width x = avar_A p \<and> avar_A p = W)"
| "call_shape W (AddPointerExt p (x, y) (z, w)) = (width x = avar_A p \<and> avar_A p + width z = W)"
| "call_shape W (AddPointerBase p s (x, y)) = (width x = avar_A p \<and> avar_A p = W)"
| "call_shape W (AddPullExtract S E (x, y)) = (S = W + 31 \<and> E = 32 \<and> width x = W + 32)"

lemma bvadd_call_shape:
  assumes "bvadd_call a b = Some c" "typed2 a b"
  shows "call_shape (width a) c"
proof -
  have t: "bwt a" "bwt b" "width b = width a" using assms(2) by (simp_all add: typed2_def)
  from assms(1) show ?thesis
  proof (cases rule: bvadd_call_cases)
    case (1 V)
    from 1(1) show ?thesis by (cases rule: bvadd_pointer_cases) (use t in auto)
  next
    case (2 V)
    from 2(1) show ?thesis
    proof (cases rule: bvadd_ext_cases)
      case (1 p off ext)
      have "width off = avar_A p" using t(1) 1(1) by simp
      then show ?thesis using 1(2-5) by simp
    next
      case (2 p off ext)
      then show ?thesis using ext_parts(2,6) [OF t(1) refl 2(3)] by simp
    qed
  next
    case 3
    then show ?thesis
    proof (cases rule: bvadd_base_cases)
      case (1 p s off)
      have "width off = avar_A p" using t(1) 1(1) by simp
      then show ?thesis using 1(2-4) by simp
    next
      case (2 p s off)
      then show ?thesis using bvshl_typed [of a "bvconstant 32 (of_nat s)"] t(1) by simp
    qed
  next
    case (4 S E e)
    then show ?thesis using t bvconcat_props(2) [of a "bvconstant 32 0"] by simp
  next
    case (5 S E e)
    then show ?thesis using t bvconcat_props(2) [of b "bvconstant 32 0"] by simp
  qed
qed

lemma bvadd_typed: "typed2 a b \<Longrightarrow> well (width a) (bvadd a b)"
proof (induction a b rule: bvadd.induct)
  case add: (1 a b)
  then have t: "bwt a" "bwt b" "width a = width b" by (auto simp: typed2_def)
  consider r where "BVAddConstant (width a) a b = Some r"
    | "BVAddConstant (width a) a b = None" "bvadd_call a b = None"
    | c where "BVAddConstant (width a) a b = None" "bvadd_call a b = Some c"
    by (cases "BVAddConstant (width a) a b"; cases "bvadd_call a b") auto
  then show ?case
  proof cases
    case 1
    then show ?thesis using add.prems BVAddConstant_sound [OF 1 add.prems]
      by (simp add: bvadd.simps implements_def well_def)
  next
    case 2
    then show ?thesis using t add.prems by (simp add: bvadd.simps well_def)
  next
    case (3 c)
    note descends = bvadd_call_descends [OF 3(2) add.prems]
    have ops: "typed2 x y" if "(x, y) \<in> add_calls c" for x y
      using descends that by (auto simp: add_descends_def)
    note shape = bvadd_call_shape [OF 3(2) add.prems]
    show ?thesis
    proof (cases c)
      case (AddPointer p xy)
      obtain x y where xy: "xy = (x, y)" by (cases xy)
      have "well (width x) (bvadd x y)" using add.IH(1) [OF _ 3] add.prems AddPointer xy ops by simp
      then show ?thesis using add.prems 3 AddPointer xy shape by (simp add: bvadd.simps [of a b] well_def)
    next
      case (AddPointerExt p xy zw)
      obtain x y z w where xy: "xy = (x, y)" "zw = (z, w)" by (cases xy; cases zw)
      have "well (width x) (bvadd x y)" "well (width z) (bvadd z w)"
        using add.IH(2,3) [OF _ 3] add.prems AddPointerExt xy ops by simp_all
      then show ?thesis using add.prems 3 AddPointerExt xy shape by (simp add: bvadd.simps [of a b] well_def)
    next
      case (AddPointerBase p s xy)
      obtain x y where xy: "xy = (x, y)" by (cases xy)
      have "well (width x) (bvadd x y)" using add.IH(4) [OF _ 3] add.prems AddPointerBase xy ops by simp
      then show ?thesis using add.prems 3 AddPointerBase xy shape by (simp add: bvadd.simps [of a b] well_def)
    next
      case (AddPullExtract S E xy)
      obtain x y where xy: "xy = (x, y)" by (cases xy)
      have "well (width x) (bvadd x y)" using add.IH(5) [OF _ 3] add.prems AddPullExtract xy ops by simp
      then have "well (width a + 32) (bvadd x y)" using shape AddPullExtract xy by simp
      then show ?thesis using add.prems 3 AddPullExtract xy t(1) shape well_pull_extract [of a "bvadd x y"]
        by (simp add: bvadd.simps [of a b])
    qed
  qed
qed

lemma well_add [typing]: "well w a \<Longrightarrow> well w b \<Longrightarrow> well w (bvadd a b)"
  using bvadd_typed [of a b] by (simp add: typed2_def well_def)

lemma bvsub_typed: "typed2 a b \<Longrightarrow> well (width a) (bvsub a b)"
proof (induction a b rule: bvsub.induct)
  case sub: (1 a b)
  have t: "bwt a" "bwt b" "width a = width b" using sub.prems by (auto simp: typed2_def)
  consider r where "BVSubConstant (width a) a b = Some r"
    | "BVSubConstant (width a) a b = None" "bvsub_call a b = None"
    | c where "BVSubConstant (width a) a b = None" "bvsub_call a b = Some c"
    by (cases "BVSubConstant (width a) a b"; cases "bvsub_call a b") auto
  then show ?case
  proof cases
    case 1
    then show ?thesis using BVSubConstant_sound [OF 1 sub.prems] by (simp add: bvsub.simps implements_def well_def)
  next
    case 2
    then show ?thesis using t by (simp add: bvsub.simps well_def)
  next
    case (3 c)
    from 3(2) show ?thesis
    proof (cases rule: bvsub_call_cases)
      case p: (1 p off q off')
      have "well (width off) (bvsub off off')"
        using sub.IH(1) [OF 3(1) 3(2) [unfolded p(4)] refl refl refl] t p(1,2) by (auto simp: typed2_def)
      moreover have "bvsub a b = bvsub off off'" using 3 p(4) by (simp add: bvsub.simps [of a b])
      ultimately show ?thesis using t(1) p(1) by simp
    next
      case p: (2 p off)
      have "well (width off) (bvsub off b)"
        using sub.IH(2) [OF 3(1) 3(2) [unfolded p(2)] refl refl refl] t p(1) by (auto simp: typed2_def)
      moreover have "bvsub a b = Pointer p (bvsub off b)" using 3 p(2) by (simp add: bvsub.simps [of a b])
      ultimately show ?thesis using t(1) p(1) by (simp add: well_def)
    qed
  qed
qed

lemma well_sub [typing]: "well w a \<Longrightarrow> well w b \<Longrightarrow> well w (bvsub a b)"
  using bvsub_typed [of a b] by (simp add: typed2_def well_def)

lemma well_carry [typing]:
  "well w a \<Longrightarrow> well w b \<Longrightarrow> well 1 (bvadd_carry a b)" "well w a \<Longrightarrow> well w b \<Longrightarrow> well 1 (bvsub_carry a b)"
  by (simp_all add: well_def bvadd_carry_def bvsub_carry_def)

subsection \<open>Comparison\<close>

lemma bvcomp_rule_const: "bvcomp_rule a b = Some r \<Longrightarrow> \<exists>v. r = bvconstant 1 v"
  unfolding bvcomp_rule_def Let_def
  by (drule first_some_mem) (auto simp: eq_commute [of "Some r"] bind_eq_Some_conv split: if_splits)

lemma bvcomp_typed: "typed2 a b \<Longrightarrow> well 1 (bvcomp a b)"
proof (induction a b rule: bvcomp.induct)
  case comp: (1 a b)
  have t: "bwt a" "bwt b" "width a = width b" using comp.prems by (auto simp: typed2_def)
  consider r where "bvcomp_rule a b = Some r" | "bvcomp_rule a b = None" "bvcomp_or a b = None"
    | r where "bvcomp_rule a b = None" "bvcomp_or a b = Some r"
    by (cases "bvcomp_rule a b"; cases "bvcomp_or a b") auto
  then show ?case
  proof cases
    case 1
    then show ?thesis using bvcomp_rule_const [OF 1] by (auto simp: bvcomp.simps intro: typing)
  next
    case 2
    then show ?thesis using t by (simp add: bvcomp.simps well_def)
  next
    case (3 r)
    obtain x y z w where r: "r = ((x, y), (z, w))" by (cases r) auto
    have "typed2 x y \<and> typed2 z w" using 3(2)
    proof (cases rule: bvcomp_or_cases)
      case (1 u v)
      have "bwt u" "bwt v" "width u = width v" using t(2) 1(2) by simp_all
      then show ?thesis using t(1) 1(3,4) r by (simp add: typed2_def)
    next
      case (2 u v)
      have "bwt u" "bwt v" "width u = width v" "width a = width u" using t(1) 2(2) by simp_all
      then show ?thesis using t(2,3) 2(3) r by (simp add: typed2_def)
    qed
    then have "well 1 (bvcomp x y)" "well 1 (bvcomp z w)"
      using comp.IH(1) [OF 3(1) 3(2) [unfolded r] refl refl refl] comp.IH(2) [OF 3(1) 3(2) [unfolded r] refl refl refl]
      by blast+
    then show ?thesis using 3 r by (simp add: bvcomp.simps [of a b] well_and)
  qed
qed

lemma well_comp [typing]: "well w a \<Longrightarrow> well w b \<Longrightarrow> well 1 (bvcomp a b)"
  using bvcomp_typed [of a b] by (simp add: typed2_def well_def)

subsection \<open>Formulas and memories\<close>

lemma lwt_compare [typing]:
  "well w a \<Longrightarrow> well w b \<Longrightarrow> lwt (bvult a b)" "well w a \<Longrightarrow> well w b \<Longrightarrow> lwt (bvuge a b)"
  "well w a \<Longrightarrow> well w b \<Longrightarrow> lwt (bvule a b)" "well w a \<Longrightarrow> well w b \<Longrightarrow> lwt (bvugt a b)"
  using bvult_sound [of a b] bvuge_sound [of a b] bvule_sound [of a b] bvugt_sound [of a b] by (auto simp: well_def)

lemma lwt_eq: "eq_bv a b = Some e \<Longrightarrow> well w a \<Longrightarrow> well w b \<Longrightarrow> lwt e"
  by (auto simp: eq_bv_def well_def split: if_splits)

lemma well_ite [typing]: "lwt l \<Longrightarrow> well w a \<Longrightarrow> well w b \<Longrightarrow> well w (bv_ite l a b)"
  using implements_bv_ite [of l a b] by (auto simp: well_def implements_def)

definition awell :: "nat \<Rightarrow> bvarray \<Rightarrow> bool" where
  "awell V a \<longleftrightarrow> awt a \<and> arr_A a = 32 \<and> arr_V a = V"

lemma well_select [typing]: "awell V a \<Longrightarrow> well 32 off \<Longrightarrow> 0 < V \<Longrightarrow> well V (select a off)"
  using implements_select [of a off] by (auto simp: well_def awell_def implements_def)

lemma awell_store [typing]: "awell V a \<Longrightarrow> well 32 off \<Longrightarrow> well V v \<Longrightarrow> awell V (store a off v)"
  using awt_store [of a off v] by (auto simp: well_def awell_def)

lemma arr_ite_type: "arr_ite l a b \<in> {a, b, ArrIte l a b}"
  by (cases l) (auto simp: arr_ite_def)

lemma awell_ite [typing]: "lwt l \<Longrightarrow> awell V a \<Longrightarrow> awell V b \<Longrightarrow> awell V (arr_ite l a b)"
  using arr_ite_type [of l a b] by (auto simp: awell_def)

end
