(* ===== verification/State.thy ===== *)
theory State
  imports Complex_Main Expr_Typed "HOL-Library.AList"
begin

text \<open>
  The symbolic machine state of \<open>src/estimator/state.hpp\<close> and \<open>state.cpp\<close>: the class
  \<open>state::exec\<close> with its registers, flags and memories, the updates that instructions produce,
  and how an update is stored.

  A computation that makes undefined objects (\<open>undef<B>(name)\<close>) takes the number of objects made
  so far and returns it increased; \<open>None\<close> stands for undefined behaviour, an uncaught exception
  or a call of \<open>errx\<close>.
\<close>

subsection \<open>Data\<close>

type_synonym 'a comp = "nat \<Rightarrow> ('a \<times> nat) option"

text \<open>
  The subclasses of \<open>state::update\<close>.  A \<open>deposit\<close> is known by its \<open>location()\<close>, a memory by its
  \<open>declname\<close>.  The text that \<open>invalidate_mem\<close> refers to is used nowhere and is left out, as is the
  flag \<open>is_debugged\<close>, which turns on a trace on \<open>stderr\<close>.
\<close>

datatype update =
    Defered u32 update
  | Noop
  | Reg string bvexpr
  | Flag string bvexpr
  | Mem8 string bvarray
  | Mem32 string bvarray
  | Invalidate_mem "expr option"

text \<open>\<open>sat_checker::assumption\<close> and \<open>sat_checker::model\<close>.\<close>

type_synonym assumption = "lexpr \<times> string"

record model =
  variables :: "(string \<times> u64) list"
  cells :: "((string \<times> u64) \<times> u64) list"

definition empty_model :: model where
  "empty_model = \<lparr>variables = [], cells = []\<rparr>"

text \<open>
  \<open>minimize\<close> is the \<open>bvvariable<14>\<close> to be minimized, known by its name.  A \<open>double\<close> is an exact
  rational number here; the rounding of its sums is not modelled.
\<close>

record exec =
  summaxcycles :: u32
  sumdramcycles :: rat
  sumcycles :: u32
  lastmem :: u32
  lastcc :: u32
  registers :: "(string \<times> bvexpr) list"
  flags :: "(string \<times> bvexpr) list"
  mem8 :: "(string \<times> bvarray) list"
  mem32 :: "(string \<times> bvarray) list"
  defered :: "(u32 \<times> update) list"
  minimize :: "string option"
  min_value :: u32
  max_value :: u32
  assumptions :: "assumption list"
  sat :: "bool option"
  model :: "model option"
  unsat_core :: "string list option"

text \<open>The default constructor \<open>exec()\<close>.\<close>

definition empty_exec :: exec where
  "empty_exec = \<lparr>summaxcycles = 0, sumdramcycles = 0, sumcycles = 0, lastmem = 0, lastcc = 0,
     registers = [], flags = [], mem8 = [], mem32 = [], defered = [], minimize = None,
     min_value = 0, max_value = 2 ^ 32 - 1, assumptions = [], sat = None, model = None, unsat_core = None\<rparr>"

subsection \<open>Storing updates\<close>

primrec update_store :: "update \<Rightarrow> exec \<Rightarrow> exec" where
  "update_store (Defered c u) s = s\<lparr>defered := defered s @ [(sumcycles s + c, u)]\<rparr>"
| "update_store Noop s = s"
| "update_store (Reg d e) s = s\<lparr>registers := AList.update d e (registers s)\<rparr>"
| "update_store (Flag d e) s = s\<lparr>flags := AList.update d e (flags s)\<rparr>"
| "update_store (Mem8 d e) s = s\<lparr>mem8 := AList.update d e (mem8 s)\<rparr>"
| "update_store (Mem32 d e) s = s\<lparr>mem32 := AList.update d e (mem32 s)\<rparr>"
| "update_store (Invalidate_mem e) s = s\<lparr>mem8 := [], mem32 := []\<rparr>"

definition store_all :: "update list \<Rightarrow> exec \<Rightarrow> exec" where
  "store_all us s = fold update_store us s"

lemma store_all_simps [simp]:
  "store_all [] s = s"
  "store_all (u # us) s = store_all us (update_store u s)"
  "store_all (us @ vs) s = store_all vs (store_all us s)"
  by (simp_all add: store_all_def)

lemma update_store_clocks [simp]:
  "summaxcycles (update_store u s) = summaxcycles s" "sumcycles (update_store u s) = sumcycles s"
  "lastmem (update_store u s) = lastmem s" "lastcc (update_store u s) = lastcc s"
  "minimize (update_store u s) = minimize s" "min_value (update_store u s) = min_value s"
  "max_value (update_store u s) = max_value s" "assumptions (update_store u s) = assumptions s"
  "sat (update_store u s) = sat s"
  by (cases u; simp)+

lemma store_all_clocks [simp]:
  "summaxcycles (store_all us s) = summaxcycles s" "sumcycles (store_all us s) = sumcycles s"
  "lastmem (store_all us s) = lastmem s" "lastcc (store_all us s) = lastcc s"
  "minimize (store_all us s) = minimize s" "min_value (store_all us s) = min_value s"
  "max_value (store_all us s) = max_value s" "assumptions (store_all us s) = assumptions s"
  "sat (store_all us s) = sat s"
  by (induction us arbitrary: s) simp_all

lemma empty_exec_simps [simp]:
  "registers empty_exec = []" "flags empty_exec = []" "mem8 empty_exec = []" "mem32 empty_exec = []"
  "defered empty_exec = []" "assumptions empty_exec = []" "sat empty_exec = None" "minimize empty_exec = None"
  by (simp_all add: empty_exec_def)

text \<open>
  \<open>undef<B>(name)\<close> makes a new object.  \<open>to_undef\<close> of \<open>invalidate_mem\<close> calls \<open>shared_from_this\<close>,
  but the class inherits \<open>enable_shared_from_this\<close> privately, so that the call throws.
\<close>

definition fresh :: "nat \<Rightarrow> string \<Rightarrow> expr option \<Rightarrow> bvexpr comp" where
  "fresh w nm e n = Some (Undefined w (Fresh n) nm e, Suc n)"

definition fresh_array :: "nat \<Rightarrow> nat \<Rightarrow> string \<Rightarrow> expr option \<Rightarrow> bvarray comp" where
  "fresh_array A V nm e n = Some (Undefined_array A V (Fresh n) nm e, Suc n)"

primrec to_undef :: "string \<Rightarrow> update \<Rightarrow> update comp" where
  "to_undef reason (Defered c u) n = to_undef reason u n"
| "to_undef reason Noop n = Some (Noop, n)"
| "to_undef reason (Reg d e) n = Option.bind (fresh 32 reason None n) (\<lambda>(x, n). Some (Reg d x, n))"
| "to_undef reason (Flag d e) n = Option.bind (fresh 1 reason None n) (\<lambda>(x, n). Some (Flag d x, n))"
| "to_undef reason (Mem8 d e) n = Some (Invalidate_mem None, n)"
| "to_undef reason (Mem32 d e) n = Some (Invalidate_mem None, n)"
| "to_undef reason (Invalidate_mem e) n = None"

subsection \<open>Reading\<close>

definition read_reg :: "exec \<Rightarrow> string \<Rightarrow> bvexpr comp" where
  "read_reg s loc n = (case map_of (registers s) loc of Some e \<Rightarrow> Some (e, n) | None \<Rightarrow> fresh 32 loc None n)"

definition read_flag :: "exec \<Rightarrow> string \<Rightarrow> bvexpr comp" where
  "read_flag s loc n = (case map_of (flags s) loc of Some e \<Rightarrow> Some (e, n) | None \<Rightarrow> fresh 1 loc None n)"

definition read_mem8 :: "exec \<Rightarrow> avar \<Rightarrow> bvarray comp" where
  "read_mem8 s a n = (case map_of (mem8 s) (declname a) of
     Some e \<Rightarrow> Some (e, n)
   | None \<Rightarrow> fresh_array 32 8 ''unknown_mem8'' (Some (Ebvarray (Bvavariable a))) n)"

definition read_mem32 :: "exec \<Rightarrow> avar \<Rightarrow> bvarray comp" where
  "read_mem32 s a n = (case map_of (mem32 s) (declname a) of
     Some e \<Rightarrow> Some (e, n)
   | None \<Rightarrow> fresh_array 32 32 ''unknown_mem32'' (Some (Ebvarray (Bvavariable a))) n)"

subsection \<open>Construction\<close>

text \<open>
  \<open>state::update\<close> of a pointer and a list of cells: the cells are stored over the array itself.
\<close>

definition update_cells :: "avar \<Rightarrow> (u32 \<times> bvexpr) list \<Rightarrow> update" where
  "update_cells p l =
     (let a = foldl (\<lambda>a (k, v). store a (bvconstant 32 (ucast k)) v) (Bvavariable p) l
      in if avar_V p = 8 then Mem8 (declname p) a else Mem32 (declname p) a)"

definition make_exec ::
  "u32 \<Rightarrow> rat \<Rightarrow> update list \<Rightarrow> string option \<Rightarrow> u32 \<Rightarrow> u32 \<Rightarrow> assumption list \<Rightarrow> exec" where
  "make_exec c d input m lo hi as = store_all input
     (empty_exec\<lparr>summaxcycles := c, sumdramcycles := d, sumcycles := c, lastmem := c, lastcc := c,
        minimize := m, min_value := lo, max_value := hi, assumptions := as\<rparr>)"

subsection \<open>Deposits\<close>

text \<open>
  Registers, flags and the two kinds of memory are four stores with the same contract: a write
  is seen by a read of the same place and by no other read.  The client's lemma says what is
  read after any sequence of writes.
\<close>

locale deposit =
  fixes get :: "exec \<Rightarrow> string \<Rightarrow> 'e option"
    and put :: "string \<Rightarrow> 'e \<Rightarrow> exec \<Rightarrow> exec"
  assumes get_put: "get (put d e s) d' = (if d = d' then Some e else get s d')"
begin

definition puts :: "(string \<times> 'e) list \<Rightarrow> exec \<Rightarrow> exec" where
  "puts ws s = fold (\<lambda>(d, e). put d e) ws s"

lemma puts_simps [simp]: "puts [] s = s" "puts ((d, e) # ws) s = puts ws (put d e s)"
  by (simp_all add: puts_def)

lemma get_puts: "get (puts ws s) d = (case map_of (rev ws) d of Some e \<Rightarrow> Some e | None \<Rightarrow> get s d)"
  by (induction ws arbitrary: s) (auto simp: get_put map_add_def split: option.splits)

lemma get_puts_other: "d \<notin> fst ` set ws \<Longrightarrow> get (puts ws s) d = get s d"
  by (induction ws arbitrary: s) (auto simp: get_put)

lemma get_puts_last: "get (puts (ws @ [(d, e)]) s) d = Some e"
  by (simp add: get_puts)

end

definition get_reg :: "exec \<Rightarrow> string \<Rightarrow> bvexpr option" where
  "get_reg s = map_of (registers s)"

definition get_flag :: "exec \<Rightarrow> string \<Rightarrow> bvexpr option" where
  "get_flag s = map_of (flags s)"

definition get_mem8 :: "exec \<Rightarrow> string \<Rightarrow> bvarray option" where
  "get_mem8 s = map_of (mem8 s)"

definition get_mem32 :: "exec \<Rightarrow> string \<Rightarrow> bvarray option" where
  "get_mem32 s = map_of (mem32 s)"

lemmas get_defs = get_reg_def get_flag_def get_mem8_def get_mem32_def

interpretation dreg: deposit get_reg "\<lambda>d e. update_store (Reg d e)"
  by unfold_locales (simp add: get_reg_def update_conv')

interpretation dflag: deposit get_flag "\<lambda>d e. update_store (Flag d e)"
  by unfold_locales (simp add: get_flag_def update_conv')

interpretation dmem8: deposit get_mem8 "\<lambda>d e. update_store (Mem8 d e)"
  by unfold_locales (simp add: get_mem8_def update_conv')

interpretation dmem32: deposit get_mem32 "\<lambda>d e. update_store (Mem32 d e)"
  by unfold_locales (simp add: get_mem32_def update_conv')

text \<open>The register and flag that a list of updates leaves behind.\<close>

fun last_reg :: "string \<Rightarrow> update list \<Rightarrow> bvexpr option" where
  "last_reg d [] = None"
| "last_reg d (u # us) = (case last_reg d us of
     Some e \<Rightarrow> Some e
   | None \<Rightarrow> (case u of Reg d' e \<Rightarrow> if d = d' then Some e else None | _ \<Rightarrow> None))"

fun last_flag :: "string \<Rightarrow> update list \<Rightarrow> bvexpr option" where
  "last_flag d [] = None"
| "last_flag d (u # us) = (case last_flag d us of
     Some e \<Rightarrow> Some e
   | None \<Rightarrow> (case u of Flag d' e \<Rightarrow> if d = d' then Some e else None | _ \<Rightarrow> None))"

lemma get_reg_update: "get_reg (update_store u s) d =
    (case u of Reg d' e \<Rightarrow> if d = d' then Some e else get_reg s d | _ \<Rightarrow> get_reg s d)"
  by (cases u) (auto simp: get_reg_def update_conv')

lemma get_flag_update: "get_flag (update_store u s) d =
    (case u of Flag d' e \<Rightarrow> if d = d' then Some e else get_flag s d | _ \<Rightarrow> get_flag s d)"
  by (cases u) (auto simp: get_flag_def update_conv')

lemma get_reg_store_all: "get_reg (store_all us s) d = (case last_reg d us of Some e \<Rightarrow> Some e | None \<Rightarrow> get_reg s d)"
  by (induction us arbitrary: s) (auto simp: get_reg_update split: option.splits update.splits)

lemma get_flag_store_all: "get_flag (store_all us s) d = (case last_flag d us of Some e \<Rightarrow> Some e | None \<Rightarrow> get_flag s d)"
  by (induction us arbitrary: s) (auto simp: get_flag_update split: option.splits update.splits)

subsection \<open>Well-formed states\<close>

text \<open>
  Every stored expression has the width of its place, no place is stored twice, and only writes
  of registers are deferred (\<open>local_csr::write\<close> and the two hidden ALU registers).
\<close>

fun is_reg :: "update \<Rightarrow> bool" where
  "is_reg (Reg d e) = well 32 e"
| "is_reg _ = False"

fun update_ok :: "update \<Rightarrow> bool" where
  "update_ok (Defered c u) = is_reg u"
| "update_ok Noop = True"
| "update_ok (Reg d e) = well 32 e"
| "update_ok (Flag d e) = well 1 e"
| "update_ok (Mem8 d e) = awell 8 e"
| "update_ok (Mem32 d e) = awell 32 e"
| "update_ok (Invalidate_mem e) = True"

definition exec_ok :: "exec \<Rightarrow> bool" where
  "exec_ok s \<longleftrightarrow>
     (\<forall>(d, e) \<in> set (registers s). well 32 e) \<and> distinct (map fst (registers s))
     \<and> (\<forall>(d, e) \<in> set (flags s). well 1 e) \<and> distinct (map fst (flags s))
     \<and> (\<forall>(d, e) \<in> set (mem8 s). awell 8 e) \<and> distinct (map fst (mem8 s))
     \<and> (\<forall>(d, e) \<in> set (mem32 s). awell 32 e) \<and> distinct (map fst (mem32 s))
     \<and> (\<forall>(c, u) \<in> set (defered s). is_reg u)
     \<and> (\<forall>(e, i) \<in> set (assumptions s). lwt e)"

lemma set_update_alist: "set (AList.update k v al) \<subseteq> insert (k, v) (set al)"
  by (induction al) auto

lemma ball_update_alist: "P (k, v) \<Longrightarrow> \<forall>x \<in> set al. P x \<Longrightarrow> \<forall>x \<in> set (AList.update k v al). P x"
  using set_update_alist by fast

lemma update_store_ok: "update_ok u \<Longrightarrow> exec_ok s \<Longrightarrow> exec_ok (update_store u s)"
  by (cases u) (auto simp: exec_ok_def distinct_update dest: set_update_alist [THEN subsetD])

lemma store_all_ok: "\<forall>u \<in> set us. update_ok u \<Longrightarrow> exec_ok s \<Longrightarrow> exec_ok (store_all us s)"
  by (induction us arbitrary: s) (auto simp: update_store_ok)

lemma read_reg_ok: "read_reg s loc n = Some (e, m) \<Longrightarrow> exec_ok s \<Longrightarrow> well 32 e"
  by (auto simp: read_reg_def fresh_def exec_ok_def well_def split: option.splits dest!: map_of_SomeD)

lemma read_flag_ok: "read_flag s loc n = Some (e, m) \<Longrightarrow> exec_ok s \<Longrightarrow> well 1 e"
  by (auto simp: read_flag_def fresh_def exec_ok_def well_def split: option.splits dest!: map_of_SomeD)

lemma read_mem8_ok: "read_mem8 s a n = Some (e, m) \<Longrightarrow> exec_ok s \<Longrightarrow> awell 8 e"
  by (auto simp: read_mem8_def fresh_array_def exec_ok_def awell_def split: option.splits dest!: map_of_SomeD)

lemma read_mem32_ok: "read_mem32 s a n = Some (e, m) \<Longrightarrow> exec_ok s \<Longrightarrow> awell 32 e"
  by (auto simp: read_mem32_def fresh_array_def exec_ok_def awell_def split: option.splits dest!: map_of_SomeD)

lemmas read_defs = read_reg_def read_flag_def read_mem8_def read_mem32_def

text \<open>Reading never fails, and only makes new objects.\<close>

lemma read_total:
  "\<exists>e m. read_reg s loc n = Some (e, m)" "\<exists>e m. read_flag s loc n = Some (e, m)"
  "\<exists>a' m. read_mem8 s a n = Some (a', m)" "\<exists>a' m. read_mem32 s a n = Some (a', m)"
  by (auto simp: read_defs fresh_def fresh_array_def split: option.splits)

lemma to_undef_ok:
  assumes "update_ok u" "\<forall>e. u \<noteq> Invalidate_mem e"
  shows "\<exists>v m. to_undef r u n = Some (v, m) \<and> update_ok v"
proof -
  have "\<exists>v m. to_undef r u n = Some (v, m) \<and> update_ok v" if "is_reg u" for u
    using that by (cases u) (auto simp: fresh_def well_def)
  then show ?thesis using assms by (cases u) (auto simp: fresh_def well_def)
qed

end
