(* ===== verification/Instr.thy ===== *)
theory Instr
  imports State
begin

text \<open>
  The instruction set of \<open>src/estimator/instr.hpp\<close> and \<open>instr.cpp\<close>: operands, operators and
  instructions as data, their names and locations, and the constants that the cycle counts are
  made of.  The classes of the hierarchy are datatypes; a subclass that only restricts its base
  (\<open>shift_cntl::aright\<close>, \<open>mul_step_tok::last\<close>) is a datatype of its own below it.
\<close>

subsection \<open>Operands\<close>

datatype gpr = Gpr (bank: char) (number: "8 word")

datatype lmindexed = Lmindexed (addr: "8 word") (offset: "8 word")

datatype src = Src_gpr gpr | Src_lmindexed lmindexed | Src_xfer_in "8 word" | Src_constant u32 | Src_omitted

datatype dst = Dst_gpr gpr | Dst_lmindexed lmindexed | Dst_xfer_out "8 word" | Dst_omitted

datatype local_csr = Local_csr string u32

text \<open>\<open>dynamic_cast<const instr::src*>\<close> of a destination.\<close>

primrec as_src :: "dst \<Rightarrow> src option" where
  "as_src (Dst_gpr g) = Some (Src_gpr g)"
| "as_src (Dst_lmindexed l) = Some (Src_lmindexed l)"
| "as_src (Dst_xfer_out x) = None"
| "as_src Dst_omitted = Some Src_omitted"

text \<open>\<open>gpr::flip\<close>: the register of the same number in the other bank.\<close>

definition gpr_flip :: "gpr \<Rightarrow> gpr" where
  "gpr_flip g = Gpr
     (char_of (of_char (bank g) XOR (of_char (CHR ''A'') XOR of_char (CHR ''B'') :: nat))) (number g)"

subsection \<open>Operators\<close>

datatype aright = Rightim "8 word" | Rightindirect

datatype shift_cntl = Leftim "8 word" | Aright aright | Rotleftim "8 word" | Rotrightim "8 word" | Leftindirect

datatype alu_op = Plus | Plus16 | Plus8 | Plus_carry | Minus_carry | Minus | Neg_minus
  | Op_B | InvB | Op_and | Inv_and | And_inv | Op_or | Op_xor

datatype last_tok = S16x16_last | S32x32_last | S32x32_last2

datatype mul_step_tok = Start | S16x16_step1 | S16x16_step2
  | S32x32_step1 | S32x32_step2 | S32x32_step3 | S32x32_step4 | Last last_tok

datatype mem_read_op = Read32_swap

datatype mem_write_op = Write8_swap | Write32_swap | Add_imm

datatype branch_op = Bcc | Bcs | Beq | Bge | Bgt | Ble | Blt | Bmi | Bne | Bpl | Bvc | Bvs

subsection \<open>Instructions\<close>

text \<open>
  A null \<open>shift_cntl\<close> is \<open>None\<close>.  \<open>mem_read_local\<close> and \<open>mem_write_local\<close> are memory
  instructions without shifts; a memory instruction keeps the number of its first transfer
  register, and \<open>xfers\<close> computes the others.
\<close>

datatype operation =
    Fin
  | Alu dst src alu_op src bool
  | Alu_shf dst src alu_op src "shift_cntl option" bool
  | Asr dst src aright bool
  | Proper_branch branch_op u32 u32
  | Br u32 u32
  | Dbl_shf dst src src shift_cntl bool
  | Immed dst u32 "shift_cntl option" bool
  | Immed_w1 dst u32 bool
  | Ld_field dst u32 src "shift_cntl option" bool
  | Ld_field_w_clr dst u32 src "shift_cntl option" bool
  | Local_csr_wr local_csr src
  | Mem_read mem_read_op "8 word" src "shift_cntl option" src "shift_cntl option" u32 bool u32
  | Mem_write mem_write_op "8 word" src "shift_cntl option" src "shift_cntl option" u32 bool u32
  | Mul_step src src mul_step_tok
  | Mul_step_last dst last_tok bool
  | Nop

datatype instr = Instr (get_id: u32) (operation: operation)

definition fin :: instr where
  "fin = Instr 15000 Fin"

datatype instr_type = RTN | FIN | BRANCH | JUMP | MEM | OTHER

primrec op_type :: "operation \<Rightarrow> instr_type" where
  "op_type Fin = FIN"
| "op_type (Alu d a f b w) = OTHER"
| "op_type (Alu_shf d a f b sc w) = OTHER"
| "op_type (Asr d a sc w) = OTHER"
| "op_type (Proper_branch f t d) = BRANCH"
| "op_type (Br t d) = JUMP"
| "op_type (Dbl_shf d a b sc w) = OTHER"
| "op_type (Immed d i sc w) = OTHER"
| "op_type (Immed_w1 d i w) = OTHER"
| "op_type (Ld_field d m a sc w) = OTHER"
| "op_type (Ld_field_w_clr d m a sc w) = OTHER"
| "op_type (Local_csr_wr c a) = OTHER"
| "op_type (Mem_read f x s1 sc1 s2 sc2 r i c) = MEM"
| "op_type (Mem_write f x s1 sc1 s2 sc2 r i c) = MEM"
| "op_type (Mul_step a b t) = OTHER"
| "op_type (Mul_step_last d t w) = OTHER"
| "op_type Nop = OTHER"

definition itype :: "instr \<Rightarrow> instr_type" where
  "itype n = op_type (operation n)"

primrec op_writescc :: "operation \<Rightarrow> bool" where
  "op_writescc Fin = True"
| "op_writescc (Alu d a f b w) = True"
| "op_writescc (Alu_shf d a f b sc w) = True"
| "op_writescc (Asr d a sc w) = True"
| "op_writescc (Proper_branch f t d) = False"
| "op_writescc (Br t d) = False"
| "op_writescc (Dbl_shf d a b sc w) = True"
| "op_writescc (Immed d i sc w) = False"
| "op_writescc (Immed_w1 d i w) = False"
| "op_writescc (Ld_field d m a sc w) = True"
| "op_writescc (Ld_field_w_clr d m a sc w) = True"
| "op_writescc (Local_csr_wr c a) = False"
| "op_writescc (Mem_read f x s1 sc1 s2 sc2 r i c) = False"
| "op_writescc (Mem_write f x s1 sc1 s2 sc2 r i c) = False"
| "op_writescc (Mul_step a b t) = False"
| "op_writescc (Mul_step_last d t w) = True"
| "op_writescc Nop = False"

definition writescc :: "instr \<Rightarrow> bool" where
  "writescc n = op_writescc (operation n)"

text \<open>\<open>ctx_swap\<close> is \<open>-1U\<close> if the instruction does not swap the context, and does not wait.\<close>

definition waits :: "instr \<Rightarrow> bool" where
  "waits n = (case operation n of
     Mem_read f x s1 sc1 s2 sc2 r i c \<Rightarrow> c \<noteq> - 1
   | Mem_write f x s1 sc1 s2 sc2 r i c \<Rightarrow> c \<noteq> - 1
   | _ \<Rightarrow> False)"

text \<open>\<open>name()\<close>.\<close>

primrec branch_name :: "branch_op \<Rightarrow> string" where
  "branch_name Bcc = ''bcc''"
| "branch_name Bcs = ''bcs''"
| "branch_name Beq = ''beq''"
| "branch_name Bge = ''bge''"
| "branch_name Bgt = ''bgt''"
| "branch_name Ble = ''ble''"
| "branch_name Blt = ''blt''"
| "branch_name Bmi = ''bmi''"
| "branch_name Bne = ''bne''"
| "branch_name Bpl = ''bpl''"
| "branch_name Bvc = ''bvc''"
| "branch_name Bvs = ''bvs''"

primrec op_name :: "operation \<Rightarrow> string" where
  "op_name Fin = ''fin''"
| "op_name (Alu d a f b w) = ''alu''"
| "op_name (Alu_shf d a f b sc w) = ''alu_shf''"
| "op_name (Asr d a sc w) = ''asr''"
| "op_name (Proper_branch f t d) = branch_name f"
| "op_name (Br t d) = ''br''"
| "op_name (Dbl_shf d a b sc w) = ''dbl_shf''"
| "op_name (Immed d i sc w) = ''immed''"
| "op_name (Immed_w1 d i w) = ''immed_w1''"
| "op_name (Ld_field d m a sc w) = ''ld_field''"
| "op_name (Ld_field_w_clr d m a sc w) = ''ld_field_w_clr''"
| "op_name (Local_csr_wr c a) = ''local_csr_wr''"
| "op_name (Mem_read f x s1 sc1 s2 sc2 r i c) = ''mem''"
| "op_name (Mem_write f x s1 sc1 s2 sc2 r i c) = ''mem''"
| "op_name (Mul_step a b t) = ''mul_step''"
| "op_name (Mul_step_last d t w) = ''mul_step''"
| "op_name Nop = ''nop''"

definition instr_name :: "instr \<Rightarrow> string" where
  "instr_name n = op_name (operation n)"

subsection \<open>Costs\<close>

abbreviation (input) COST :: u32 where "COST \<equiv> 1"
abbreviation (input) COST_TRUE_EARLY :: u32 where "COST_TRUE_EARLY \<equiv> 3"
abbreviation (input) COST_TRUE :: u32 where "COST_TRUE \<equiv> 4"
abbreviation (input) COST_FALSE :: u32 where "COST_FALSE \<equiv> 1"
abbreviation (input) COST_NOSWAP_MIN :: u32 where "COST_NOSWAP_MIN \<equiv> 1"
abbreviation (input) COST_SWAP_MIN :: u32 where "COST_SWAP_MIN \<equiv> 3"
abbreviation (input) COST_32BIT_MAX :: u32 where "COST_32BIT_MAX \<equiv> 16"
abbreviation (input) COST_40BIT_MAX :: u32 where "COST_40BIT_MAX \<equiv> 25"

primrec src_cycles :: "src \<Rightarrow> u32" where
  "src_cycles (Src_gpr g) = 0"
| "src_cycles (Src_lmindexed l) = 0"
| "src_cycles (Src_xfer_in x) = 0"
| "src_cycles (Src_constant v) = 0"
| "src_cycles Src_omitted = 0"

primrec dst_cycles :: "dst \<Rightarrow> u32" where
  "dst_cycles (Dst_gpr g) = 0"
| "dst_cycles (Dst_lmindexed l) = 0"
| "dst_cycles (Dst_xfer_out x) = 0"
| "dst_cycles Dst_omitted = 0"

text \<open>\<open>mem::cycles\<close>.\<close>

definition mem_cycles :: "u32 \<Rightarrow> src \<Rightarrow> src \<Rightarrow> u32" where
  "mem_cycles c s1 s2 =
     (if c = - 1 then COST_NOSWAP_MIN else COST_SWAP_MIN) + max (src_cycles s1) (src_cycles s2)"

text \<open>\<open>instr::cycles\<close>; it gives up for the instructions without a fixed number of cycles.\<close>

primrec op_cycles :: "operation \<Rightarrow> u32 option" where
  "op_cycles Fin = None"
| "op_cycles (Alu d a f b w) = Some (COST + dst_cycles d + max (src_cycles a) (src_cycles b))"
| "op_cycles (Alu_shf d a f b sc w) = Some (COST + dst_cycles d + max (src_cycles a) (src_cycles b))"
| "op_cycles (Asr d a sc w) = Some (COST + dst_cycles d + src_cycles a)"
| "op_cycles (Proper_branch f t d) = None"
| "op_cycles (Br t d) = Some COST_TRUE"
| "op_cycles (Dbl_shf d a b sc w) = Some (COST + dst_cycles d + max (src_cycles a) (src_cycles b))"
| "op_cycles (Immed d i sc w) = Some (COST + dst_cycles d)"
| "op_cycles (Immed_w1 d i w) = Some (COST + dst_cycles d)"
| "op_cycles (Ld_field d m a sc w) = Some (COST + dst_cycles d + src_cycles a)"
| "op_cycles (Ld_field_w_clr d m a sc w) = Some (COST + dst_cycles d + src_cycles a)"
| "op_cycles (Local_csr_wr c a) = Some (COST + src_cycles a)"
| "op_cycles (Mem_read f x s1 sc1 s2 sc2 r i c) = Some (mem_cycles c s1 s2)"
| "op_cycles (Mem_write f x s1 sc1 s2 sc2 r i c) = Some (mem_cycles c s1 s2)"
| "op_cycles (Mul_step a b t) = Some (COST + max (src_cycles a) (src_cycles b))"
| "op_cycles (Mul_step_last d t w) = Some (COST + dst_cycles d)"
| "op_cycles Nop = Some COST"

definition instr_cycles :: "instr \<Rightarrow> u32 option" where
  "instr_cycles n = op_cycles (operation n)"

definition max_cycles :: "instr \<Rightarrow> u32 option" where
  "max_cycles n = (case operation n of
     Mem_read f x s1 sc1 s2 sc2 r i c \<Rightarrow>
       Some (if sc1 = None \<and> sc2 = None then COST_32BIT_MAX else COST_40BIT_MAX)
   | Mem_write f x s1 sc1 s2 sc2 r i c \<Rightarrow>
       Some (if sc1 = None \<and> sc2 = None then COST_32BIT_MAX else COST_40BIT_MAX)
   | _ \<Rightarrow> instr_cycles n)"

text \<open>\<open>dram_cycles\<close>; two of the write operators give up.\<close>

primrec read_dram_cycles :: "mem_read_op \<Rightarrow> rat" where
  "read_dram_cycles Read32_swap = 4052463035413383 / 10 ^ 15"

primrec write_dram_cycles :: "mem_write_op \<Rightarrow> rat option" where
  "write_dram_cycles Write8_swap = None"
| "write_dram_cycles Write32_swap = None"
| "write_dram_cycles Add_imm = Some (3219818925010342 / 10 ^ 15)"

definition dram_cycles :: "instr \<Rightarrow> rat option" where
  "dram_cycles n = (case operation n of
     Mem_read f x s1 sc1 s2 sc2 r i c \<Rightarrow>
       if sc1 = None \<and> sc2 = None then Some 0 else Some (read_dram_cycles f)
   | Mem_write f x s1 sc1 s2 sc2 r i c \<Rightarrow>
       if sc1 = None \<and> sc2 = None then Some 0 else write_dram_cycles f
   | _ \<Rightarrow> Some 0)"

subsection \<open>Transfer registers\<close>

primrec read_op_xfers :: "mem_read_op \<Rightarrow> u32 \<Rightarrow> u32" where
  "read_op_xfers Read32_swap ref_cnt = ref_cnt"

primrec write_op_xfers :: "mem_write_op \<Rightarrow> u32 \<Rightarrow> u32" where
  "write_op_xfers Write8_swap ref_cnt = (ref_cnt + 3) div 4"
| "write_op_xfers Write32_swap ref_cnt = ref_cnt"
| "write_op_xfers Add_imm ref_cnt = 0"

text \<open>
  The constructor of \<open>mem\<close> takes the given register and, while \<open>i < max\<close>, the next one;
  \<open>REF_CNT_MAX\<close> is 32.
\<close>

primrec next_xfers :: "8 word \<Rightarrow> nat \<Rightarrow> 8 word list" where
  "next_xfers x 0 = []"
| "next_xfers x (Suc k) = (x + 1) # next_xfers (x + 1) k"

definition xfers :: "8 word \<Rightarrow> u32 \<Rightarrow> 8 word list" where
  "xfers x m = x # next_xfers x (unat m - 1)"

definition read_xfers :: "mem_read_op \<Rightarrow> 8 word \<Rightarrow> u32 \<Rightarrow> bool \<Rightarrow> 8 word list" where
  "read_xfers f x ref_cnt indirect = xfers x (read_op_xfers f (if indirect then 32 else ref_cnt))"

definition write_xfers :: "mem_write_op \<Rightarrow> 8 word \<Rightarrow> u32 \<Rightarrow> bool \<Rightarrow> 8 word list" where
  "write_xfers f x ref_cnt indirect = xfers x (write_op_xfers f (if indirect then 32 else ref_cnt))"

lemma length_next_xfers [simp]: "length (next_xfers x k) = k"
  by (induction k arbitrary: x) auto

lemma nth_next_xfers: "i < k \<Longrightarrow> next_xfers x k ! i = x + of_nat (Suc i)"
  by (induction k arbitrary: x i) (auto simp: nth_Cons split: nat.splits)

lemma length_xfers: "length (xfers x m) = max 1 (unat m)"
  by (simp add: xfers_def)

lemma nth_xfers: "i < length (xfers x m) \<Longrightarrow> xfers x m ! i = x + of_nat i"
  by (cases i) (auto simp: xfers_def nth_next_xfers)

text \<open>The registers of a transfer of at most 256 words are different.\<close>

lemma distinct_xfers: "unat m \<le> 256 \<Longrightarrow> distinct (xfers x m)"
  by (auto simp: distinct_conv_nth nth_xfers length_xfers)
    (auto simp: word_of_nat_eq_iff take_bit_nat_def)

subsection \<open>Locations\<close>

primrec gpr_location :: "gpr \<Rightarrow> string" where
  "gpr_location (Gpr b n) = ''gpr'' @ [b] @ ''_'' @ decimal (unat n)"

definition xfer_in_location :: "8 word \<Rightarrow> string" where
  "xfer_in_location x = ''$xfer_in_'' @ decimal (unat x)"

definition xfer_out_location :: "8 word \<Rightarrow> string" where
  "xfer_out_location x = ''$xfer_out_'' @ decimal (unat x)"

abbreviation "N_flag \<equiv> ''N''"
abbreviation "Z_flag \<equiv> ''Z''"
abbreviation "V_flag \<equiv> ''V''"
abbreviation "C_flag \<equiv> ''C''"
abbreviation "PREV_ALU \<equiv> ''PREV_ALU''"
abbreviation "PREV_A \<equiv> ''PREV_A''"
abbreviation "mulA \<equiv> ''mulA''"
abbreviation "mulB \<equiv> ''mulB''"
abbreviation "mul_state \<equiv> ''mul_state''"

definition ActLMAddr :: "local_csr list" where
  "ActLMAddr = [Local_csr ''ActLMAddr0'' 3, Local_csr ''ActLMAddr1'' 3, Local_csr ''ActLMAddr2'' 3,
     Local_csr ''ActLMAddr3'' 3]"

primrec local_csr_location :: "local_csr \<Rightarrow> string" where
  "local_csr_location (Local_csr nm l) = nm"

text \<open>All registers of the machine.  No two of them share a location.\<close>

definition hidden_registers :: "string list" where
  "hidden_registers = [PREV_ALU, PREV_A, mulA, mulB, mul_state] @ map local_csr_location ActLMAddr"

datatype register = R_gpr gpr | R_xfer_in "8 word" | R_xfer_out "8 word" | R_hidden string

primrec location :: "register \<Rightarrow> string" where
  "location (R_gpr g) = gpr_location g"
| "location (R_xfer_in x) = xfer_in_location x"
| "location (R_xfer_out x) = xfer_out_location x"
| "location (R_hidden r) = r"

primrec known_register :: "register \<Rightarrow> bool" where
  "known_register (R_gpr g) = True"
| "known_register (R_xfer_in x) = True"
| "known_register (R_xfer_out x) = True"
| "known_register (R_hidden r) = (r \<in> set hidden_registers)"

lemma gpr_location_alt: "gpr_location g = CHR ''g'' # CHR ''p'' # CHR ''r'' # bank g # CHR ''_'' # decimal (unat (number g))"
  by (cases g) simp

lemma gpr_location_inj: "gpr_location g = gpr_location h \<Longrightarrow> g = h"
  by (cases g; cases h) (simp flip: word_unat_eq_iff)

lemma location_inj:
  "known_register r \<Longrightarrow> known_register q \<Longrightarrow> location r = location q \<Longrightarrow> r = q"
proof (induction r arbitrary: q)
  case (R_gpr g)
  then show ?case by (cases q) (auto simp: xfer_in_location_def xfer_out_location_def hidden_registers_def
      ActLMAddr_def gpr_location_alt intro: gpr.expand simp flip: word_unat_eq_iff)
qed (case_tac q; auto simp: xfer_in_location_def xfer_out_location_def hidden_registers_def
      ActLMAddr_def gpr_location_alt simp flip: word_unat_eq_iff)+

end
