(* ===== verification/Perform.thy ===== *)
theory Perform
  imports Instr "HOL-Library.Monad_Syntax"
begin

text \<open>
  What an instruction does to a symbolic state (\<open>src/estimator/instr.cpp\<close>): the operands it
  reads and writes, \<open>shift_cntl::calculate\<close>, \<open>alu_op::calculate\<close>, \<open>assign::calculate\<close>, the memory
  operators, \<open>perform\<close> and the conditions of the branches (\<open>check\<close>).
\<close>

subsection \<open>Operands\<close>

text \<open>The common part of \<open>lmindexed::read\<close> and \<open>lmindexed::write\<close>: the memory and the cell.\<close>

datatype lmaddr = Lm_ok avar bvexpr | Lm_bad string expr

definition lm_address :: "exec \<Rightarrow> lmindexed \<Rightarrow> string \<Rightarrow> lmaddr comp" where
  "lm_address s l dir n = (if length ActLMAddr \<le> unat (addr l) then None else do {
     (a, n) \<leftarrow> read_reg s (local_csr_location (ActLMAddr ! unat (addr l))) n;
     Some (case cast_ptr 32 32 a of
         None \<Rightarrow> Lm_bad (''non_ptr_lmaddr_'' @ dir) (Ebvexpr a)
       | Some (p, off) \<Rightarrow> (case cast_constant off of
           None \<Rightarrow> Lm_bad (''non_constant_lmaddr_'' @ dir) (Ebvexpr off)
         | Some v \<Rightarrow>
             if v mod 4 \<noteq> 0 then Lm_bad (''unaligned_lmaddr_'' @ dir) (Ebvexpr off)
             else Lm_ok p (bvconstant 32 (v div 4 + ucast (offset l)))), n)
   })"

definition read_lmindexed :: "exec \<Rightarrow> lmindexed \<Rightarrow> bvexpr comp" where
  "read_lmindexed s l n = do {
     (a, n) \<leftarrow> lm_address s l ''read'' n;
     case a of
       Lm_bad r e \<Rightarrow> fresh 32 r (Some e) n
     | Lm_ok p k \<Rightarrow> do { (m, n) \<leftarrow> read_mem32 s p n; Some (select m k, n) }
   }"

definition write_lmindexed :: "exec \<Rightarrow> lmindexed \<Rightarrow> bvexpr \<Rightarrow> update comp" where
  "write_lmindexed s l e n = do {
     (a, n) \<leftarrow> lm_address s l ''write'' n;
     case a of
       Lm_bad r x \<Rightarrow> Some (Invalidate_mem (Some x), n)
     | Lm_ok p k \<Rightarrow> do { (m, n) \<leftarrow> read_mem32 s p n; Some (Mem32 (declname p) (store m k e), n) }
   }"

primrec read_src :: "exec \<Rightarrow> src \<Rightarrow> bvexpr comp" where
  "read_src s (Src_gpr g) n = read_reg s (gpr_location g) n"
| "read_src s (Src_lmindexed l) n = read_lmindexed s l n"
| "read_src s (Src_xfer_in x) n = read_reg s (xfer_in_location x) n"
| "read_src s (Src_constant v) n = Some (bvconstant 32 (ucast v), n)"
| "read_src s Src_omitted n = fresh 32 ''omitted'' None n"

primrec write_dst :: "exec \<Rightarrow> dst \<Rightarrow> bvexpr \<Rightarrow> update comp" where
  "write_dst s (Dst_gpr g) e n = Some (Reg (gpr_location g) e, n)"
| "write_dst s (Dst_lmindexed l) e n = write_lmindexed s l e n"
| "write_dst s (Dst_xfer_out x) e n = Some (Reg (xfer_out_location x) e, n)"
| "write_dst s Dst_omitted e n = Some (Noop, n)"

definition read_src_opt :: "exec \<Rightarrow> src option \<Rightarrow> string \<Rightarrow> bvexpr comp" where
  "read_src_opt s a r n = (case a of Some a \<Rightarrow> read_src s a n | None \<Rightarrow> fresh 32 r None n)"

primrec local_csr_write :: "local_csr \<Rightarrow> bvexpr \<Rightarrow> update" where
  "local_csr_write (Local_csr nm latency) e = Defered latency (Reg nm e)"

subsection \<open>Shifts\<close>

text \<open>
  \<open>shift_cntl::calculate\<close> exists for 32 and 64 bits, that of \<open>aright\<close> also for 33 bits, where it
  is arithmetic.  The amount of an indirect shift is extended to the width of the operand.
\<close>

definition indirect_amount :: "exec \<Rightarrow> nat \<Rightarrow> bvexpr comp" where
  "indirect_amount s w n = do {
     (p, n) \<leftarrow> read_reg s PREV_A n;
     let a = bvand p (bvconstant 32 31);
     Some (if w = 32 then a else bvextend (w - 32) a, n)
   }"

primrec aright_calc :: "exec \<Rightarrow> aright \<Rightarrow> bvexpr \<Rightarrow> bvexpr comp" where
  "aright_calc s (Rightim k) e n = Some (bvlshr e (bvconstant (width e) (ucast k)), n)"
| "aright_calc s Rightindirect e n = do { (a, n) \<leftarrow> indirect_amount s (width e) n; Some (bvlshr e a, n) }"

primrec aright_calc33 :: "exec \<Rightarrow> aright \<Rightarrow> bvexpr \<Rightarrow> bvexpr comp" where
  "aright_calc33 s (Rightim k) e n = Some (bvashr e (bvconstant 33 (ucast k)), n)"
| "aright_calc33 s Rightindirect e n = do { (a, n) \<leftarrow> indirect_amount s 33 n; Some (bvashr e a, n) }"

primrec shift_calc :: "exec \<Rightarrow> shift_cntl \<Rightarrow> bvexpr \<Rightarrow> bvexpr comp" where
  "shift_calc s (Leftim k) e n = Some (bvshl e (bvconstant (width e) (ucast k)), n)"
| "shift_calc s (Aright a) e n = aright_calc s a e n"
| "shift_calc s (Rotleftim k) e n = Some (bvrotl e (unat k), n)"
| "shift_calc s (Rotrightim k) e n = Some (bvrotr e (unat k), n)"
| "shift_calc s Leftindirect e n = do { (a, n) \<leftarrow> indirect_amount s (width e) n; Some (bvshl e a, n) }"

definition shift_opt :: "exec \<Rightarrow> shift_cntl option \<Rightarrow> bvexpr \<Rightarrow> bvexpr comp" where
  "shift_opt s sc e n = (case sc of Some c \<Rightarrow> shift_calc s c e n | None \<Rightarrow> Some (e, n))"

subsection \<open>Arithmetic and logic\<close>

text \<open>\<open>assign::result\<close>.\<close>

record result =
  res_dst :: bvexpr
  res_v :: bvexpr
  res_c :: bvexpr
  res_u :: "update list"

definition mk_result :: "bvexpr \<Rightarrow> bvexpr \<Rightarrow> bvexpr \<Rightarrow> result" where
  "mk_result d v c = \<lparr>res_dst = d, res_v = v, res_c = c, res_u = []\<rparr>"

definition plain_result :: "bvexpr \<Rightarrow> update list \<Rightarrow> result" where
  "plain_result d u = \<lparr>res_dst = d, res_v = undef 1, res_c = undef 1, res_u = u\<rparr>"

definition logic_result :: "bvexpr \<Rightarrow> result" where
  "logic_result d = mk_result d (bvconstant 1 0) (bvconstant 1 0)"

definition alu_plus :: "bvexpr \<Rightarrow> bvexpr \<Rightarrow> result" where
  "alu_plus A B =
     (let addition = bvadd A B;
          extended = bvadd (bvextend 1 A) (bvextend 1 B);
          carry = bvadd_carry A B;
          carry30 = bvextract 31 31 addition;
          carry31 = bvextract 32 32 extended
      in mk_result addition (bvxor carry31 carry30) carry)"

definition minus_overflow :: "bvexpr \<Rightarrow> bvexpr \<Rightarrow> bvexpr \<Rightarrow> bvexpr" where
  "minus_overflow A B d =
     (let s1 = bvextract 31 31 A; s2 = bvextract 31 31 B
      in bvand (bvxor s1 s2) (bvnot (bvxor s2 (bvextract 31 31 d))))"

definition alu_minus :: "bvexpr \<Rightarrow> bvexpr \<Rightarrow> result" where
  "alu_minus A B =
     (let substrac = bvsub A B in mk_result substrac (minus_overflow A B substrac) (bvsub_carry A B))"

definition cast_carry :: "bitop \<Rightarrow> nat \<Rightarrow> bvexpr \<Rightarrow> (bvexpr \<times> bvexpr) option" where
  "cast_carry f w e = (case e of Bvbit f' a b \<Rightarrow> if f = f' \<and> width a = w then Some (a, b) else None | _ \<Rightarrow> None)"

text \<open>
  An addition with carry that follows an addition of the lower words is computed as one addition
  of 64 bits, unless the operand is a pointer.
\<close>

definition alu_plus_carry :: "exec \<Rightarrow> bvexpr \<Rightarrow> bvexpr \<Rightarrow> result comp" where
  "alu_plus_carry s A B n = do {
     (C, n) \<leftarrow> read_flag s C_flag n;
     let (addition, extended, carry) =
       (case cast_carry Bvaddition_carry 32 C of
          None \<Rightarrow>
            (bvadd (bvadd A B) (bvextend 31 C),
             bvadd (bvadd (bvextend 1 A) (bvextend 1 B)) (bvextend 32 C),
             bvadd_carry (bvadd A B) (bvextend 31 C))
        | Some (a, b) \<Rightarrow>
            if cast_ptr_base 32 8 A \<noteq> None then
              let addC = bvextract 32 32 (bvadd (bvextend 1 a) (bvextend 1 b));
                  extended = bvadd (bvadd (bvextend 1 A) (bvextend 1 B)) (bvextend 32 addC)
              in (bvadd (bvadd A B) (bvextend 31 addC), extended, bvextract 32 32 extended)
            else
              let fA = bvconcat A a; fB = bvconcat B b
              in (bvextract 63 32 (bvadd fA fB),
                  bvextract 64 32 (bvadd (bvextend 1 fA) (bvextend 1 fB)),
                  bvadd_carry fA fB));
     Some (mk_result addition (bvxor (bvextract 32 32 extended) (bvextract 31 31 addition)) carry, n)
   }"

definition alu_minus_carry :: "exec \<Rightarrow> bvexpr \<Rightarrow> bvexpr \<Rightarrow> result comp" where
  "alu_minus_carry s A B n = do {
     (C, n) \<leftarrow> read_flag s C_flag n;
     let (substrac, carry) =
       (case cast_carry Bvsubstraction_carry 32 C of
          None \<Rightarrow> (bvsub (bvsub A B) (bvextend 31 C), bvsub_carry (bvsub A B) (bvextend 31 C))
        | Some (a, b) \<Rightarrow>
            let fA = bvconcat A a; fB = bvconcat B b
            in (bvextract 63 32 (bvsub fA fB), bvsub_carry fA fB));
     Some (mk_result substrac (minus_overflow A B substrac) carry, n)
   }"

primrec alu_calc :: "exec \<Rightarrow> alu_op \<Rightarrow> bvexpr \<Rightarrow> bvexpr \<Rightarrow> result comp" where
  "alu_calc s Plus A B n = Some (alu_plus A B, n)"
| "alu_calc s Plus16 A B n = Some (alu_plus A (bvand B (bvconstant 32 0xffff)), n)"
| "alu_calc s Plus8 A B n = Some (alu_plus A (bvand B (bvconstant 32 0xffff)), n)"
| "alu_calc s Plus_carry A B n = alu_plus_carry s A B n"
| "alu_calc s Minus_carry A B n = alu_minus_carry s A B n"
| "alu_calc s Minus A B n = Some (alu_minus A B, n)"
| "alu_calc s Neg_minus A B n = Some (alu_minus B A, n)"
| "alu_calc s Op_B A B n = Some (logic_result B, n)"
| "alu_calc s InvB A B n = Some (logic_result (bvnot B), n)"
| "alu_calc s Op_and A B n = Some (logic_result (bvand A B), n)"
| "alu_calc s Inv_and A B n = Some (logic_result (bvand (bvnot A) B), n)"
| "alu_calc s And_inv A B n = Some (logic_result (bvand A (bvnot B)), n)"
| "alu_calc s Op_or A B n = Some (logic_result (bvor A B), n)"
| "alu_calc s Op_xor A B n = Some (logic_result (bvxor A B), n)"

primrec writes_prev :: "alu_op \<Rightarrow> bool" where
  "writes_prev Plus = False"
| "writes_prev Plus16 = False"
| "writes_prev Plus8 = False"
| "writes_prev Plus_carry = False"
| "writes_prev Minus_carry = False"
| "writes_prev Minus = False"
| "writes_prev Neg_minus = False"
| "writes_prev Op_B = True"
| "writes_prev InvB = True"
| "writes_prev Op_and = True"
| "writes_prev Inv_and = True"
| "writes_prev And_inv = True"
| "writes_prev Op_or = True"
| "writes_prev Op_xor = True"

text \<open>\<open>alu_like::calculate\<close>.\<close>

definition alu_like_calc ::
  "exec \<Rightarrow> src \<Rightarrow> alu_op \<Rightarrow> src \<Rightarrow> shift_cntl option \<Rightarrow> result comp" where
  "alu_like_calc s srcA f srcB sc n = do {
     (A, n) \<leftarrow> read_src s srcA n;
     (B, n) \<leftarrow> read_src s srcB n;
     (B, n) \<leftarrow> shift_opt s sc B n;
     (r, n) \<leftarrow> alu_calc s f A B n;
     Some (if writes_prev f then
             r\<lparr>res_u := res_u r @ [Reg PREV_A A, Reg PREV_ALU (res_dst r),
                Defered 1 (Reg PREV_A (undef 32)), Defered 1 (Reg PREV_ALU (undef 32))]\<rparr>
           else r, n)
   }"

definition asr_calc :: "exec \<Rightarrow> src \<Rightarrow> aright \<Rightarrow> result comp" where
  "asr_calc s a sc n = do {
     (prev, n) \<leftarrow> read_reg s PREV_ALU n;
     (e, n) \<leftarrow> read_src s a n;
     (x, n) \<leftarrow> aright_calc33 s sc (bvconcat (bvextract 31 31 prev) e) n;
     Some (logic_result (bvextract 31 0 x)
       \<lparr>res_u := [Reg PREV_ALU prev, Defered 1 (Reg PREV_ALU (undef 32))]\<rparr>, n)
   }"

definition dbl_shf_calc :: "exec \<Rightarrow> src \<Rightarrow> src \<Rightarrow> shift_cntl \<Rightarrow> result comp" where
  "dbl_shf_calc s srcA srcB sc n = do {
     (A, n) \<leftarrow> read_src s srcA n;
     (B, n) \<leftarrow> read_src s srcB n;
     (x, n) \<leftarrow> shift_calc s sc (bvconcat A B) n;
     Some (logic_result (bvextract 31 0 x), n)
   }"

definition immed_calc :: "exec \<Rightarrow> u32 \<Rightarrow> shift_cntl option \<Rightarrow> result comp" where
  "immed_calc s im sc n = do {
     let e32 = bvconstant 32 (ucast im);
     (i, n) \<leftarrow> shift_opt s sc (bvconcat e32 e32) n;
     let r = bvextract 63 32 i;
     Some (plain_result r [Reg PREV_ALU r], n)
   }"

definition immed_w1_calc :: "exec \<Rightarrow> dst \<Rightarrow> u32 \<Rightarrow> result comp" where
  "immed_w1_calc s d im n = do {
     (p, n) \<leftarrow> read_src_opt s (as_src d) ''immed_w1_no_src'' n;
     Some (plain_result (bvconcat (bvconstant 16 (ucast im)) (bvextract 15 0 p)) [], n)
   }"

text \<open>The decimal digits of the mask select the bytes.\<close>

definition field_mask :: "u32 \<Rightarrow> u32" where
  "field_mask m =
     (if m mod 10 \<noteq> 0 then 0xff else 0) OR (if m div 10 mod 10 \<noteq> 0 then 0xff00 else 0)
     OR (if m div 100 mod 10 \<noteq> 0 then 0xff0000 else 0) OR (if m div 1000 \<noteq> 0 then 0xff000000 else 0)"

definition ld_field_calc :: "exec \<Rightarrow> dst \<Rightarrow> u32 \<Rightarrow> src \<Rightarrow> shift_cntl option \<Rightarrow> result comp" where
  "ld_field_calc s d m a sc n = do {
     (e, n) \<leftarrow> read_src s a n;
     (e, n) \<leftarrow> shift_opt s sc e n;
     if m = 1111 then Some (plain_result e [], n)
     else do {
       (p, n) \<leftarrow> read_src_opt s (as_src d) ''ld_field_no_src'' n;
       Some (plain_result (bvor (bvand p (bvconstant 32 (ucast (NOT (field_mask m)))))
                                (bvand e (bvconstant 32 (ucast (field_mask m))))) [], n)
     }
   }"

definition ld_field_w_clr_calc :: "exec \<Rightarrow> u32 \<Rightarrow> src \<Rightarrow> shift_cntl option \<Rightarrow> result comp" where
  "ld_field_w_clr_calc s m a sc n = do {
     (e, n) \<leftarrow> read_src s a n;
     (e, n) \<leftarrow> shift_opt s sc e n;
     Some (plain_result (if m = 1111 then e else bvand e (bvconstant 32 (ucast (field_mask m)))) [], n)
   }"

subsection \<open>Multiplication steps\<close>

text \<open>\<open>mul_step_tok::str\<close>; the static object that \<open>next\<close> returns is known by the class.\<close>

primrec tok_str :: "mul_step_tok \<Rightarrow> string" where
  "tok_str Start = ''start''"
| "tok_str S16x16_step1 = ''16x16_step1''"
| "tok_str S16x16_step2 = ''16x16_step2''"
| "tok_str S32x32_step1 = ''32x32_step1''"
| "tok_str S32x32_step2 = ''32x32_step2''"
| "tok_str S32x32_step3 = ''32x32_step3''"
| "tok_str S32x32_step4 = ''32x32_step4''"
| "tok_str (Last l) = (case l of
     S16x16_last \<Rightarrow> ''16x16_last'' | S32x32_last \<Rightarrow> ''32x32_last'' | S32x32_last2 \<Rightarrow> ''32x32_last2'')"

definition tok_next :: "mul_step_tok \<Rightarrow> bvexpr" where
  "tok_next t = Undefined 32 (Static (tok_str t)) [] None"

text \<open>\<open>mul_step == X().next()\<close> compares the addresses of the objects.\<close>

definition same_step :: "bvexpr \<Rightarrow> mul_step_tok \<Rightarrow> bool" where
  "same_step e t = (case e of Undefined w i nm x \<Rightarrow> i = Static (tok_str t) | _ \<Rightarrow> False)"

definition step_check :: "mul_step_tok \<Rightarrow> bvexpr \<Rightarrow> bvexpr \<Rightarrow> bvexpr \<Rightarrow> bvexpr \<Rightarrow> bvexpr \<Rightarrow> bool option" where
  "step_check prev st mA mB A B = cand (Some (same_step st prev)) (cand (beq mA A) (beq mB B))"

primrec tok_check :: "mul_step_tok \<Rightarrow> bvexpr \<Rightarrow> bvexpr \<Rightarrow> bvexpr \<Rightarrow> bvexpr \<Rightarrow> bvexpr \<Rightarrow> bool option" where
  "tok_check Start st mA mB A B = Some True"
| "tok_check S16x16_step1 st mA mB A B = step_check Start st mA mB A B"
| "tok_check S16x16_step2 st mA mB A B = step_check S16x16_step1 st mA mB A B"
| "tok_check S32x32_step1 st mA mB A B = step_check Start st mA mB A B"
| "tok_check S32x32_step2 st mA mB A B = step_check S32x32_step1 st mA mB A B"
| "tok_check S32x32_step3 st mA mB A B = step_check S32x32_step2 st mA mB A B"
| "tok_check S32x32_step4 st mA mB A B = step_check S32x32_step3 st mA mB A B"
| "tok_check (Last l) st mA mB A B = Some (same_step st (case l of
     S16x16_last \<Rightarrow> S16x16_step2 | S32x32_last \<Rightarrow> S32x32_step4 | S32x32_last2 \<Rightarrow> Last S32x32_last))"

primrec last_calc :: "last_tok \<Rightarrow> bvexpr \<Rightarrow> bvexpr \<Rightarrow> bvexpr" where
  "last_calc S16x16_last A B = bvmul A B"
| "last_calc S32x32_last A B = bvmul A B"
| "last_calc S32x32_last2 A B = bvextract 63 32 (bvmul (bvextend 32 A) (bvextend 32 B))"

text \<open>The three undefined registers after a step out of sequence.\<close>

definition mul_undefs :: "bvexpr \<Rightarrow> update list comp" where
  "mul_undefs st n = do {
     (a, n) \<leftarrow> fresh 32 ''mul_step_sequence'' (Some (Ebvexpr st)) n;
     (b, n) \<leftarrow> fresh 32 ''mul_step_sequence'' (Some (Ebvexpr st)) n;
     (c, n) \<leftarrow> fresh 32 ''mul_step_sequence'' (Some (Ebvexpr st)) n;
     Some ([Reg mul_state a, Reg mulA b, Reg mulB c], n)
   }"

definition mul_step_perform :: "exec \<Rightarrow> src \<Rightarrow> src \<Rightarrow> mul_step_tok \<Rightarrow> update list comp" where
  "mul_step_perform s srcA srcB t n = do {
     (st, n) \<leftarrow> read_reg s mul_state n;
     (mA, n) \<leftarrow> read_reg s mulA n;
     (mB, n) \<leftarrow> read_reg s mulB n;
     (A, n) \<leftarrow> read_src s srcA n;
     (B, n) \<leftarrow> read_src s srcB n;
     c \<leftarrow> tok_check t st mA mB A B;
     if c then Some ([Reg mul_state (tok_next t), Reg mulA A, Reg mulB B], n) else mul_undefs st n
   }"

definition mul_step_last_calc :: "exec \<Rightarrow> last_tok \<Rightarrow> result comp" where
  "mul_step_last_calc s l n = do {
     (st, n) \<leftarrow> read_reg s mul_state n;
     (mA, n) \<leftarrow> read_reg s mulA n;
     (mB, n) \<leftarrow> read_reg s mulB n;
     c \<leftarrow> tok_check (Last l) st mA mB (undef 32) (undef 32);
     if c then Some (plain_result (last_calc l mA mB) [Reg mul_state (tok_next (Last l))], n)
     else do {
       (d, n) \<leftarrow> fresh 32 ''mul_step_sequence'' (Some (Ebvexpr st)) n;
       (v, n) \<leftarrow> fresh 1 ''mul_step_sequence'' (Some (Ebvexpr st)) n;
       (k, n) \<leftarrow> fresh 1 ''mul_step_sequence'' (Some (Ebvexpr st)) n;
       (u, n) \<leftarrow> mul_undefs st n;
       Some ((mk_result d v k)\<lparr>res_u := u\<rparr>, n)
     }
   }"

end
