(* ===== verification/Access.thy ===== *)
theory Access
  imports Perform
begin

text \<open>
  The memory instructions, \<open>perform\<close> for all instructions and \<open>check\<close> for the branches
  (\<open>src/estimator/instr.cpp\<close>).
\<close>

subsection \<open>Memory operators\<close>

definition byte_at :: "bvexpr \<Rightarrow> u32 \<Rightarrow> bvexpr" where
  "byte_at e k = bvadd e (bvconstant 32 (ucast k))"

text \<open>
  \<open>read32_swap::read\<close> gives the value and the new index.  It tests \<open>p0\<close> four times and never
  \<open>p1\<close> to \<open>p3\<close>, which it then follows; a null pointer there is \<open>None\<close>.
\<close>

primrec mem_read_op :: "mem_read_op \<Rightarrow> bvexpr \<Rightarrow> u32 \<Rightarrow> exec \<Rightarrow> (bvexpr \<times> u32) comp" where
  "mem_read_op Read32_swap p index s n =
     (case cast_ptr 32 8 (byte_at p (index * 4)) of
        None \<Rightarrow> do {
          (r, n) \<leftarrow> fresh 32 ''non_ptr_mem_read32_swap'' (Some (Ebvexpr (byte_at p (index * 4)))) n;
          Some ((r, index), n)
        }
      | Some (v, o0) \<Rightarrow> do {
          (a, n) \<leftarrow> read_mem8 s v n;
          (_, o1) \<leftarrow> cast_ptr 32 8 (byte_at p (index * 4 + 1));
          (_, o2) \<leftarrow> cast_ptr 32 8 (byte_at p (index * 4 + 2));
          (_, o3) \<leftarrow> cast_ptr 32 8 (byte_at p (index * 4 + 3));
          Some ((bvconcats [select a o3, select a o2, select a o1, select a o0], index + 1), n)
        })"

text \<open>The body that \<open>write8_swap::write\<close> and \<open>write32_swap::write\<close> have in common.\<close>

definition write_bytes :: "bvarray \<Rightarrow> bvexpr \<Rightarrow> bvexpr \<Rightarrow> u32 \<Rightarrow> bvexpr \<Rightarrow> bvarray" where
  "write_bytes a off v index ref =
     (let put = (\<lambda>a k. store a (byte_at off (index + of_nat k)) (bvextract (8 * k + 7) (8 * k) v));
          guarded = (\<lambda>a k. arr_ite (bvuge ref (bvconstant 32 (ucast (index + of_nat k + 1)))) (put a k) a)
      in guarded (guarded (guarded (put a 0) 1) 2) 3)"

text \<open>\<open>add_imm::write\<close>: reads, adds and writes back a little-endian word.\<close>

definition add_imm :: "bvarray \<Rightarrow> bvexpr \<Rightarrow> bvexpr \<Rightarrow> bvarray comp" where
  "add_imm a off ref n =
     (let bad = (\<lambda>x. fresh_array 32 8 ''non_ptr_mem_inc'' (Some (Ebvexpr x)) n)
      in case cast_ptr 32 8 (byte_at off 0) of None \<Rightarrow> bad (byte_at off 0) | Some (_, o0) \<Rightarrow>
        (case cast_ptr 32 8 (byte_at off 1) of None \<Rightarrow> bad (byte_at off 1) | Some (_, o1) \<Rightarrow>
        (case cast_ptr 32 8 (byte_at off 2) of None \<Rightarrow> bad (byte_at off 2) | Some (_, o2) \<Rightarrow>
        (case cast_ptr 32 8 (byte_at off 3) of None \<Rightarrow> bad (byte_at off 3) | Some (_, o3) \<Rightarrow>
          let res = bvadd (bvconcats [select a o3, select a o2, select a o1, select a o0]) ref;
              a = store a (byte_at off 0) (bvextract 7 0 res);
              a = store a (byte_at off 1) (bvextract 15 8 res);
              a = store a (byte_at off 2) (bvextract 23 16 res)
          in Some (store a (byte_at off 3) (bvextract 31 24 res), n)))))"

primrec mem_write_op :: "mem_write_op \<Rightarrow> bvarray \<Rightarrow> bvexpr \<Rightarrow> bvexpr \<Rightarrow> u32 \<Rightarrow> bvexpr \<Rightarrow> (bvarray \<times> u32) comp" where
  "mem_write_op Write8_swap a off v index ref n = Some ((write_bytes a off v index ref, index + 4), n)"
| "mem_write_op Write32_swap a off v index ref n = Some ((write_bytes a off v index ref, index + 4), n)"
| "mem_write_op Add_imm a off v index ref n = do { (a, n) \<leftarrow> add_imm a off ref n; Some ((a, index), n) }"

subsection \<open>Memory instructions\<close>

definition mem_address :: "exec \<Rightarrow> src \<Rightarrow> shift_cntl option \<Rightarrow> src \<Rightarrow> shift_cntl option \<Rightarrow> bvexpr comp" where
  "mem_address s s1 sc1 s2 sc2 n = do {
     (a, n) \<leftarrow> read_src s s1 n;
     (b, n) \<leftarrow> read_src s s2 n;
     (a, n) \<leftarrow> shift_opt s sc1 a n;
     (b, n) \<leftarrow> shift_opt s sc2 b n;
     Some (bvadd a b, n)
   }"

text \<open>The count of an indirect reference: one more than the upper 24 bits of \<open>PREV_ALU\<close>.\<close>

definition indirect_count :: "exec \<Rightarrow> bvexpr comp" where
  "indirect_count s n = do {
     (p, n) \<leftarrow> read_reg s PREV_ALU n;
     Some (bvadd (bvlshr p (bvconstant 32 8)) (bvconstant 32 1), n)
   }"

fun read_loop :: "exec \<Rightarrow> mem_read_op \<Rightarrow> bvexpr \<Rightarrow> bool \<Rightarrow> 8 word list \<Rightarrow> u32 \<Rightarrow> update list comp" where
  "read_loop s f p indirect [] i n = Some ([], n)"
| "read_loop s f p indirect (x # xs) i n = do {
     ((r, i'), n) \<leftarrow> mem_read_op f p i s n;
     (r, n) \<leftarrow> (if indirect then do {
         (ref, n) \<leftarrow> indirect_count s n;
         (old, n) \<leftarrow> read_reg s (xfer_in_location x) n;
         Some (bv_ite (bvugt ref (bvconstant 32 (ucast i))) r old, n)
       } else Some (r, n));
     (us, n) \<leftarrow> read_loop s f p indirect xs i' n;
     Some (Reg (xfer_in_location x) r # us, n)
   }"

definition mem_read_perform ::
  "exec \<Rightarrow> mem_read_op \<Rightarrow> 8 word \<Rightarrow> src \<Rightarrow> shift_cntl option \<Rightarrow> src \<Rightarrow> shift_cntl option \<Rightarrow> u32 \<Rightarrow> bool \<Rightarrow>
     update list comp" where
  "mem_read_perform s f x s1 sc1 s2 sc2 ref_cnt indirect n = do {
     (p, n) \<leftarrow> mem_address s s1 sc1 s2 sc2 n;
     read_loop s f p indirect (read_xfers f x ref_cnt indirect) 0 n
   }"

fun write_loop :: "exec \<Rightarrow> mem_write_op \<Rightarrow> bvexpr \<Rightarrow> bvexpr \<Rightarrow> 8 word list \<Rightarrow> u32 \<Rightarrow> bvarray \<Rightarrow> bvarray comp" where
  "write_loop s f off ref [] i a n = Some (a, n)"
| "write_loop s f off ref (x # xs) i a n = do {
     (v, n) \<leftarrow> read_reg s (xfer_out_location x) n;
     ((a, i), n) \<leftarrow> mem_write_op f a off v i ref n;
     write_loop s f off ref xs i a n
   }"

definition mem_write_perform ::
  "exec \<Rightarrow> mem_write_op \<Rightarrow> 8 word \<Rightarrow> src \<Rightarrow> shift_cntl option \<Rightarrow> src \<Rightarrow> shift_cntl option \<Rightarrow> u32 \<Rightarrow> bool \<Rightarrow>
     update list comp" where
  "mem_write_perform s f x s1 sc1 s2 sc2 ref_cnt indirect n = do {
     (d, n) \<leftarrow> mem_address s s1 sc1 s2 sc2 n;
     case cast_ptr 32 8 d of
       None \<Rightarrow> Some ([Invalidate_mem (Some (Ebvexpr d))], n)
     | Some (p, off) \<Rightarrow> do {
         (a, n) \<leftarrow> read_mem8 s p n;
         (ref, n) \<leftarrow> (if indirect then indirect_count s n else Some (bvconstant 32 (ucast ref_cnt), n));
         (a, n) \<leftarrow> write_loop s f off ref (write_xfers f x ref_cnt indirect) 0 a n;
         Some ([Mem8 (declname p) a], n)
       }
   }"

subsection \<open>Instructions\<close>

text \<open>
  \<open>assign::perform\<close>: the destination, with \<open>gpr_wrboth\<close> also the register of the other bank,
  then the condition codes, then what the calculation adds.
\<close>

definition wrboth :: "dst \<Rightarrow> bool \<Rightarrow> bvexpr \<Rightarrow> update list" where
  "wrboth d both e = (case d of
     Dst_gpr g \<Rightarrow> if both then [Reg (gpr_location (gpr_flip g)) e] else []
   | _ \<Rightarrow> [])"

definition condition_codes :: "result \<Rightarrow> update list" where
  "condition_codes r =
     [Flag N_flag (bvcomp (bvextract 31 31 (res_dst r)) (bvconstant 1 1)),
      Flag Z_flag (bvcomp (res_dst r) (bvconstant 32 0)),
      Flag V_flag (res_v r), Flag C_flag (res_c r)]"

definition assign_perform :: "exec \<Rightarrow> dst \<Rightarrow> bool \<Rightarrow> bool \<Rightarrow> result comp \<Rightarrow> update list comp" where
  "assign_perform s d both cc calc n = do {
     (r, n) \<leftarrow> calc n;
     (u, n) \<leftarrow> write_dst s d (res_dst r) n;
     Some (u # wrboth d both (res_dst r) @ (if cc then condition_codes r else []) @ res_u r, n)
   }"

primrec op_perform :: "exec \<Rightarrow> operation \<Rightarrow> update list comp" where
  "op_perform s Fin n = Some ([], n)"
| "op_perform s (Alu d a f b w) n = assign_perform s d w True (alu_like_calc s a f b None) n"
| "op_perform s (Alu_shf d a f b sc w) n = assign_perform s d w True (alu_like_calc s a f b sc) n"
| "op_perform s (Asr d a sc w) n = assign_perform s d w True (asr_calc s a sc) n"
| "op_perform s (Proper_branch f t k) n = Some ([], n)"
| "op_perform s (Br t k) n = Some ([], n)"
| "op_perform s (Dbl_shf d a b sc w) n = assign_perform s d w True (dbl_shf_calc s a b sc) n"
| "op_perform s (Immed d im sc w) n = assign_perform s d w False (immed_calc s im sc) n"
| "op_perform s (Immed_w1 d im w) n = assign_perform s d w False (immed_w1_calc s d im) n"
| "op_perform s (Ld_field d m a sc w) n = assign_perform s d w True (ld_field_calc s d m a sc) n"
| "op_perform s (Ld_field_w_clr d m a sc w) n = assign_perform s d w True (ld_field_w_clr_calc s m a sc) n"
| "op_perform s (Local_csr_wr c a) n = do { (e, n) \<leftarrow> read_src s a n; Some ([local_csr_write c e], n) }"
| "op_perform s (Mem_read f x s1 sc1 s2 sc2 r i c) n = mem_read_perform s f x s1 sc1 s2 sc2 r i n"
| "op_perform s (Mem_write f x s1 sc1 s2 sc2 r i c) n = mem_write_perform s f x s1 sc1 s2 sc2 r i n"
| "op_perform s (Mul_step a b t) n = mul_step_perform s a b t n"
| "op_perform s (Mul_step_last d l w) n = assign_perform s d w True (mul_step_last_calc s l) n"
| "op_perform s Nop n = Some ([], n)"

definition perform :: "instr \<Rightarrow> exec \<Rightarrow> update list comp" where
  "perform n s = op_perform s (operation n)"

subsection \<open>Conditions of branches\<close>

text \<open>\<open>bcc::check\<close>: the carry is clear if a subtraction borrows.\<close>

definition carry_expr :: "bvexpr \<Rightarrow> bvexpr" where
  "carry_expr C =
     (let C = (case cast_carry Bvaddition_carry 32 C of
                 Some (a, b) \<Rightarrow> bvextract 32 32 (bvadd (bvextend 1 a) (bvextend 1 b)) | None \<Rightarrow> C)
      in case cast_carry Bvaddition_carry 64 C of
           Some (a, b) \<Rightarrow> bvextract 64 64 (bvadd (bvextend 1 a) (bvextend 1 b)) | None \<Rightarrow> C)"

definition same_array32 :: "bvexpr \<Rightarrow> bvexpr \<Rightarrow> (bvexpr \<times> bvexpr) option" where
  "same_array32 a b = (case (cast_ptr 32 8 a, cast_ptr 32 8 b) of
     (Some (p, off), Some (q, off')) \<Rightarrow> if p = q then Some (off, off') else None
   | _ \<Rightarrow> None)"

definition same_array64 :: "bvexpr \<Rightarrow> bvexpr \<Rightarrow> ((bvexpr \<times> bvexpr) \<times> (bvexpr \<times> bvexpr)) option" where
  "same_array64 a b = (case (cast_ptr_ext 32 8 32 a, cast_ptr_ext 32 8 32 b) of
     (Some (p, off, ext), Some (q, off', ext')) \<Rightarrow> if p = q then Some ((off, ext), (off', ext')) else None
   | _ \<Rightarrow> None)"

definition check_bcc :: "bvexpr \<Rightarrow> lexpr option" where
  "check_bcc C =
     (case cast_carry Bvsubstraction_carry 32 C of
        Some (a, b) \<Rightarrow> (case same_array32 a b of
            Some (off, off') \<Rightarrow> Some (bvult off off')
          | None \<Rightarrow> Some (bvult a b))
      | None \<Rightarrow> (case cast_carry Bvsubstraction_carry 64 C of
            Some (a, b) \<Rightarrow> (case same_array64 a b of
                Some ((off, ext), (off', ext')) \<Rightarrow> do {
                  e \<leftarrow> eq_bv ext ext';
                  Some (lor (bvult ext ext') (land e (bvult off off')))
                }
              | None \<Rightarrow> Some (bvult a b))
          | None \<Rightarrow> eq_bv (carry_expr C) (bvconstant 1 0)))"

definition check_bcs :: "bvexpr \<Rightarrow> lexpr option" where
  "check_bcs C =
     (case cast_carry Bvsubstraction_carry 32 C of
        Some (a, b) \<Rightarrow> (case same_array32 a b of
            Some (off, off') \<Rightarrow> Some (bvuge off off')
          | None \<Rightarrow> Some (bvuge a b))
      | None \<Rightarrow> (case cast_carry Bvsubstraction_carry 64 C of
            Some (a, b) \<Rightarrow> (case same_array64 a b of
                Some ((off, ext), (off', ext')) \<Rightarrow> do {
                  e \<leftarrow> eq_bv ext ext';
                  Some (lor (bvugt ext ext') (land e (bvuge off off')))
                }
              | None \<Rightarrow> Some (bvuge a b))
          | None \<Rightarrow> eq_bv (carry_expr C) (bvconstant 1 1)))"

definition flag_is :: "exec \<Rightarrow> string \<Rightarrow> u64 \<Rightarrow> lexpr comp" where
  "flag_is s f v n = do {
     (x, n) \<leftarrow> read_flag s f n;
     e \<leftarrow> eq_bv x (bvconstant 1 v);
     Some (e, n)
   }"

definition n_equals_v :: "exec \<Rightarrow> lexpr comp" where
  "n_equals_v s n = do {
     (x, n) \<leftarrow> read_flag s N_flag n;
     (y, n) \<leftarrow> read_flag s V_flag n;
     e \<leftarrow> eq_bv x y;
     Some (e, n)
   }"

primrec check_branch :: "exec \<Rightarrow> branch_op \<Rightarrow> lexpr comp" where
  "check_branch s Bcc n = do { (C, n) \<leftarrow> read_flag s C_flag n; e \<leftarrow> check_bcc C; Some (e, n) }"
| "check_branch s Bcs n = do { (C, n) \<leftarrow> read_flag s C_flag n; e \<leftarrow> check_bcs C; Some (e, n) }"
| "check_branch s Beq n = flag_is s Z_flag 1 n"
| "check_branch s Bge n = n_equals_v s n"
| "check_branch s Bgt n = do { (z, n) \<leftarrow> flag_is s Z_flag 0 n; (e, n) \<leftarrow> n_equals_v s n; Some (land z e, n) }"
| "check_branch s Ble n = do { (z, n) \<leftarrow> flag_is s Z_flag 1 n; (e, n) \<leftarrow> n_equals_v s n; Some (lor z (isfalse e), n) }"
| "check_branch s Blt n = do { (e, n) \<leftarrow> n_equals_v s n; Some (isfalse e, n) }"
| "check_branch s Bmi n = flag_is s N_flag 1 n"
| "check_branch s Bne n = flag_is s Z_flag 0 n"
| "check_branch s Bpl n = flag_is s N_flag 0 n"
| "check_branch s Bvc n = flag_is s V_flag 0 n"
| "check_branch s Bvs n = flag_is s V_flag 1 n"

text \<open>\<open>instr::check\<close> gives up for everything that is not a proper branch.\<close>

definition check :: "instr \<Rightarrow> exec \<Rightarrow> lexpr comp" where
  "check n s k = (case operation n of Proper_branch f t d \<Rightarrow> check_branch s f k | _ \<Rightarrow> None)"

end
