(* ===== verification/Cycles.thy ===== *)
theory Cycles
  imports Instr "HOL-Library.Monad_Syntax"
begin

text \<open>
  The cycle model of \<open>state::perf\<close>: the cost of an instruction given how long ago the condition
  codes were written and the memory was used (\<open>perf::info\<close>), the propagation of that
  information along a path and its merge where paths meet, and the two sums that an execution
  keeps.  \<open>sumcycles\<close> follows one path exactly; \<open>summaxcycles\<close> is computed from the merged
  information and is shown to bound \<open>sumcycles\<close> from above.
\<close>

subsection \<open>Information\<close>

datatype info = Info (sincecc: u32) (sincemem: u32)

definition info_max :: info where
  "info_max = Info (2 ^ 32 - 1) (2 ^ 32 - 1)"

definition info_merge :: "info \<Rightarrow> info \<Rightarrow> info" where
  "info_merge i j = Info (min (sincecc i) (sincecc j)) (min (sincemem i) (sincemem j))"

text \<open>Less information means more caution: \<open>merge\<close> is the greatest lower bound.\<close>

instantiation info :: bounded_semilattice_inf_top
begin

definition less_eq_info :: "info \<Rightarrow> info \<Rightarrow> bool" where
  "less_eq_info i j \<longleftrightarrow> sincecc i \<le> sincecc j \<and> sincemem i \<le> sincemem j"

definition less_info :: "info \<Rightarrow> info \<Rightarrow> bool" where
  "less_info i j \<longleftrightarrow> i \<le> j \<and> \<not> j \<le> (i :: info)"

definition inf_info :: "info \<Rightarrow> info \<Rightarrow> info" where
  "inf_info = info_merge"

definition top_info :: info where
  "top_info = info_max"

instance
proof
  fix i :: info
  have "v \<le> 2 ^ 32 - 1" for v :: u32 using unsigned_less [of v, where ?'a = nat] by (simp add: word_le_nat_alt)
  then show "i \<le> top" by (simp only: less_eq_info_def top_info_def info_max_def info.sel)
qed (auto simp: less_eq_info_def less_info_def inf_info_def info_merge_def intro: info.expand)

end

subsection \<open>Cost of an instruction\<close>

definition perf_cycles :: "instr \<Rightarrow> info \<Rightarrow> bool \<Rightarrow> u32 option" where
  "perf_cycles n i branchtrue =
     (case itype n of
        BRANCH \<Rightarrow>
          Some (if branchtrue then if sincecc i > 0 then COST_TRUE_EARLY else COST_TRUE else COST_FALSE)
      | MEM \<Rightarrow> do {
          mn \<leftarrow> instr_cycles n;
          if \<not> waits n then Some mn
          else do {
            mx \<leftarrow> max_cycles n;
            Some (if sincemem i \<ge> mx - mn then mn else mx - sincemem i)
          }
        }
      | FIN \<Rightarrow> Some 0
      | _ \<Rightarrow> instr_cycles n)"

definition info_apply :: "instr \<Rightarrow> bool \<Rightarrow> info \<Rightarrow> info option" where
  "info_apply n branchtrue i = do {
     c \<leftarrow> perf_cycles n i branchtrue;
     let r = Info (sincecc i + c) (sincemem i + c);
     let r = (if writescc n then Info 0 (sincemem r) else r);
     Some (if itype n = MEM then Info (sincecc r) 0 else r)
   }"

text \<open>The first lines of \<open>exec::apply\<close>, which advance the clocks.\<close>

definition tick :: "instr \<Rightarrow> info \<Rightarrow> bool \<Rightarrow> exec \<Rightarrow> exec option" where
  "tick n i branchtrue s = do {
     let d = Info (sumcycles s - lastcc s) (sumcycles s - lastmem s);
     m \<leftarrow> perf_cycles n i branchtrue;
     r \<leftarrow> dram_cycles n;
     c \<leftarrow> perf_cycles n d branchtrue;
     let s = s\<lparr>summaxcycles := summaxcycles s + m, sumdramcycles := sumdramcycles s + r,
               sumcycles := sumcycles s + c\<rparr>;
     let s = (if itype n = MEM then s\<lparr>lastmem := sumcycles s\<rparr> else s);
     Some (if writescc n then s\<lparr>lastcc := sumcycles s\<rparr> else s)
   }"

text \<open>\<open>perf::apply\<close> of the base class counts the estimated cycles only.\<close>

definition perf_apply :: "instr \<Rightarrow> info \<Rightarrow> bool \<Rightarrow> exec \<Rightarrow> exec option" where
  "perf_apply n i branchtrue s = do {
     m \<leftarrow> perf_cycles n i branchtrue;
     r \<leftarrow> dram_cycles n;
     Some (s\<lparr>summaxcycles := summaxcycles s + m, sumdramcycles := sumdramcycles s + r\<rparr>)
   }"

subsection \<open>Every instruction has a cost\<close>

text \<open>The shape of the cost of a memory instruction: between \<open>mn\<close> and \<open>mx\<close>.\<close>

lemma src_cycles_0 [simp]: "src_cycles a = 0"
  by (cases a) simp_all

lemma dst_cycles_0 [simp]: "dst_cycles d = 0"
  by (cases d) simp_all

lemma op_cycles_cases:
  "op_cycles p = None \<and> op_type p \<in> {FIN, BRANCH} \<or> op_cycles p = Some 1 \<and> op_type p \<in> {OTHER, MEM}
     \<or> op_cycles p = Some 3 \<and> op_type p = MEM \<or> op_cycles p = Some 4 \<and> op_type p = JUMP"
  by (cases p) (auto simp: mem_cycles_def)

lemma mem_cases:
  assumes "itype n = MEM"
  obtains mn mx where "instr_cycles n = Some mn" "max_cycles n = Some mx" "mn = (if waits n then 3 else 1)" "mx \<in> {16, 25}"
  using assms by (cases "operation n")
    (auto simp: itype_def instr_cycles_def max_cycles_def waits_def mem_cycles_def)

lemma perf_cycles_cases:
  obtains (branch) "itype n = BRANCH" "writescc n = False"
      "\<And>i b. perf_cycles n i b = Some (if b then if sincecc i > 0 then 3 else 4 else 1)"
  | (mem) mx where "itype n = MEM" "waits n" "writescc n = False" "mx \<in> {16, 25}"
      "\<And>i b. perf_cycles n i b = Some (if sincemem i \<ge> mx - 3 then 3 else mx - sincemem i)"
  | (nowait) "itype n = MEM" "\<not> waits n" "writescc n = False" "\<And>i b. perf_cycles n i b = Some 1"
  | (fin) "itype n = FIN" "writescc n" "\<And>i b. perf_cycles n i b = Some 0"
  | (other) k where "itype n \<noteq> MEM" "itype n \<noteq> BRANCH" "k \<in> {1, 4}" "\<And>i b. perf_cycles n i b = Some k"
proof (cases "itype n")
  case BRANCH
  then show ?thesis using branch by (cases "operation n") (auto simp: perf_cycles_def itype_def writescc_def)
next
  case MEM
  have w: "writescc n = False" using MEM by (cases "operation n") (auto simp: itype_def writescc_def)
  show ?thesis
  proof (rule mem_cases [OF MEM])
    fix mn mx
    assume "instr_cycles n = Some mn" "max_cycles n = Some mx" "mn = (if waits n then 3 else 1)" "mx \<in> {16, 25}"
    then show ?thesis using MEM mem [of mx] nowait w by (cases "waits n") (simp_all add: perf_cycles_def)
  qed
next
  case FIN
  then show ?thesis using fin by (cases "operation n") (auto simp: perf_cycles_def itype_def writescc_def)
qed (use other op_cycles_cases [of "operation n"] in \<open>auto simp: perf_cycles_def itype_def instr_cycles_def\<close>)

lemma perf_cycles_total: "\<exists>c. perf_cycles n i b = Some c \<and> c \<le> 25"
  by (rule perf_cycles_cases [of n]) (auto simp: word_le_nat_alt unat_sub_if')

lemma info_apply_total: "\<exists>j. info_apply n b i = Some j"
  using perf_cycles_total [of n i b] by (auto simp: info_apply_def Let_def)

text \<open>
  A cost is monotone: with less information the estimate of the same instruction does not fall.
\<close>

lemma perf_cycles_antimono:
  assumes "i \<le> j" "perf_cycles n i b = Some c" "perf_cycles n j b = Some d"
  shows "d \<le> c"
  by (rule perf_cycles_cases [of n])
    (use assms in \<open>auto simp: less_eq_info_def word_le_nat_alt word_less_nat_alt unat_sub_if' split: if_splits\<close>)

subsection \<open>The estimate is never too low\<close>

text \<open>
  \<open>covers i s\<close>: the information \<open>i\<close> does not promise more than what has happened in \<open>s\<close>, with
  the last use of the memory counted on the clock of the estimate.
\<close>

definition covers :: "info \<Rightarrow> exec \<Rightarrow> bool" where
  "covers i s \<longleftrightarrow>
     sumcycles s \<le> summaxcycles s
     \<and> unat (lastmem s) + unat (sincemem i) \<le> unat (summaxcycles s)
     \<and> (0 < sincecc i \<longrightarrow> lastcc s \<noteq> sumcycles s)
     \<and> lastmem s \<le> sumcycles s \<and> lastcc s \<le> sumcycles s"

lemma covers_mono: "j \<le> i \<Longrightarrow> covers i s \<Longrightarrow> covers j s"
  by (auto simp: covers_def less_eq_info_def word_le_nat_alt word_less_nat_alt)

lemma covers_bottom: "sumcycles s \<le> summaxcycles s \<Longrightarrow> lastmem s \<le> sumcycles s \<Longrightarrow> lastcc s \<le> sumcycles s \<Longrightarrow>
    covers (Info 0 0) s"
  by (auto simp: covers_def word_le_nat_alt)

text \<open>
  The information of the next instruction is computed with \<open>branchtrue\<close> false, whichever way a
  branch goes.
\<close>

lemma tick_covers:
  assumes cov: "covers i s" and t: "tick n i b s = Some s'" and a: "info_apply n False i = Some j"
    and small: "unat (summaxcycles s) + 25 < 2 ^ 32"
  shows "covers j s'" "unat (summaxcycles s') \<le> unat (summaxcycles s) + 25"
proof -
  define d where "d = Info (sumcycles s - lastcc s) (sumcycles s - lastmem s)"
  from t obtain m r c where mc: "perf_cycles n i b = Some m" "dram_cycles n = Some r" "perf_cycles n d b = Some c"
    and s': "s' = (let s = s\<lparr>summaxcycles := summaxcycles s + m, sumdramcycles := sumdramcycles s + r,
               sumcycles := sumcycles s + c\<rparr>;
             s = (if itype n = MEM then s\<lparr>lastmem := sumcycles s\<rparr> else s)
       in if writescc n then s\<lparr>lastcc := sumcycles s\<rparr> else s)"
    by (auto simp: tick_def Let_def d_def bind_eq_Some_conv)
  note nats = word_le_nat_alt word_less_nat_alt unat_sub_if' unat_word_ariths less_eq_info_def
  have m: "unat m \<le> 25" using perf_cycles_total [of n i b] mc(1) by (auto simp: word_le_nat_alt)
  show "covers j s'"
  proof (rule perf_cycles_cases [of n])
    assume n: "itype n = BRANCH" "writescc n = False"
      "\<And>i b. perf_cycles n i b = Some (if b then if 0 < sincecc i then 3 else 4 else 1)"
    then have j: "j = Info (sincecc i + 1) (sincemem i + 1)" using a by (simp add: info_apply_def)
    have m: "m = (if b then if 0 < sincecc i then 3 else 4 else 1)" using mc(1) n(3) by simp
    have c: "c = (if b then if lastcc s \<noteq> sumcycles s then 3 else 4 else 1)"
      using mc(3) n(3) cov by (auto simp: d_def covers_def word_neq_0_conv [symmetric])
    have le: "1 \<le> unat c" "unat c \<le> unat m" "unat m \<le> 4" using cov by (auto simp: m c covers_def)
    show ?thesis using cov small le n(1,2)
      by (auto simp: s' j covers_def Let_def nats)
  next
    fix k
    assume n: "itype n \<noteq> MEM" "itype n \<noteq> BRANCH" "k \<in> {1, 4}" "\<And>i b. perf_cycles n i b = Some k"
    then have "m = k" "c = k" "1 \<le> unat k" "unat k \<le> 4" using mc by auto
    moreover have "j = (if writescc n then Info 0 (sincemem i + k) else Info (sincecc i + k) (sincemem i + k))"
      using a n by (auto simp: info_apply_def Let_def)
    ultimately show ?thesis using cov small n(1)
      by (auto simp: s' covers_def Let_def nats)
  next
    fix mx
    assume n: "itype n = MEM" "waits n" "writescc n = False" "mx \<in> {16, 25}"
      "\<And>i b. perf_cycles n i b = Some (if mx - 3 \<le> sincemem i then 3 else mx - sincemem i)"
    then have "m = (if mx - 3 \<le> sincemem i then 3 else mx - sincemem i)"
       "c = (if mx - 3 \<le> sincemem d then 3 else mx - sincemem d)" "sincemem j = 0" using mc a by (auto simp: info_apply_def)
    then show ?thesis using cov small n(1,3,4)
      by (auto simp: s' covers_def d_def Let_def nats)
  qed (use mc a cov small in \<open>auto simp: s' covers_def info_apply_def Let_def nats\<close>)
  show "unat (summaxcycles s') \<le> unat (summaxcycles s) + 25"
    using m small by (auto simp: s' Let_def unat_word_ariths)
qed

text \<open>
  A path as \<open>cfg::overestimate_cycles\<close> annotates it: each instruction carries information that
  is at most what its predecessor on the path hands on, because the information of all
  predecessors is merged.
\<close>

fun propagated :: "info \<Rightarrow> (instr \<times> info \<times> bool) list \<Rightarrow> bool" where
  "propagated i [] = True"
| "propagated i ((n, j, b) # p) =
     (j \<le> i \<and> (case info_apply n False j of Some k \<Rightarrow> propagated k p | None \<Rightarrow> False))"

fun tick_path :: "(instr \<times> info \<times> bool) list \<Rightarrow> exec \<Rightarrow> exec option" where
  "tick_path [] s = Some s"
| "tick_path ((n, j, b) # p) s = Option.bind (tick n j b s) (tick_path p)"

lemma tick_path_covers:
  assumes "covers i s" "propagated i p" "tick_path p s = Some s'"
    "unat (summaxcycles s) + 25 * length p < 2 ^ 32"
  shows "sumcycles s' \<le> summaxcycles s'"
  using assms
proof (induction p arbitrary: i s)
  case (Cons x p)
  obtain n j b where x: "x = (n, j, b)" by (cases x) auto
  from Cons.prems obtain t k where t: "tick n j b s = Some t" "tick_path p t = Some s'"
    and k: "j \<le> i" "info_apply n False j = Some k" "propagated k p"
    by (auto simp: x bind_eq_Some_conv split: option.splits)
  have c: "covers j s" using covers_mono k(1) Cons.prems(1) by blast
  have "covers k t" "unat (summaxcycles t) \<le> unat (summaxcycles s) + 25"
    using tick_covers [OF c t(1) k(2)] Cons.prems(4) by auto
  then show ?case using Cons.IH [of k t] t(2) k(3) Cons.prems(4) by simp
qed (simp add: covers_def)

text \<open>The state an analysis starts with is covered by the default information.\<close>

lemma covers_make_exec: "covers (Info 0 0) (make_exec c d input m lo hi as)"
  by (simp add: covers_def make_exec_def)

end
