(* ===== verification/Exec.thy ===== *)
theory Exec
  imports Access Cycles
begin

text \<open>
  Symbolic execution (\<open>src/estimator/state.cpp\<close>): \<open>exec::apply\<close> runs one instruction,
  \<open>exec::assume\<close> records the condition of a branch, \<open>exec::static_merge\<close> joins two states, and
  \<open>exec::check_sat\<close> asks a strategy whether the assumptions can hold.
\<close>

subsection \<open>Assumptions\<close>

definition unsat_by :: "string \<Rightarrow> exec \<Rightarrow> exec" where
  "unsat_by i s = s\<lparr>sat := Some False, model := Some empty_model, unsat_core := Some [i]\<rparr>"

fun is_known :: "lexpr \<Rightarrow> assumption list \<Rightarrow> bool option" where
  "is_known e [] = Some False"
| "is_known e ((e', i) # as) = do { t \<leftarrow> leq e e'; if t then Some True else is_known e as }"

text \<open>A comparison of the minimized variable with a constant.\<close>

definition bound_of :: "lcmp \<Rightarrow> string \<Rightarrow> lexpr \<Rightarrow> u64 option option" where
  "bound_of f m e = (case e of
     Comparison f' a b \<Rightarrow>
       if f = f' \<and> width a = 14 then
         (case cast_constant b of
            None \<Rightarrow> Some None
          | Some v \<Rightarrow> map_option (\<lambda>t. if t then Some v else None) (beq a (Bvvariable 14 m)))
       else Some None
   | _ \<Rightarrow> Some None)"

definition check_bounds :: "string \<Rightarrow> exec \<Rightarrow> exec" where
  "check_bounds i s = (if min_value s \<ge> max_value s then unsat_by i s else s)"

text \<open>An assumption that is neither constant nor known yet: a bound, or one more to check.\<close>

definition assume_new :: "lexpr \<Rightarrow> string \<Rightarrow> exec \<Rightarrow> exec option" where
  "assume_new e i s =
     (case minimize s of
        None \<Rightarrow> Some (s\<lparr>assumptions := assumptions s @ [(e, i)]\<rparr>)
      | Some m \<Rightarrow> do {
          ge \<leftarrow> bound_of Bvugecomparison m e;
          case ge of
            Some v \<Rightarrow> Some (check_bounds i (if ucast (min_value s) < v then s\<lparr>min_value := ucast v\<rparr> else s))
          | None \<Rightarrow> do {
              lt \<leftarrow> bound_of Bvultcomparison m e;
              case lt of
                Some v \<Rightarrow> Some (check_bounds i (if v \<le> ucast (max_value s) then s\<lparr>max_value := ucast v\<rparr> else s))
              | None \<Rightarrow> Some (s\<lparr>assumptions := assumptions s @ [(e, i)]\<rparr>)
            }
        })"

definition exec_assume :: "assumption \<Rightarrow> exec \<Rightarrow> exec option" where
  "exec_assume a s =
     (case a of (e, i) \<Rightarrow> (case e of
        Boolean v \<Rightarrow> Some (if v then s else unsat_by i s)
      | _ \<Rightarrow> do {
          k \<leftarrow> is_known e (assumptions s);
          if k then Some s else assume_new e i s
        }))"

definition assumption_name :: "instr \<Rightarrow> nat \<Rightarrow> bool \<Rightarrow> string" where
  "assumption_name n loopdepth branchtrue =
     instr_name n @ (if branchtrue then ''T'' else ''F'') @ decimal (unat (get_id n)) @ ''L'' @ decimal loopdepth"

subsection \<open>One instruction\<close>

text \<open>
  The loop over the deferred updates stores those that are due and keeps the others.  Storing a
  deferred update there would change the vector during the iteration: \<open>None\<close>.
\<close>

fun is_defered :: "update \<Rightarrow> bool" where
  "is_defered (Defered c u) = True"
| "is_defered _ = False"

definition fire :: "exec \<Rightarrow> exec option" where
  "fire s =
     (let due = filter (\<lambda>(c, u). c \<le> sumcycles s) (defered s)
      in if \<exists>(c, u) \<in> set due. is_defered u then None
         else Some (store_all (map snd due) (s\<lparr>defered := filter (\<lambda>(c, u). \<not> c \<le> sumcycles s) (defered s)\<rparr>)))"

definition take_branch :: "instr \<Rightarrow> nat \<Rightarrow> bool \<Rightarrow> exec \<Rightarrow> exec comp" where
  "take_branch n loopdepth branchtrue s k =
     (if itype n = BRANCH then do {
        let s = s\<lparr>sat := None, model := None\<rparr>;
        (c, k) \<leftarrow> check n s k;
        s \<leftarrow> exec_assume (if branchtrue then c else isfalse c, assumption_name n loopdepth branchtrue) s;
        Some (s, k)
      } else Some (s, k))"

definition exec_apply :: "instr \<Rightarrow> info \<Rightarrow> nat \<Rightarrow> bool \<Rightarrow> exec \<Rightarrow> exec comp" where
  "exec_apply n i loopdepth branchtrue s k = do {
     s \<leftarrow> tick n i branchtrue s;
     if sat s = Some False then Some (s, k)
     else do {
       (s, k) \<leftarrow> take_branch n loopdepth branchtrue s k;
       (us, k) \<leftarrow> perform n s k;
       s \<leftarrow> fire s;
       Some (store_all us s, k)
     }
   }"

subsection \<open>Merging states\<close>

fun merge_assumptions :: "assumption list \<Rightarrow> assumption list \<Rightarrow> assumption list option" where
  "merge_assumptions [] bs = Some []"
| "merge_assumptions ((e, i) # as) bs = do {
     ts \<leftarrow> those (map (\<lambda>(e', i'). leq e e') bs);
     r \<leftarrow> merge_assumptions as bs;
     Some (map (\<lambda>_. (e, i)) (filter (\<lambda>t. t) ts) @ r)
   }"

fun merge_deposits :: "('e \<Rightarrow> 'e \<Rightarrow> 'e option) \<Rightarrow> (string \<times> 'e) list \<Rightarrow> (string \<times> 'e) list \<Rightarrow> (string \<times> 'e) list option" where
  "merge_deposits f [] m = Some []"
| "merge_deposits f ((r, e) # l) m = (case map_of m r of
     None \<Rightarrow> merge_deposits f l m
   | Some e' \<Rightarrow> do { x \<leftarrow> f e e'; rest \<leftarrow> merge_deposits f l m; Some ((r, x) # rest) })"

fun undef_defered :: "(u32 \<times> update) list \<Rightarrow> exec \<Rightarrow> exec comp" where
  "undef_defered [] s n = Some (s, n)"
| "undef_defered ((c, u) # ds) s n = do {
     (v, n) \<leftarrow> to_undef ''no_defered_merge'' u n;
     undef_defered ds (update_store v s) n
   }"

text \<open>
  The code compares the pointers to the minimized variables, the model their names: the states of one
  analysis share the variable that \<open>cfg::initial_state\<close> creates.
\<close>

definition static_merge :: "exec \<Rightarrow> exec \<Rightarrow> exec comp" where
  "static_merge a b n = do {
     as \<leftarrow> merge_assumptions (assumptions a) (assumptions b);
     rs \<leftarrow> merge_deposits bv_merge (registers a) (registers b);
     fs \<leftarrow> merge_deposits bv_merge (flags a) (flags b);
     m8 \<leftarrow> merge_deposits arr_merge (mem8 a) (mem8 b);
     m32 \<leftarrow> merge_deposits arr_merge (mem32 a) (mem32 b);
     (s, n) \<leftarrow> undef_defered (defered a @ defered b)
       (empty_exec\<lparr>summaxcycles := max (summaxcycles a) (summaxcycles b),
          sumdramcycles := max (sumdramcycles a) (sumdramcycles b),
          sumcycles := max (sumcycles a) (sumcycles b),
          lastmem := max (lastmem a) (lastmem b), lastcc := max (lastcc a) (lastcc b),
          assumptions := as, registers := rs, flags := fs, mem8 := m8, mem32 := m32\<rparr>) n;
     let s = (if sat a = Some False \<and> sat b = Some False then s\<lparr>sat := Some False\<rparr> else s);
     let s = (if minimize a = minimize b then s\<lparr>minimize := minimize a\<rparr> else s);
     Some (s\<lparr>min_value := min (min_value a) (min_value b), max_value := max (max_value a) (max_value b)\<rparr>, n)
   }"

subsection \<open>Satisfiability\<close>

text \<open>
  A strategy answers with a model or with a core of assumptions that cannot hold together; it
  has a state of its own (\<open>'c\<close>), and may give up.
\<close>

datatype sat_result = Sat_result model | Unsat_result "string list"

type_synonym 'c strategy = "'c \<Rightarrow> exec \<Rightarrow> assumption list \<Rightarrow> bool \<Rightarrow> (sat_result \<times> 'c) option"

definition get_value :: "model \<Rightarrow> string \<Rightarrow> u64 option" where
  "get_value m x = map_of (variables m) x"

definition get_cell :: "model \<Rightarrow> string \<Rightarrow> u64 \<Rightarrow> u64 option" where
  "get_cell m x off = map_of (cells m) (x, off)"

definition get_cells :: "model \<Rightarrow> string \<Rightarrow> (u64 \<times> u64) list" where
  "get_cells m x = map (\<lambda>((y, off), v). (off, v)) (filter (\<lambda>((y, off), v). y = x) (cells m))"

text \<open>The result of a strategy is recorded in the state.\<close>

definition record_result :: "sat_result \<Rightarrow> exec \<Rightarrow> exec" where
  "record_result r s = (case r of
     Sat_result m \<Rightarrow>
       let s = s\<lparr>sat := Some True, model := Some m, unsat_core := None\<rparr>
       in (case minimize s of
             None \<Rightarrow> s
           | Some x \<Rightarrow> (case get_value m x of
               None \<Rightarrow> s
             | Some v \<Rightarrow> if min_value s < ucast v then s\<lparr>min_value := ucast v\<rparr> else s))
   | Unsat_result c \<Rightarrow> s\<lparr>sat := Some False, model := None, unsat_core := Some c\<rparr>)"

definition check_sat_on :: "'c strategy \<Rightarrow> assumption list \<Rightarrow> bool \<Rightarrow> exec \<Rightarrow> 'c \<Rightarrow> (bool \<times> exec \<times> 'c) option" where
  "check_sat_on strategy as minimize_unsat_prefix s c =
     (case sat s of
        Some b \<Rightarrow> Some (b, s, c)
      | None \<Rightarrow>
          if as = [] then Some (True, s\<lparr>sat := Some True, model := Some empty_model, unsat_core := None\<rparr>, c)
          else do {
            (r, c) \<leftarrow> strategy c s as minimize_unsat_prefix;
            let s = record_result r s;
            b \<leftarrow> sat s;
            Some (b, s, c)
          })"

definition check_sat :: "'c strategy \<Rightarrow> bool \<Rightarrow> exec \<Rightarrow> 'c \<Rightarrow> (bool \<times> exec \<times> 'c) option" where
  "check_sat strategy minimize_unsat_prefix s c = check_sat_on strategy (assumptions s) minimize_unsat_prefix s c"

text \<open>\<open>partial_minimize\<close> checks the assumptions that have no undefined objects.\<close>

definition partial_minimize :: "'c strategy \<Rightarrow> exec \<Rightarrow> 'c \<Rightarrow> (exec \<times> 'c) option" where
  "partial_minimize strategy s c =
     (if sat s \<noteq> None then Some (s, c)
      else let as = filter (\<lambda>(e, i). lundefs e = []) (assumptions s);
               minimizes = (\<exists>(e, i) \<in> set as. \<exists>m \<in> set_option (minimize s). Decl_var m \<in> set (ldecls e))
           in if minimizes then map_option (\<lambda>(b, s, c). (s, c)) (check_sat_on strategy as False s c) else Some (s, c))"

definition is_decided :: "exec \<Rightarrow> bool" where
  "is_decided s \<longleftrightarrow> sat s \<noteq> None"

definition is_unsat :: "exec \<Rightarrow> bool" where
  "is_unsat s \<longleftrightarrow> sat s = Some False"

text \<open>The queries that check first if no model is there.\<close>

definition ensure_checked :: "'c strategy \<Rightarrow> exec \<Rightarrow> 'c \<Rightarrow> (exec \<times> 'c) option" where
  "ensure_checked strategy s c =
     (if model s = None then map_option (\<lambda>(b, s, c). (s, c)) (check_sat strategy False s c) else Some (s, c))"

definition exec_get_value :: "'c strategy \<Rightarrow> string \<Rightarrow> exec \<Rightarrow> 'c \<Rightarrow> (u64 option \<times> exec \<times> 'c) option" where
  "exec_get_value strategy x s c = do {
     (s, c) \<leftarrow> ensure_checked strategy s c;
     m \<leftarrow> model s;
     Some (get_value m x, s, c)
   }"

definition exec_get_cell :: "'c strategy \<Rightarrow> string \<Rightarrow> u64 \<Rightarrow> exec \<Rightarrow> 'c \<Rightarrow> (u64 option \<times> exec \<times> 'c) option" where
  "exec_get_cell strategy x off s c = do {
     (s, c) \<leftarrow> ensure_checked strategy s c;
     m \<leftarrow> model s;
     Some (get_cell m x off, s, c)
   }"

definition exec_get_cells :: "'c strategy \<Rightarrow> string \<Rightarrow> exec \<Rightarrow> 'c \<Rightarrow> ((u64 \<times> u64) list \<times> exec \<times> 'c) option" where
  "exec_get_cells strategy x s c = do {
     (s, c) \<leftarrow> ensure_checked strategy s c;
     m \<leftarrow> model s;
     Some (get_cells m x, s, c)
   }"

definition in_unsat_core :: "'c strategy \<Rightarrow> instr \<Rightarrow> nat \<Rightarrow> bool \<Rightarrow> exec \<Rightarrow> 'c \<Rightarrow> (bool \<times> exec \<times> 'c) option" where
  "in_unsat_core strategy n loopdepth branchtrue s c = do {
     (s, c) \<leftarrow> ensure_checked strategy s c;
     core \<leftarrow> unsat_core s;
     Some (assumption_name n loopdepth branchtrue \<in> set core, s, c)
   }"

end
