(* ===== verification/Perform_Typed.thy ===== *)
theory Perform_Typed
  imports Exec
begin

text \<open>
  Type safety of the instructions: in a well-formed state every update that \<open>perform\<close> produces
  stores an expression of the width of its place, and every condition that \<open>check\<close> produces is
  a well-typed formula; so \<open>exec::apply\<close> keeps states well-formed.
\<close>

subsection \<open>Operands\<close>

lemmas bind_simps = bind_eq_Some_conv Let_def
lemmas asm_splits = option.split_asm if_split_asm prod.split_asm lmaddr.split_asm

lemma fresh_ok: "fresh w nm e n = Some (x, m) \<Longrightarrow> 0 < w \<Longrightarrow> well w x"
  by (auto simp: fresh_def well_def)

lemma fresh_array_ok: "fresh_array 32 V nm e n = Some (x, m) \<Longrightarrow> 0 < V \<Longrightarrow> awell V x"
  by (auto simp: fresh_array_def awell_def)

lemma lm_address_ok:
  assumes "lm_address s l dir n = Some (Lm_ok p k, m)"
  shows "well 32 k"
proof -
  obtain a where "(case cast_ptr 32 32 a of
         None \<Rightarrow> Lm_bad (''non_ptr_lmaddr_'' @ dir) (Ebvexpr a)
       | Some (p, off) \<Rightarrow> (case cast_constant off of
           None \<Rightarrow> Lm_bad (''non_constant_lmaddr_'' @ dir) (Ebvexpr off)
         | Some v \<Rightarrow>
             if v mod 4 \<noteq> 0 then Lm_bad (''unaligned_lmaddr_'' @ dir) (Ebvexpr off)
             else Lm_ok p (bvconstant 32 (v div 4 + ucast (offset l))))) = Lm_ok p k"
    using assms by (auto simp: lm_address_def bind_eq_Some_conv split: if_split_asm)
  then show ?thesis by (auto split: asm_splits intro: typing)
qed

lemma read_lmindexed_ok:
  assumes "read_lmindexed s l n = Some (e, m)" "exec_ok s"
  shows "well 32 e"
proof -
  obtain a k where a: "lm_address s l ''read'' n = Some (a, k)" and
    "(case a of Lm_bad r e \<Rightarrow> fresh 32 r (Some e) k
      | Lm_ok p x \<Rightarrow> do { (m, n) \<leftarrow> read_mem32 s p k; Some (select m x, n) }) = Some (e, m)"
    using assms(1) by (auto simp: read_lmindexed_def bind_eq_Some_conv [of "lm_address s l ''read'' n"])
  then show ?thesis using assms(2) lm_address_ok
    by (cases a) (auto simp: bind_eq_Some_conv intro: well_select fresh_ok dest: read_mem32_ok)
qed

lemma write_lmindexed_ok:
  assumes "write_lmindexed s l e n = Some (u, m)" "exec_ok s" "well 32 e"
  shows "update_ok u"
proof -
  obtain a k where a: "lm_address s l ''write'' n = Some (a, k)" and
    "(case a of Lm_bad r x \<Rightarrow> Some (Invalidate_mem (Some x), k)
      | Lm_ok p x \<Rightarrow> do { (m, n) \<leftarrow> read_mem32 s p k; Some (Mem32 (declname p) (store m x e), n) }) = Some (u, m)"
    using assms(1) by (auto simp: write_lmindexed_def bind_eq_Some_conv [of "lm_address s l ''write'' n"])
  then show ?thesis using assms(2,3)
    by (cases a) (auto simp: bind_eq_Some_conv intro!: awell_store dest: lm_address_ok read_mem32_ok)
qed

lemma read_src_ok: "read_src s a n = Some (e, m) \<Longrightarrow> exec_ok s \<Longrightarrow> well 32 e"
  by (cases a) (auto intro: typing fresh_ok dest: read_reg_ok read_lmindexed_ok)

lemma read_src_opt_ok: "read_src_opt s a r n = Some (e, m) \<Longrightarrow> exec_ok s \<Longrightarrow> well 32 e"
  by (auto simp: read_src_opt_def intro: fresh_ok dest: read_src_ok split: asm_splits)

lemma write_dst_ok: "write_dst s d e n = Some (u, m) \<Longrightarrow> exec_ok s \<Longrightarrow> well 32 e \<Longrightarrow> update_ok u"
  by (cases d) (auto dest: write_lmindexed_ok)

subsection \<open>Shifts\<close>

lemma indirect_amount_ok:
  assumes "indirect_amount s w n = Some (e, m)" "exec_ok s" "32 \<le> w" "w \<le> 96"
  shows "well w e"
proof -
  obtain p where p: "well 32 p" and e: "e = (let a = bvand p (bvconstant 32 31) in if w = 32 then a else bvextend (w - 32) a)"
    using assms(1,2) by (auto simp: indirect_amount_def bind_simps split: prod.split_asm dest!: read_reg_ok)
  have "well 32 (bvand p (bvconstant 32 31))" using p by (intro typing) auto
  then show ?thesis using assms(3,4) by (auto simp: e Let_def intro: well_extend)
qed

lemma well_width: "well w e \<Longrightarrow> width e = w"
  by (simp add: well_def)

lemma aright_calc_ok:
  assumes "aright_calc s a e n = Some (r, m)" "exec_ok s" "well w e" "32 \<le> w" "w \<le> 64"
  shows "well w r"
  using assms
  by (cases a) (auto simp: bind_simps well_width [OF assms(3)] split: asm_splits intro!: well_lshr well_const
      dest: indirect_amount_ok)

lemma aright_calc33_ok:
  assumes "aright_calc33 s a e n = Some (r, m)" "exec_ok s" "well 33 e"
  shows "well 33 r"
  using assms
  by (cases a) (auto simp: bind_simps split: asm_splits intro!: well_ashr well_const dest: indirect_amount_ok)

lemma shift_calc_ok:
  assumes "shift_calc s c e n = Some (r, m)" "exec_ok s" "well w e" "32 \<le> w" "w \<le> 64"
  shows "well w r"
  using assms
  by (cases c) (auto simp: bind_simps well_width [OF assms(3)] split: asm_splits intro!: well_shl well_const well_rot
      dest: indirect_amount_ok aright_calc_ok)

lemma shift_opt_ok:
  assumes "shift_opt s sc e n = Some (r, m)" "exec_ok s" "well w e" "32 \<le> w" "w \<le> 64"
  shows "well w r"
  using assms by (auto simp: shift_opt_def split: asm_splits dest: shift_calc_ok)

subsection \<open>Results\<close>

definition result_ok :: "result \<Rightarrow> bool" where
  "result_ok r \<longleftrightarrow> well 32 (res_dst r) \<and> well 1 (res_v r) \<and> well 1 (res_c r) \<and> (\<forall>u \<in> set (res_u r). update_ok u)"

lemma mk_result_ok [typing]: "well 32 d \<Longrightarrow> well 1 v \<Longrightarrow> well 1 c \<Longrightarrow> result_ok (mk_result d v c)"
  by (simp add: result_ok_def mk_result_def)

lemma plain_result_ok [typing]: "well 32 d \<Longrightarrow> \<forall>u \<in> set us. update_ok u \<Longrightarrow> result_ok (plain_result d us)"
  using well_undef [of 1] by (simp add: result_ok_def plain_result_def)

lemma logic_result_ok [typing]: "well 32 d \<Longrightarrow> result_ok (logic_result d)"
  using well_const [of 1 0] by (simp add: logic_result_def mk_result_ok)

lemma alu_plus_ok [typing]:
  assumes "well 32 A" "well 32 B"
  shows "result_ok (alu_plus A B)"
proof -
  have "well 33 (bvadd (bvextend 1 A) (bvextend 1 B))" using assms by (intro typing) auto
  then have "well 1 (bvextract 32 32 (bvadd (bvextend 1 A) (bvextend 1 B)))" by (rule well_extract) auto
  moreover have "well 32 (bvadd A B)" using assms by (rule well_add)
  moreover from this have "well 1 (bvextract 31 31 (bvadd A B))" by (rule well_extract) auto
  ultimately show ?thesis unfolding alu_plus_def Let_def
    by (intro mk_result_ok well_xor well_carry [of 32] assms)
qed

lemma well_top_bit: "well 32 e \<Longrightarrow> well 1 (bvextract 31 31 e)"
  by (rule well_extract) auto

lemma minus_overflow_ok: "well 32 A \<Longrightarrow> well 32 B \<Longrightarrow> well 32 d \<Longrightarrow> well 1 (minus_overflow A B d)"
  unfolding minus_overflow_def Let_def by (intro well_and well_xor well_not well_top_bit)

lemma alu_minus_ok [typing]: "well 32 A \<Longrightarrow> well 32 B \<Longrightarrow> result_ok (alu_minus A B)"
  unfolding alu_minus_def Let_def by (intro mk_result_ok minus_overflow_ok well_sub well_carry [of 32])

lemma cast_carry_ok: "cast_carry f w e = Some (a, b) \<Longrightarrow> bwt e \<Longrightarrow> well w a \<and> well w b"
  by (auto simp: cast_carry_def well_def split: bvexpr.split_asm if_split_asm)

lemma alu_plus_carry_ok:
  assumes "alu_plus_carry s A B n = Some (r, m)" "exec_ok s" "well 32 A" "well 32 B"
  shows "result_ok r"
proof -
  note AB = assms(3,4)
  obtain C k where C: "read_flag s C_flag n = Some (C, k)" using assms(1) by (auto simp: alu_plus_carry_def bind_eq_Some_conv)
  have wC: "well 1 C" using read_flag_ok [OF C assms(2)] .
  have mk: "result_ok (mk_result d (bvxor (bvextract 32 32 x) (bvextract 31 31 d)) c)"
    if "well 32 d" "well 33 x" "well 1 c" for d x c
    using that by (intro mk_result_ok well_xor well_top_bit well_extract [of 33]) auto
  have AB1: "well 33 (bvextend 1 A)" "well 33 (bvextend 1 B)" using AB by (auto intro!: well_extend)
  have no: "result_ok (mk_result d (bvxor (bvextract 32 32 x) (bvextract 31 31 d)) c)"
    if "well 1 z" "d = bvadd (bvadd A B) (bvextend 31 z)" "x = bvadd (bvadd (bvextend 1 A) (bvextend 1 B)) (bvextend 32 z)"
      "c = bvadd_carry (bvadd A B) (bvextend 31 z) \<or> c = bvextract 32 32 x" for z d x c
  proof -
    have z: "well 32 (bvextend 31 z)" "well 33 (bvextend 32 z)" using that(1) by (auto intro!: well_extend)
    have "well 33 x" unfolding that(3) using z(2) AB1 by (intro well_add)
    moreover from this have "well 1 (bvextract 32 32 x)" by (rule well_extract) auto
    moreover have "well 32 (bvadd A B)" using AB by (rule well_add)
    moreover from this z(1) have "well 1 (bvadd_carry (bvadd A B) (bvextend 31 z))" by (rule well_carry)
    ultimately show ?thesis using z(1) that(4) using AB unfolding that(2) by (intro mk well_add) blast+
  qed
  show ?thesis
  proof (cases "cast_carry Bvaddition_carry 32 C")
    case None
    then show ?thesis using assms(1) C no [OF wC refl refl disjI1 [OF refl]] by (simp add: alu_plus_carry_def)
  next
    case (Some ab)
    obtain a b where ab: "ab = (a, b)" by (cases ab)
    then have w: "well 32 a" "well 32 b" using cast_carry_ok [of Bvaddition_carry 32 C a b] Some wC by (auto simp: well_def)
    let ?e = "bvadd (bvextend 1 a) (bvextend 1 b)"
    have "well 33 ?e" using w by (intro well_add) (auto intro!: well_extend)
    then have c: "well 1 (bvextract 32 32 ?e)" by (rule well_extract) auto
    have f: "well 64 (bvconcat A a)" "well 64 (bvconcat B b)" using AB w by (auto intro!: well_concat)
    then have f1: "well 65 (bvadd (bvextend 1 (bvconcat A a)) (bvextend 1 (bvconcat B b)))"
      by (intro well_add) (auto intro!: well_extend)
    have "well 33 (bvextract 64 32 (bvadd (bvextend 1 (bvconcat A a)) (bvextend 1 (bvconcat B b))))"
      using f1 by (rule well_extract) auto
    moreover have "well 32 (bvextract 63 32 (bvadd (bvconcat A a) (bvconcat B b)))"
      using well_add [OF f] by (rule well_extract) auto
    ultimately show ?thesis using assms(1) C Some ab no [OF c refl refl disjI2 [OF refl]] mk well_carry(1) [OF f]
      by (auto simp: alu_plus_carry_def Let_def split: if_split_asm)
  qed
qed

lemma alu_minus_carry_ok:
  assumes "alu_minus_carry s A B n = Some (r, m)" "exec_ok s" "well 32 A" "well 32 B"
  shows "result_ok r"
proof -
  note AB = assms(3,4)
  obtain C k where C: "read_flag s C_flag n = Some (C, k)" using assms(1) by (auto simp: alu_minus_carry_def bind_eq_Some_conv)
  have wC: "well 1 C" using read_flag_ok [OF C assms(2)] .
  have mk: "result_ok (mk_result d (minus_overflow A B d) c)" if "well 32 d" "well 1 c" for d c
    using that AB by (intro mk_result_ok minus_overflow_ok)
  show ?thesis
  proof (cases "cast_carry Bvsubstraction_carry 32 C")
    case None
    have "well 32 (bvextend 31 C)" using wC by (auto intro!: well_extend)
    then show ?thesis using assms(1) C None AB
      by (auto simp: alu_minus_carry_def Let_def intro!: mk well_sub well_carry [of 32])
  next
    case (Some ab)
    obtain a b where ab: "ab = (a, b)" by (cases ab)
    then have w: "well 32 a" "well 32 b" using cast_carry_ok [of Bvsubstraction_carry 32 C a b] Some wC by (auto simp: well_def)
    have f: "well 64 (bvconcat A a)" "well 64 (bvconcat B b)" using AB w by (auto intro!: well_concat)
    then have "well 32 (bvextract 63 32 (bvsub (bvconcat A a) (bvconcat B b)))"
      using well_sub [OF f] by (rule_tac well_extract) auto
    then show ?thesis using assms(1) C Some ab mk well_carry(2) [OF f]
      by (auto simp: alu_minus_carry_def Let_def)
  qed
qed

lemma alu_calc_ok:
  assumes "alu_calc s f A B n = Some (r, m)" "exec_ok s" "well 32 A" "well 32 B"
  shows "result_ok r"
  using assms
  by (cases f) (auto intro!: alu_plus_ok alu_minus_ok logic_result_ok well_and well_or well_xor well_not well_const
      dest: alu_plus_carry_ok alu_minus_carry_ok)

subsection \<open>Calculations\<close>

lemma alu_like_calc_ok:
  assumes "alu_like_calc s a f b sc n = Some (r, m)" "exec_ok s"
  shows "result_ok r"
proof -
  obtain A B C k1 k2 k3 r' where A: "read_src s a n = Some (A, k1)" and B: "read_src s b k1 = Some (B, k2)"
    and C: "shift_opt s sc B k2 = Some (C, k3)" and r': "alu_calc s f A C k3 = Some (r', m)"
    and r: "r = (if writes_prev f then
             r'\<lparr>res_u := res_u r' @ [Reg PREV_A A, Reg PREV_ALU (res_dst r'),
                Defered 1 (Reg PREV_A (undef 32)), Defered 1 (Reg PREV_ALU (undef 32))]\<rparr>
           else r')"
    using assms(1) by (auto simp: alu_like_calc_def bind_eq_Some_conv)
  have w: "well 32 A" "well 32 B" using read_src_ok [OF A assms(2)] read_src_ok [OF B assms(2)] .
  have "well 32 C" using shift_opt_ok [OF C assms(2) w(2)] by simp
  then have "result_ok r'" using alu_calc_ok [OF r' assms(2)] w by simp
  then show ?thesis using w(1) well_undef [of 32] by (auto simp: r result_ok_def)
qed

lemma asr_calc_ok:
  assumes "asr_calc s a sc n = Some (r, m)" "exec_ok s"
  shows "result_ok r"
proof -
  obtain p e x k1 k2 k3 where p: "read_reg s PREV_ALU n = Some (p, k1)" and e: "read_src s a k1 = Some (e, k2)"
    and x: "aright_calc33 s sc (bvconcat (bvextract 31 31 p) e) k2 = Some (x, k3)"
    and r: "r = logic_result (bvextract 31 0 x)\<lparr>res_u := [Reg PREV_ALU p, Defered 1 (Reg PREV_ALU (undef 32))]\<rparr>"
    using assms(1) by (auto simp: asr_calc_def bind_eq_Some_conv)
  have w: "well 32 p" "well 32 e" using read_reg_ok [OF p assms(2)] read_src_ok [OF e assms(2)] .
  have "well 33 (bvconcat (bvextract 31 31 p) e)" using well_top_bit [OF w(1)] w(2) by (rule well_concat) simp
  then have "well 33 x" using aright_calc33_ok [OF x assms(2)] by simp
  then have "well 32 (bvextract 31 0 x)" by (rule well_extract) auto
  then show ?thesis using w(1) well_undef [of 32] logic_result_ok by (auto simp: r result_ok_def)
qed

lemma dbl_shf_calc_ok:
  assumes "dbl_shf_calc s a b sc n = Some (r, m)" "exec_ok s"
  shows "result_ok r"
proof -
  obtain A B x k1 k2 k3 where A: "read_src s a n = Some (A, k1)" and B: "read_src s b k1 = Some (B, k2)"
    and x: "shift_calc s sc (bvconcat A B) k2 = Some (x, k3)" and r: "r = logic_result (bvextract 31 0 x)"
    using assms(1) by (auto simp: dbl_shf_calc_def bind_eq_Some_conv)
  have "well 64 (bvconcat A B)" using read_src_ok [OF A assms(2)] read_src_ok [OF B assms(2)] by (rule well_concat) simp
  then have "well 64 x" using shift_calc_ok [OF x assms(2)] by simp
  then have "well 32 (bvextract 31 0 x)" by (rule well_extract) auto
  then show ?thesis unfolding r by (rule logic_result_ok)
qed

lemma immed_calc_ok:
  assumes "immed_calc s im sc n = Some (r, m)" "exec_ok s"
  shows "result_ok r"
proof -
  let ?c = "bvconstant 32 (ucast im)"
  obtain x where x: "shift_opt s sc (bvconcat ?c ?c) n = Some (x, m)"
    and r: "r = plain_result (bvextract 63 32 x) [Reg PREV_ALU (bvextract 63 32 x)]"
    using assms(1) by (auto simp: immed_calc_def Let_def bind_eq_Some_conv)
  have "well 64 (bvconcat ?c ?c)" by (rule well_concat [of 32 _ 32]) (simp_all add: well_const)
  then have "well 64 x" using shift_opt_ok [OF x assms(2)] by simp
  then have "well 32 (bvextract 63 32 x)" by (rule well_extract) auto
  then show ?thesis unfolding r by (intro plain_result_ok) auto
qed

lemma immed_w1_calc_ok:
  assumes "immed_w1_calc s d im n = Some (r, m)" "exec_ok s"
  shows "result_ok r"
proof -
  obtain p where p: "read_src_opt s (as_src d) ''immed_w1_no_src'' n = Some (p, m)"
    and r: "r = plain_result (bvconcat (bvconstant 16 (ucast im)) (bvextract 15 0 p)) []"
    using assms(1) by (auto simp: immed_w1_calc_def bind_eq_Some_conv)
  have "well 16 (bvextract 15 0 p)" using read_src_opt_ok [OF p assms(2)] by (rule well_extract) auto
  with well_const [of 16 "ucast im"] have "well 32 (bvconcat (bvconstant 16 (ucast im)) (bvextract 15 0 p))"
    by (rule_tac well_concat [of 16 _ 16]) simp_all
  then show ?thesis unfolding r by (intro plain_result_ok) auto
qed

lemma ld_field_calc_ok:
  assumes "ld_field_calc s d msk a sc n = Some (r, m)" "exec_ok s"
  shows "result_ok r"
proof -
  obtain e e' k1 k2 where e: "read_src s a n = Some (e, k1)" and e': "shift_opt s sc e k1 = Some (e', k2)"
    and rest: "(if msk = 1111 then Some (plain_result e' [], k2)
     else do {
       (p, n) \<leftarrow> read_src_opt s (as_src d) ''ld_field_no_src'' k2;
       Some (plain_result (bvor (bvand p (bvconstant 32 (ucast (NOT (field_mask msk)))))
                                (bvand e' (bvconstant 32 (ucast (field_mask msk))))) [], n)
     }) = Some (r, m)"
    using assms(1) by (auto simp: ld_field_calc_def bind_eq_Some_conv simp del: bind.bind_lunit)
  have w: "well 32 e'" using shift_opt_ok [OF e' assms(2) read_src_ok [OF e assms(2)]] by simp
  show ?thesis using rest w
    by (auto simp: bind_eq_Some_conv split: if_split_asm
        intro!: plain_result_ok well_or well_and well_const dest: read_src_opt_ok [OF _ assms(2)])
qed

lemma ld_field_w_clr_calc_ok:
  assumes "ld_field_w_clr_calc s msk a sc n = Some (r, m)" "exec_ok s"
  shows "result_ok r"
proof -
  obtain e e' k1 k2 where e: "read_src s a n = Some (e, k1)" and e': "shift_opt s sc e k1 = Some (e', k2)"
    and r: "r = plain_result (if msk = 1111 then e' else bvand e' (bvconstant 32 (ucast (field_mask msk)))) []"
    using assms(1) by (auto simp: ld_field_w_clr_calc_def bind_eq_Some_conv)
  have "well 32 e'" using shift_opt_ok [OF e' assms(2) read_src_ok [OF e assms(2)]] by simp
  then show ?thesis unfolding r by (auto intro!: plain_result_ok well_and well_const)
qed

lemma mul_undefs_ok: "mul_undefs st n = Some (us, m) \<Longrightarrow> \<forall>u \<in> set us. update_ok u"
  by (auto simp: mul_undefs_def fresh_def well_def)

lemma tok_next_ok: "well 32 (tok_next t)"
  by (simp add: tok_next_def well_def)

lemma last_calc_ok: "well 32 A \<Longrightarrow> well 32 B \<Longrightarrow> well 32 (last_calc l A B)"
  by (cases l) (auto intro!: well_mul well_extract [of 64] well_extend)

lemma mul_step_last_calc_ok:
  assumes "mul_step_last_calc s l n = Some (r, m)" "exec_ok s"
  shows "result_ok r"
proof -
  obtain st A B c k1 k2 k3 where st: "read_reg s mul_state n = Some (st, k1)" and A: "read_reg s mulA k1 = Some (A, k2)"
    and B: "read_reg s mulB k2 = Some (B, k3)"
    and rest: "(if c then Some (plain_result (last_calc l A B) [Reg mul_state (tok_next (Last l))], k3)
     else do {
       (d, n) \<leftarrow> fresh 32 ''mul_step_sequence'' (Some (Ebvexpr st)) k3;
       (v, n) \<leftarrow> fresh 1 ''mul_step_sequence'' (Some (Ebvexpr st)) n;
       (k, n) \<leftarrow> fresh 1 ''mul_step_sequence'' (Some (Ebvexpr st)) n;
       (u, n) \<leftarrow> mul_undefs st n;
       Some ((mk_result d v k)\<lparr>res_u := u\<rparr>, n)
     }) = Some (r, m)"
    using assms(1) by (auto simp: mul_step_last_calc_def bind_eq_Some_conv simp del: bind.bind_lunit)
  have w: "well 32 A" "well 32 B" using read_reg_ok [OF A assms(2)] read_reg_ok [OF B assms(2)] .
  show ?thesis
  proof (cases c)
    case True
    then show ?thesis using rest w by (auto intro!: plain_result_ok last_calc_ok tok_next_ok)
  next
    case False
    then show ?thesis using rest
      by (auto simp: bind_eq_Some_conv result_ok_def mk_result_def intro: fresh_ok dest!: mul_undefs_ok)
  qed
qed

end
