(* ===== verification/Exec_Typed.thy ===== *)
theory Exec_Typed
  imports Perform_Typed
begin

text \<open>
  Type safety of the memory instructions and of all others, and its consequence for
  \<open>exec::apply\<close>, \<open>exec::assume\<close> and \<open>exec::static_merge\<close>: they keep states well-formed, so that
  every state an execution reaches is well-formed.
\<close>

subsection \<open>Multiplication steps\<close>

lemma mul_step_perform_ok:
  assumes "mul_step_perform s a b t n = Some (us, m)" "exec_ok s" "u \<in> set us"
  shows "update_ok u"
proof -
  obtain st A B c k1 k2 k3 where st: "read_src s a k1 = Some (A, k2)" and B: "read_src s b k2 = Some (B, k3)"
    and rest: "(if c then Some ([Reg mul_state (tok_next t), Reg mulA A, Reg mulB B], k3) else mul_undefs st k3) = Some (us, m)"
    using assms(1) by (auto simp: mul_step_perform_def bind_eq_Some_conv simp del: bind.bind_lunit)
  show ?thesis using rest mul_undefs_ok assms(3) tok_next_ok [of t] read_src_ok [OF st assms(2)] read_src_ok [OF B assms(2)]
    by (cases c) auto
qed

subsection \<open>Memory\<close>

lemma byte_at_ok: "well 32 e \<Longrightarrow> well 32 (byte_at e k)"
  unfolding byte_at_def by (intro well_add well_const) auto

lemma cast_ptr_ok: "cast_ptr A V e = Some (p, off) \<Longrightarrow> well A e \<Longrightarrow> well A off"
  by (auto simp: well_def elim!: cast_ptr_SomeE)

lemma mem_read_op_ok:
  assumes "mem_read_op f p i s n = Some ((r, i'), m)" "exec_ok s" "well 32 p"
  shows "well 32 r"
proof (cases "cast_ptr 32 8 (byte_at p (i * 4))")
  case None
  then show ?thesis using assms(1) by (cases f) (auto simp: bind_eq_Some_conv intro: fresh_ok)
next
  case (Some vo)
  obtain v o0 where vo: "vo = (v, o0)" by (cases vo)
  obtain a k o1 o2 o3 q1 q2 q3 where a: "read_mem8 s v n = Some (a, k)"
    and o: "cast_ptr 32 8 (byte_at p (i * 4 + 1)) = Some (q1, o1)" "cast_ptr 32 8 (byte_at p (i * 4 + 2)) = Some (q2, o2)"
      "cast_ptr 32 8 (byte_at p (i * 4 + 3)) = Some (q3, o3)"
    and r: "r = bvconcats [select a o3, select a o2, select a o1, select a o0]"
    using assms(1) Some vo by (cases f) (auto simp: bind_eq_Some_conv)
  note os = Some [unfolded vo, THEN cast_ptr_ok, OF byte_at_ok [OF assms(3)]]
    o [THEN cast_ptr_ok, OF byte_at_ok [OF assms(3)]]
  have s: "well 8 (select a o0)" "well 8 (select a o1)" "well 8 (select a o2)" "well 8 (select a o3)"
    using os by (auto intro: well_select [OF read_mem8_ok [OF a assms(2)]])
  show ?thesis unfolding r bvconcats.simps
    by (rule well_concat [OF s(4) well_concat [OF s(3) well_concat [OF s(2) s(1) refl] refl]]) simp
qed

lemma write_bytes_ok:
  assumes "awell 8 a" "well 32 off" "well 32 v" "well 32 ref"
  shows "awell 8 (write_bytes a off v i ref)"
proof -
  have put: "awell 8 (store x (byte_at off (i + of_nat k)) (bvextract (8 * k + 7) (8 * k) v))"
    if "awell 8 x" "k < 4" for x k
    using assms(2,3) that by (intro awell_store byte_at_ok well_extract [of 32]) auto
  have ge: "lwt (bvuge ref (bvconstant 32 c))" for c using assms(4) by (intro lwt_compare(2) [of 32] well_const) auto
  show ?thesis unfolding write_bytes_def Let_def by (intro awell_ite put ge assms(1)) auto
qed

lemma add_imm_ok:
  assumes "add_imm a off ref n = Some (b, m)" "awell 8 a" "well 32 off" "well 32 ref"
  shows "awell 8 b"
proof -
  have bytes: "awell 8 (store (store (store (store a (byte_at off 0) (bvextract 7 0 r)) (byte_at off 1) (bvextract 15 8 r))
      (byte_at off 2) (bvextract 23 16 r)) (byte_at off 3) (bvextract 31 24 r))" if "well 32 r" for r
    using assms(2,3) that by (intro awell_store byte_at_ok well_extract [OF that]) auto
  have word: "well 32 (bvconcats [select a o3, select a o2, select a o1, select a o0])"
    if o: "well 32 o0" "well 32 o1" "well 32 o2" "well 32 o3" for o0 o1 o2 o3
  proof -
    have s: "well 8 (select a x)" if "well 32 x" for x using well_select [OF assms(2) that] by simp
    show ?thesis unfolding bvconcats.simps
      by (rule well_concat [OF s [OF o(4)] well_concat [OF s [OF o(3)] well_concat [OF s [OF o(2)] s [OF o(1)] refl] refl]]) simp
  qed
  have bad: "awell 8 b" if "fresh_array 32 8 nm e n = Some (b, m)" for nm e
    using fresh_array_ok [OF that] by simp
  show ?thesis using assms(1)
    by (auto simp: add_imm_def Let_def simp del: bvconcats.simps split: option.split_asm
        dest!: cast_ptr_ok [OF _ byte_at_ok [OF assms(3)]] bad intro!: bytes well_add word assms(4))
qed

lemma mem_write_op_ok:
  assumes "mem_write_op f a off v i ref n = Some ((b, i'), m)" "awell 8 a" "well 32 off" "well 32 v" "well 32 ref"
  shows "awell 8 b"
  using assms by (cases f) (auto simp: bind_eq_Some_conv intro: write_bytes_ok dest: add_imm_ok)

lemma mem_address_ok:
  assumes "mem_address s s1 sc1 s2 sc2 n = Some (e, m)" "exec_ok s"
  shows "well 32 e"
proof -
  obtain a b c d k1 k2 k3 where r: "read_src s s1 n = Some (a, k1)" "read_src s s2 k1 = Some (b, k2)"
    and sh: "shift_opt s sc1 a k2 = Some (c, k3)" "shift_opt s sc2 b k3 = Some (d, m)" and e: "e = bvadd c d"
    using assms(1) by (auto simp: mem_address_def bind_eq_Some_conv)
  have "well 32 c" "well 32 d"
    using sh [THEN shift_opt_ok, OF assms(2)] r [THEN read_src_ok, OF assms(2)] by auto
  then show ?thesis unfolding e by (rule well_add)
qed

lemma indirect_count_ok:
  assumes "indirect_count s n = Some (e, m)" "exec_ok s"
  shows "well 32 e"
proof -
  obtain p where p: "well 32 p" and e: "e = bvadd (bvlshr p (bvconstant 32 8)) (bvconstant 32 1)"
    using assms by (auto simp: indirect_count_def bind_eq_Some_conv dest: read_reg_ok)
  show ?thesis unfolding e using p by (intro well_add well_lshr well_const) auto
qed

lemma read_loop_ok:
  "read_loop s f p ind xs i n = Some (us, m) \<Longrightarrow> exec_ok s \<Longrightarrow> well 32 p \<Longrightarrow> u \<in> set us \<Longrightarrow> update_ok u"
proof (induction s f p ind xs i n arbitrary: us rule: read_loop.induct)
  case (2 s f p ind x xs i n)
  obtain r i' k q k' vs where r: "mem_read_op f p i s n = Some ((r, i'), k)"
    and q: "(if ind then do {
         (ref, n) \<leftarrow> indirect_count s k;
         (old, n) \<leftarrow> read_reg s (xfer_in_location x) n;
         Some (bv_ite (bvugt ref (bvconstant 32 (ucast i))) r old, n)
       } else Some (r, k)) = Some (q, k')"
    and vs: "read_loop s f p ind xs i' k' = Some (vs, m)" and us: "us = Reg (xfer_in_location x) q # vs"
    using "2.prems"(1) by (auto simp: bind_eq_Some_conv)
  have w: "well 32 r" using mem_read_op_ok [OF r] "2.prems"(2,3) by simp
  have "well 32 q" using q w "2.prems"(2)
    by (auto simp: bind_eq_Some_conv split: if_split_asm dest!: indirect_count_ok read_reg_ok
        intro!: well_ite lwt_compare(4) [of 32] well_const)
  then show ?case using "2.IH" [OF r refl refl q refl vs] "2.prems"(2-4) us by auto
qed simp

lemma write_loop_ok:
  "write_loop s f off ref xs i a n = Some (b, m) \<Longrightarrow> exec_ok s \<Longrightarrow> well 32 off \<Longrightarrow> well 32 ref \<Longrightarrow> awell 8 a \<Longrightarrow> awell 8 b"
proof (induction s f off ref xs i a n rule: write_loop.induct)
  case (2 s f off ref x xs i a n)
  obtain v k c j k' where v: "read_reg s (xfer_out_location x) n = Some (v, k)"
    and w: "mem_write_op f a off v i ref k = Some ((c, j), k')" and r: "write_loop s f off ref xs j c k' = Some (b, m)"
    using "2.prems"(1) by (auto simp: bind_eq_Some_conv)
  have "awell 8 c" using mem_write_op_ok [OF w] read_reg_ok [OF v] "2.prems"(2-5) by blast
  then show ?case using "2.IH" [OF v refl w refl refl r] "2.prems"(2-4) by blast
qed simp

lemma mem_read_perform_ok:
  "mem_read_perform s f x s1 sc1 s2 sc2 r ind n = Some (us, m) \<Longrightarrow> exec_ok s \<Longrightarrow> u \<in> set us \<Longrightarrow> update_ok u"
  by (auto simp: mem_read_perform_def bind_eq_Some_conv dest: mem_address_ok read_loop_ok)

lemma mem_write_perform_ok:
  assumes "mem_write_perform s f x s1 sc1 s2 sc2 r ind n = Some (us, m)" "exec_ok s" "u \<in> set us"
  shows "update_ok u"
proof -
  obtain d k where d: "mem_address s s1 sc1 s2 sc2 n = Some (d, k)"
    and rest: "(case cast_ptr 32 8 d of
       None \<Rightarrow> Some ([Invalidate_mem (Some (Ebvexpr d))], k)
     | Some (p, off) \<Rightarrow> do {
         (a, n) \<leftarrow> read_mem8 s p k;
         (ref, n) \<leftarrow> (if ind then indirect_count s n else Some (bvconstant 32 (ucast r), n));
         (a, n) \<leftarrow> write_loop s f off ref (write_xfers f x r ind) 0 a n;
         Some ([Mem8 (declname p) a], n)
       }) = Some (us, m)"
    using assms(1) by (auto simp: mem_write_perform_def bind_eq_Some_conv [of "mem_address s s1 sc1 s2 sc2 n"])
  note w = mem_address_ok [OF d assms(2)]
  show ?thesis
  proof (cases "cast_ptr 32 8 d")
    case (Some po)
    obtain p off where po: "po = (p, off)" by (cases po)
    obtain a ref b k1 k2 where a: "read_mem8 s p k = Some (a, k1)"
      and ref: "(if ind then indirect_count s k1 else Some (bvconstant 32 (ucast r), k1)) = Some (ref, k2)"
      and b: "write_loop s f off ref (write_xfers f x r ind) 0 a k2 = Some (b, m)" and us: "us = [Mem8 (declname p) b]"
      using rest Some po by (auto simp: bind_eq_Some_conv)
    have "well 32 ref" using ref indirect_count_ok assms(2) by (auto split: if_split_asm intro: well_const)
    then have "awell 8 b" using write_loop_ok [OF b assms(2)] cast_ptr_ok [OF Some [unfolded po] w] read_mem8_ok [OF a assms(2)] by blast
    then show ?thesis using assms(3) us by simp
  qed (use rest assms(3) in auto)
qed

subsection \<open>Instructions\<close>

lemma condition_codes_ok: "result_ok r \<Longrightarrow> u \<in> set (condition_codes r) \<Longrightarrow> update_ok u"
  using well_comp [OF well_top_bit [of "res_dst r"] well_const [of 1 1]] well_comp [of 32 "res_dst r" "bvconstant 32 0"]
    well_const [of 32 0]
  by (auto simp: condition_codes_def result_ok_def)

lemma assign_perform_ok:
  assumes "assign_perform s d both cc calc n = Some (us, m)" "exec_ok s" "u \<in> set us"
    and calc: "\<And>r k. calc n = Some (r, k) \<Longrightarrow> result_ok r"
  shows "update_ok u"
proof -
  obtain r k v where r: "calc n = Some (r, k)" and v: "write_dst s d (res_dst r) k = Some (v, m)"
    and us: "us = v # wrboth d both (res_dst r) @ (if cc then condition_codes r else []) @ res_u r"
    using assms(1) by (auto simp: assign_perform_def bind_eq_Some_conv)
  have w: "well 32 (res_dst r)" "\<forall>u \<in> set (res_u r). update_ok u" using calc [OF r] by (auto simp: result_ok_def)
  have "update_ok v" using write_dst_ok [OF v assms(2) w(1)] .
  moreover have "update_ok x" if "x \<in> set (wrboth d both (res_dst r))" for x
    using that w(1) by (auto simp: wrboth_def split: dst.split_asm if_split_asm)
  ultimately show ?thesis using assms(3) w(2) condition_codes_ok [OF calc [OF r]] us by (auto split: if_split_asm)
qed

lemmas calc_ok = alu_like_calc_ok asr_calc_ok dbl_shf_calc_ok immed_calc_ok immed_w1_calc_ok ld_field_calc_ok
  ld_field_w_clr_calc_ok mul_step_last_calc_ok

lemma local_csr_write_ok: "well 32 e \<Longrightarrow> update_ok (local_csr_write c e)"
  by (cases c) simp

lemma perform_typed:
  assumes "perform n s k = Some (us, m)" "exec_ok s" "u \<in> set us"
  shows "update_ok u"
proof -
  note a = assign_perform_ok [OF _ assms(2,3)]
  show ?thesis
  proof (cases "operation n")
    case (Local_csr_wr c a)
    then show ?thesis using assms read_src_ok local_csr_write_ok by (auto simp: perform_def bind_eq_Some_conv)
  qed (use assms in \<open>auto simp: perform_def elim!: a dest: calc_ok mem_read_perform_ok mem_write_perform_ok mul_step_perform_ok\<close>)
qed

subsection \<open>Conditions\<close>

lemma cast_carry_parts: "cast_carry f w e = Some (a, b) \<Longrightarrow> well v e \<Longrightarrow> well w a \<and> well w b"
  using cast_carry_ok by (auto simp: well_def)

lemma carry_expr_ok:
  assumes "well 1 C"
  shows "well 1 (carry_expr C)"
proof -
  have top: "well 1 (bvextract w w (bvadd (bvextend 1 a) (bvextend 1 b)))" if "well w a" "well w b" for w a b
    using that by (intro well_extract [of "w + 1"] well_add well_extend) auto
  define D where "D = (case cast_carry Bvaddition_carry 32 C of
     Some (a, b) \<Rightarrow> bvextract 32 32 (bvadd (bvextend 1 a) (bvextend 1 b)) | None \<Rightarrow> C)"
  have D: "well 1 D" using assms top [of 32] cast_carry_parts [of _ 32 C] by (auto simp: D_def split: option.split)
  then show ?thesis using top [of 64] cast_carry_parts [of _ 64 D]
    by (auto simp: carry_expr_def Let_def simp flip: D_def split: option.split)
qed

lemma cast_ptr_ext_ok: "cast_ptr_ext 32 V 32 e = Some (p, off, ext) \<Longrightarrow> well v e \<Longrightarrow> well 32 off \<and> well 32 ext"
  by (auto simp: well_def elim!: cast_ptr_ext_SomeE)

lemma same_array_ok:
  "same_array32 a b = Some (x, y) \<Longrightarrow> well 32 a \<Longrightarrow> well 32 b \<Longrightarrow> well 32 x \<and> well 32 y"
  "same_array64 a b = Some ((x, x'), (y, y')) \<Longrightarrow> well 64 a \<Longrightarrow> well 64 b \<Longrightarrow>
     well 32 x \<and> well 32 y \<and> well 32 x' \<and> well 32 y'"
  by (auto simp: same_array32_def same_array64_def split: option.split_asm prod.split_asm if_split_asm
      dest: cast_ptr_ok cast_ptr_ext_ok)

lemma lwt_connectives [typing]: "lwt a \<Longrightarrow> lwt b \<Longrightarrow> lwt (lor a b)" "lwt a \<Longrightarrow> lwt b \<Longrightarrow> lwt (land a b)" "lwt a \<Longrightarrow> lwt (isfalse a)"
  using lor_sound land_sound isfalse_sound by auto

lemma lwt_eq_const: "eq_bv a (bvconstant w v) = Some e \<Longrightarrow> well w a \<Longrightarrow> w \<le> 64 \<Longrightarrow> lwt e"
  using well_const [of w v] well_pos [of w a] by (auto intro: lwt_eq)

lemma check_bcc_ok:
  assumes "check_bcc C = Some e" "well 1 C"
  shows "lwt e"
  using assms
  by (auto simp: check_bcc_def bind_eq_Some_conv split: option.split_asm prod.split_asm intro!: lwt_connectives
      intro: lwt_compare lwt_eq_const [OF _ carry_expr_ok]
      dest!: cast_carry_parts [OF _ assms(2)] dest: same_array_ok lwt_eq)

lemma check_bcs_ok:
  assumes "check_bcs C = Some e" "well 1 C"
  shows "lwt e"
  using assms
  by (auto simp: check_bcs_def bind_eq_Some_conv split: option.split_asm prod.split_asm intro!: lwt_connectives
      intro: lwt_compare lwt_eq_const [OF _ carry_expr_ok]
      dest!: cast_carry_parts [OF _ assms(2)] dest: same_array_ok lwt_eq)

lemma flag_is_ok: "flag_is s f v n = Some (e, m) \<Longrightarrow> exec_ok s \<Longrightarrow> lwt e"
  by (auto simp: flag_is_def bind_eq_Some_conv simp del: One_nat_def dest: read_flag_ok intro: lwt_eq_const)

lemma n_equals_v_ok: "n_equals_v s n = Some (e, m) \<Longrightarrow> exec_ok s \<Longrightarrow> lwt e"
  by (auto simp: n_equals_v_def bind_eq_Some_conv dest!: read_flag_ok dest: lwt_eq)

lemma check_typed: "check i s n = Some (e, m) \<Longrightarrow> exec_ok s \<Longrightarrow> lwt e"
proof (cases "operation i")
  case (Proper_branch f t d)
  then show "check i s n = Some (e, m) \<Longrightarrow> exec_ok s \<Longrightarrow> lwt e"
    by (cases f) (auto simp: check_def bind_eq_Some_conv intro!: lwt_connectives
        dest: read_flag_ok flag_is_ok n_equals_v_ok check_bcc_ok check_bcs_ok)
qed (simp_all add: check_def)

subsection \<open>Execution\<close>

lemma exec_ok_upd [simp]:
  "exec_ok (s\<lparr>sat := x\<rparr>) = exec_ok s" "exec_ok (s\<lparr>model := y\<rparr>) = exec_ok s"
  "exec_ok (s\<lparr>unsat_core := z\<rparr>) = exec_ok s" "exec_ok (s\<lparr>minimize := w\<rparr>) = exec_ok s"
  "exec_ok (s\<lparr>min_value := a\<rparr>) = exec_ok s" "exec_ok (s\<lparr>max_value := a\<rparr>) = exec_ok s"
  "exec_ok (s\<lparr>summaxcycles := a\<rparr>) = exec_ok s" "exec_ok (s\<lparr>sumcycles := a\<rparr>) = exec_ok s"
  "exec_ok (s\<lparr>lastmem := a\<rparr>) = exec_ok s" "exec_ok (s\<lparr>lastcc := a\<rparr>) = exec_ok s"
  "exec_ok (s\<lparr>sumdramcycles := r\<rparr>) = exec_ok s"
  by (simp_all add: exec_ok_def)

lemma unsat_by_ok [simp]: "exec_ok (unsat_by i s) = exec_ok s"
  by (simp add: unsat_by_def)

lemma check_bounds_ok [simp]: "exec_ok (check_bounds i s) = exec_ok s"
  by (simp add: check_bounds_def)

lemma assumptions_append_ok: "exec_ok (s\<lparr>assumptions := assumptions s @ [(e, i)]\<rparr>) \<longleftrightarrow> exec_ok s \<and> lwt e"
  by (auto simp: exec_ok_def)

text \<open>The cases of \<open>exec::assume\<close>.\<close>

lemma exec_assume_unknown: "\<nexists>v. e = Boolean v \<Longrightarrow>
    exec_assume (e, i) s = Option.bind (is_known e (assumptions s)) (\<lambda>k. if k then Some s else assume_new e i s)"
  unfolding exec_assume_def prod.case by (cases e) (auto simp only: lexpr.case)

lemma exec_assume_cases:
  assumes "exec_assume (e, i) s = Some t"
  obtains (trivial) v where "e = Boolean v" "t = (if v then s else unsat_by i s)"
  | (known) "is_known e (assumptions s) = Some True" "t = s"
  | (lower) m v where "minimize s = Some m" "bound_of Bvugecomparison m e = Some (Some v)"
      "t = check_bounds i (if ucast (min_value s) < v then s\<lparr>min_value := ucast v\<rparr> else s)"
  | (upper) m v where "minimize s = Some m" "bound_of Bvultcomparison m e = Some (Some v)"
      "t = check_bounds i (if v \<le> ucast (max_value s) then s\<lparr>max_value := ucast v\<rparr> else s)"
  | (new) "t = s\<lparr>assumptions := assumptions s @ [(e, i)]\<rparr>"
proof (cases "\<exists>v. e = Boolean v")
  case True
  then obtain v where v: "e = Boolean v" ..
  with assms show ?thesis by (intro trivial [OF v]) (simp add: exec_assume_def)
next
  case False
  then have "Option.bind (is_known e (assumptions s)) (\<lambda>k. if k then Some s else assume_new e i s) = Some t"
    using assms by (simp add: exec_assume_unknown)
  then obtain k where k: "is_known e (assumptions s) = Some k" "(if k then Some s else assume_new e i s) = Some t"
    by (auto simp: bind_eq_Some_conv)
  show ?thesis
  proof (cases k)
    case False
    with k(2) have n: "assume_new e i s = Some t" by simp
    show ?thesis
    proof (cases "minimize s")
      case None
      with n show ?thesis by (intro new) (simp add: assume_new_def)
    next
      case (Some m)
      with n obtain ge where ge: "bound_of Bvugecomparison m e = Some ge"
        by (auto simp: assume_new_def bind_eq_Some_conv)
      show ?thesis
      proof (cases ge)
        case None
        with n Some ge obtain lt where "bound_of Bvultcomparison m e = Some lt"
          by (auto simp: assume_new_def bind_eq_Some_conv)
        note lt = this
        show ?thesis
        proof (cases lt)
          case None
          with n Some ge lt \<open>ge = None\<close> show ?thesis by (intro new) (simp add: assume_new_def)
        next
          case (Some v)
          with n \<open>minimize s = Some m\<close> ge lt \<open>ge = None\<close> show ?thesis
            by (intro upper [of m v]) (simp_all add: assume_new_def)
        qed
      next
        case (Some v)
        with n \<open>minimize s = Some m\<close> ge show ?thesis by (intro lower [of m v]) (simp_all add: assume_new_def)
      qed
    qed
  next
    case True
    with k show ?thesis by (intro known) simp_all
  qed
qed

lemma exec_assume_ok: "exec_assume (e, i) s = Some t \<Longrightarrow> exec_ok s \<Longrightarrow> lwt e \<Longrightarrow> exec_ok t"
  by (erule exec_assume_cases) (auto simp: assumptions_append_ok)

lemma is_reg_update: "is_reg u \<Longrightarrow> update_ok u"
  by (cases u) auto

text \<open>Only writes of registers are deferred, so a well-formed state can always fire.\<close>

lemma fire_total:
  assumes "exec_ok s"
  shows "\<exists>t. fire s = Some t \<and> exec_ok t"
proof -
  let ?due = "filter (\<lambda>(c, u). c \<le> sumcycles s) (defered s)"
  have reg: "is_reg u" if "(c, u) \<in> set (defered s)" for c u using assms that by (auto simp: exec_ok_def)
  have "\<not> is_defered u" if "(c, u) \<in> set ?due" for c u using reg [of c u] that by (cases u) auto
  moreover have "exec_ok (s\<lparr>defered := filter (\<lambda>(c, u). \<not> c \<le> sumcycles s) (defered s)\<rparr>)"
    using assms by (auto simp: exec_ok_def)
  ultimately show ?thesis using reg is_reg_update
    by (fastforce simp: fire_def Let_def intro!: store_all_ok)
qed

lemma take_branch_ok:
  assumes "take_branch n l b s k = Some (t, m)" "exec_ok s"
  shows "exec_ok t"
proof (cases "itype n = BRANCH")
  case True
  let ?s = "s\<lparr>sat := None, model := None\<rparr>"
  obtain c k' where c: "check n ?s k = Some (c, k')"
    and t: "exec_assume (if b then c else isfalse c, assumption_name n l b) ?s = Some t"
    using assms(1) True by (auto simp: take_branch_def Let_def bind_eq_Some_conv)
  have s: "exec_ok ?s" using assms(2) by simp
  have "lwt c" using c s by (rule check_typed)
  then have "lwt (if b then c else isfalse c)" by (simp add: lwt_connectives)
  with t s show ?thesis by (rule exec_assume_ok)
qed (use assms in \<open>auto simp: take_branch_def\<close>)

lemma tick_ok: "tick n i b s = Some t \<Longrightarrow> exec_ok s \<Longrightarrow> exec_ok t"
  by (auto simp: tick_def Let_def bind_eq_Some_conv split: if_split_asm)

lemma exec_apply_cases:
  assumes "exec_apply n i l b s k = Some (t, m)"
  obtains (unsat) "tick n i b s = Some t" "sat t = Some False"
  | (step) s1 s2 s3 us k1 where "tick n i b s = Some s1" "sat s1 \<noteq> Some False" "take_branch n l b s1 k = Some (s2, k1)"
      "perform n s2 k1 = Some (us, m)" "fire s2 = Some s3" "t = store_all us s3"
proof -
  obtain s1 where t: "tick n i b s = Some s1" and r: "(if sat s1 = Some False then Some (s1, k) else do {
       (s, k) \<leftarrow> take_branch n l b s1 k;
       (us, k) \<leftarrow> perform n s k;
       s \<leftarrow> fire s;
       Some (store_all us s, k)
     }) = Some (t, m)"
    using assms unfolding exec_apply_def by (subst (asm) bind_eq_Some_conv) blast
  show ?thesis
  proof (cases "sat s1 = Some False")
    case True
    then show ?thesis using t r unsat by simp
  next
    case False
    then obtain s2 k1 us s3 where "take_branch n l b s1 k = Some (s2, k1)" "perform n s2 k1 = Some (us, m)"
      "fire s2 = Some s3" "t = store_all us s3"
      using r by (auto simp: bind_eq_Some_conv)
    with False t show ?thesis by (intro step)
  qed
qed

lemma exec_apply_ok:
  assumes "exec_apply n i l b s k = Some (t, m)" "exec_ok s"
  shows "exec_ok t"
  using assms(1)
proof (cases rule: exec_apply_cases)
  case unsat
  then show ?thesis using tick_ok assms(2) by blast
next
  case (step s1 s2 s3 us k1)
  have s2: "exec_ok s2" using take_branch_ok [OF step(3)] tick_ok [OF step(1) assms(2)] by simp
  then have "exec_ok s3" using fire_total [OF s2] step(5) by auto
  then show ?thesis using perform_typed [OF step(4) s2] step(6) by (auto intro: store_all_ok)
qed

subsection \<open>Merging\<close>

lemma merge_leaf_ok: "merge_leaf a b = Some r \<Longrightarrow> well w a \<Longrightarrow> well w r"
  using well_undef [of w] well_pos [of w a] by (auto simp: merge_leaf_def well_width split: if_split_asm)

lemma bv_merge_ok: "bv_merge a b = Some r \<Longrightarrow> well w a \<Longrightarrow> well w b \<Longrightarrow> well w r"
proof (induction a b arbitrary: w r rule: bv_merge.induct)
  case m: (1 a b z)
  have w: "well (width a) a" "well (width b) b" "w = width a + width b" using m.prems(2) by (auto simp: well_def)
  consider "r = Concatenation a b" | "r = undef (width a + width b)"
    | a' b' x y where "beq (Concatenation a b) z = Some False" "cast_concat (width a) (width b) z = Some (a', b')"
      "bv_merge a a' = Some x" "bv_merge b b' = Some y" "r = bvconcat x y"
    using m.prems(1) by (auto simp: bind_eq_Some_conv split: if_splits option.splits)
  then show ?case
  proof cases
    case 2
    then show ?thesis using w well_undef [of w] well_pos [OF m.prems(2)] by simp
  next
    case (3 a' b' x y)
    then have z: "well (width a) a'" "well (width b) b'" using m.prems(3) by (auto simp: well_def elim!: cast_concat_SomeE)
    have "well (width a) x" using m.IH(1) [OF 3(1) _ 3(2) refl 3(3)] w z by simp
    moreover have "well (width b) y" using m.IH(2) [OF 3(1) _ 3(2) refl 3(3,4)] w z by simp
    ultimately show ?thesis unfolding 3(5) using w(3) by (rule well_concat)
  qed (use m.prems in simp)
qed (metis bv_merge.simps merge_leaf_ok)+

text \<open>One step of the loop over both maps.\<close>

lemma map_merge_cases:
  assumes "map_merge V ((k, v) # m) ((k', v') # m') = Some r"
  obtains (less) q where "k < k'" "map_merge V m ((k', v') # m') = Some q" "r = (k, undef V) # q"
  | (greater) q where "\<not> k < k'" "k' < k" "map_merge V ((k, v) # m) m' = Some q" "r = (k', undef V) # q"
  | (equal) x q where "\<not> k < k'" "\<not> k' < k" "k = k'" "bv_merge v v' = Some x" "map_merge V m m' = Some q" "r = (k, x) # q"
proof -
  consider "k < k'" | "\<not> k < k'" "k' < k" | "\<not> k < k'" "\<not> k' < k" by blast
  then show ?thesis
  proof cases
    case 1
    with assms obtain q where "map_merge V m ((k', v') # m') = Some q" "r = (k, undef V) # q" by auto
    with 1 show ?thesis by (intro less)
  next
    case 2
    with assms have "map_option ((#) (k', undef V)) (map_merge V ((k, v) # m) m') = Some r" by simp
    then obtain q where "map_merge V ((k, v) # m) m' = Some q" "r = (k', undef V) # q" by blast
    with 2 show ?thesis by (intro greater)
  next
    case 3
    with assms have "Option.bind (bv_merge v v') (\<lambda>x. map_option ((#) (k, x)) (map_merge V m m')) = Some r" by simp
    then obtain x q where "bv_merge v v' = Some x" "map_merge V m m' = Some q" "r = (k, x) # q"
      unfolding bind_eq_Some_conv by blast
    moreover have "k = k'" using 3 by simp
    ultimately show ?thesis using 3 by (intro equal)
  qed
qed

lemma map_merge_keys: "map_merge V m m' = Some r \<Longrightarrow> fst ` set r = fst ` set m \<union> fst ` set m'"
proof (induction V m m' arbitrary: r rule: map_merge.induct)
  case (4 V k v m k' v' m')
  from "4.prems" show ?case
  proof (cases rule: map_merge_cases)
    case (less q)
    show ?thesis using "4.IH"(1) [OF less(1,2)] less(3) by auto
  next
    case (greater q)
    show ?thesis using "4.IH"(2) [OF greater(1-3)] greater(4) by auto
  next
    case (equal x q)
    show ?thesis using "4.IH"(3) [OF equal(1,2,4,5)] equal(3,6) by auto
  qed
next
  case (2 V k' v' m')
  then obtain q where q: "map_merge V [] m' = Some q" "r = (k', undef V) # q" by auto
  then show ?case using "2.IH" [OF q(1)] by simp
next
  case (3 V k v m)
  then obtain q where q: "map_merge V m [] = Some q" "r = (k, undef V) # q" by auto
  then show ?case using "3.IH" [OF q(1)] by simp
qed simp

lemma map_merge_sorted:
  "map_merge V m m' = Some r \<Longrightarrow> sorted_wrt (<) (map fst m) \<Longrightarrow> sorted_wrt (<) (map fst m') \<Longrightarrow> sorted_wrt (<) (map fst r)"
proof (induction V m m' arbitrary: r rule: map_merge.induct)
  case (4 V k v m k' v' m')
  from "4.prems"(1) show ?case
  proof (cases rule: map_merge_cases)
    case (less q)
    show ?thesis using less(1,3) "4.IH"(1) [OF less(1,2)] "4.prems"(2,3) map_merge_keys [OF less(2)]
      by (auto dest: order.strict_trans)
  next
    case (greater q)
    show ?thesis using greater(2,4) "4.IH"(2) [OF greater(1-3)] "4.prems"(2,3) map_merge_keys [OF greater(3)]
      by (auto dest: order.strict_trans)
  next
    case (equal x q)
    show ?thesis using equal(3,6) "4.IH"(3) [OF equal(1,2,4,5)] "4.prems"(2,3) map_merge_keys [OF equal(5)] by auto
  qed
next
  case (2 V k' v' m')
  then obtain q where q: "map_merge V [] m' = Some q" "r = (k', undef V) # q" by auto
  then show ?case using 2 map_merge_keys [OF q(1)] by auto
next
  case (3 V k v m)
  then obtain q where q: "map_merge V m [] = Some q" "r = (k, undef V) # q" by auto
  then show ?case using 3 map_merge_keys [OF q(1)] by auto
qed auto

lemma map_merge_ok:
  "map_merge V m m' = Some r \<Longrightarrow> 0 < V \<Longrightarrow> \<forall>(k, v) \<in> set m. well V v \<Longrightarrow> \<forall>(k, v) \<in> set m'. well V v \<Longrightarrow>
     \<forall>(k, v) \<in> set r. well V v"
proof (induction V m m' arbitrary: r rule: map_merge.induct)
  case (4 V k v m k' v' m')
  from "4.prems"(1) show ?case
  proof (cases rule: map_merge_cases)
    case (less q)
    show ?thesis using less(3) "4.IH"(1) [OF less(1,2)] "4.prems"(2-4) well_undef [of V] by auto
  next
    case (greater q)
    show ?thesis using greater(4) "4.IH"(2) [OF greater(1-3)] "4.prems"(2-4) well_undef [of V] by auto
  next
    case (equal x q)
    show ?thesis using equal(6) "4.IH"(3) [OF equal(1,2,4,5)] "4.prems"(2-4) bv_merge_ok [OF equal(4)] by auto
  qed
qed (auto simp: well_undef)

lemma awell_concrete: "awell V (Concrete_storing a m) \<longleftrightarrow>
    awell V a \<and> (\<forall>(k, v) \<in> set m. well V v) \<and> (\<forall>k \<in> fst ` set m. take_bit 32 k = k) \<and> sorted_wrt (<) (map fst m)"
  by (auto simp: awell_def well_def)

lemma awell_undef: "0 < V \<Longrightarrow> awell V (undef_array 32 V)"
  by (simp add: awell_def undef_array_def)

lemma arr_merge_ok: "arr_merge a b = Some r \<Longrightarrow> 0 < V \<Longrightarrow> awell V a \<Longrightarrow> awell V b \<Longrightarrow> awell V r"
proof (induction a b arbitrary: r rule: arr_merge.induct)
  case c: (1 a m z)
  have ar: "arr_A a = 32" "arr_V a = V" using c.prems(3) by (auto simp: awell_def)
  obtain t where t: "aeq (Concrete_storing a m) z = Some t" using c.prems(1) by (auto simp: bind_eq_Some_conv)
  consider "r = Concrete_storing a m" | "r = undef_array 32 V"
    | a' m' x q where "\<not> t" "z = Concrete_storing a' m'" "arr_A a = arr_A a' \<and> arr_V a = arr_V a'"
       "arr_merge a a' = Some x" "map_merge V m m' = Some q" "r = Concrete_storing x q"
    using c.prems(1) t ar by (cases z) (auto simp: bind_eq_Some_conv split: if_split_asm)
  then show ?case
  proof cases
    case (3 a' m' x q)
    have "awell V x" using c.IH [OF t 3(1-4) c.prems(2)] c.prems(3,4) 3(2) by (simp add: awell_concrete)
    moreover have "sorted_wrt (<) (map fst q)" using map_merge_sorted [OF 3(5)] c.prems(3,4) 3(2) by (simp add: awell_concrete)
    moreover have "\<forall>(k, v) \<in> set q. well V v" using map_merge_ok [OF 3(5) c.prems(2)] c.prems(3,4) 3(2) by (simp add: awell_concrete)
    moreover have "\<forall>k \<in> fst ` set q. take_bit 32 k = k"
      using map_merge_keys [OF 3(5)] c.prems(3,4) 3(2) by (auto simp only: awell_concrete)
    ultimately show ?thesis unfolding 3(6) awell_concrete by blast
  qed (use c.prems awell_undef in auto)
qed (use awell_undef in \<open>auto simp: awell_def split: if_split_asm\<close>)

text \<open>One step of the loops over deposits and assumptions.\<close>

lemma merge_deposits_cases:
  assumes "merge_deposits f ((d, e) # l) m = Some r"
  obtains (skip) "map_of m d = None" "merge_deposits f l m = Some r"
  | (both) e' x q where "map_of m d = Some e'" "f e e' = Some x" "merge_deposits f l m = Some q" "r = (d, x) # q"
proof (cases "map_of m d")
  case None
  then show ?thesis using assms skip by simp
next
  case (Some e')
  with assms obtain x q where "f e e' = Some x" "merge_deposits f l m = Some q" "r = (d, x) # q"
    by (auto simp: bind_eq_Some_conv)
  with Some show ?thesis by (intro both)
qed

lemma merge_deposits_keys:
  "merge_deposits f l m = Some r \<Longrightarrow> distinct (map fst l) \<Longrightarrow> distinct (map fst r) \<and> fst ` set r \<subseteq> fst ` set l"
proof (induction l arbitrary: r)
  case (Cons x l)
  obtain d e where x: "x = (d, e)" by (cases x)
  from Cons.prems(1) [unfolded x] show ?case
  proof (cases rule: merge_deposits_cases)
    case skip
    then show ?thesis using Cons.IH [of r] Cons.prems(2) x by auto
  next
    case (both e' y q)
    then show ?thesis using Cons.IH [of q] Cons.prems(2) x by auto
  qed
qed simp

lemma merge_deposits_mem:
  "merge_deposits f l m = Some r \<Longrightarrow> (d, x) \<in> set r \<Longrightarrow> \<exists>e e'. (d, e) \<in> set l \<and> map_of m d = Some e' \<and> f e e' = Some x"
proof (induction l arbitrary: r)
  case (Cons y l)
  obtain c e where y: "y = (c, e)" by (cases y)
  from Cons.prems(1) [unfolded y] show ?case
  proof (cases rule: merge_deposits_cases)
    case skip
    then show ?thesis using Cons.IH [of r] Cons.prems(2) y by auto
  next
    case (both e' z q)
    then show ?thesis using Cons.IH [of q] Cons.prems(2) y by auto
  qed
qed simp

lemma merge_deposits_ok:
  assumes "merge_deposits f l m = Some r" "\<forall>(d, e) \<in> set l. P e" "\<forall>(d, e) \<in> set m. P e"
    "\<And>a b x. f a b = Some x \<Longrightarrow> P a \<Longrightarrow> P b \<Longrightarrow> P x"
  shows "\<forall>(d, e) \<in> set r. P e"
proof clarify
  fix d x assume "(d, x) \<in> set r"
  from merge_deposits_mem [OF assms(1) this] obtain e e' where
    "(d, e) \<in> set l" "map_of m d = Some e'" "f e e' = Some x" by blast
  then show "P x" using assms(2-4) by (blast dest: map_of_SomeD)
qed

lemma merge_assumptions_subset: "merge_assumptions as bs = Some cs \<Longrightarrow> set cs \<subseteq> set as"
proof (induction as arbitrary: cs)
  case (Cons a as)
  obtain e i where a: "a = (e, i)" by (cases a)
  obtain ts r where r: "merge_assumptions as bs = Some r" and cs: "cs = map (\<lambda>_. (e, i)) (filter (\<lambda>t. t) ts) @ r"
    using Cons.prems unfolding a by (auto simp: bind_eq_Some_conv)
  show ?case using Cons.IH [OF r] by (auto simp: cs a)
qed simp

text \<open>Every deferred update writes a register, so that its undefined counterpart exists.\<close>

lemma undef_defered_ok:
  "\<forall>(c, u) \<in> set ds. is_reg u \<Longrightarrow> exec_ok s \<Longrightarrow> \<exists>t m. undef_defered ds s n = Some (t, m) \<and> exec_ok t"
proof (induction ds s n rule: undef_defered.induct)
  case (2 c u ds s n)
  then obtain d e where u: "u = Reg d e" by (cases u) auto
  have "exec_ok (update_store (Reg d (Undefined 32 (Fresh n) ''no_defered_merge'' None)) s)"
    using "2.prems"(2) by (intro update_store_ok) (simp_all add: well_def)
  then show ?case using "2.IH" [of "(Reg d (Undefined 32 (Fresh n) ''no_defered_merge'' None), Suc n)"
      "Reg d (Undefined 32 (Fresh n) ''no_defered_merge'' None)" "Suc n"] "2.prems" u
    by (auto simp: fresh_def)
qed simp

lemma exec_ok_parts:
  "exec_ok s \<Longrightarrow> \<forall>(d, e) \<in> set (registers s). well 32 e" "exec_ok s \<Longrightarrow> \<forall>(d, e) \<in> set (flags s). well 1 e"
  "exec_ok s \<Longrightarrow> \<forall>(d, e) \<in> set (mem8 s). awell 8 e" "exec_ok s \<Longrightarrow> \<forall>(d, e) \<in> set (mem32 s). awell 32 e"
  "exec_ok s \<Longrightarrow> \<forall>(c, u) \<in> set (defered s). is_reg u" "exec_ok s \<Longrightarrow> \<forall>(e, i) \<in> set (assumptions s). lwt e"
  "exec_ok s \<Longrightarrow> distinct (map fst (registers s))" "exec_ok s \<Longrightarrow> distinct (map fst (flags s))"
  "exec_ok s \<Longrightarrow> distinct (map fst (mem8 s))" "exec_ok s \<Longrightarrow> distinct (map fst (mem32 s))"
  unfolding exec_ok_def by blast+

text \<open>The parts of a merged state, before the deferred updates are undefined.\<close>

definition merge_base ::
  "exec \<Rightarrow> exec \<Rightarrow> assumption list \<Rightarrow> (string \<times> bvexpr) list \<Rightarrow> (string \<times> bvexpr) list \<Rightarrow>
     (string \<times> bvarray) list \<Rightarrow> (string \<times> bvarray) list \<Rightarrow> exec" where
  "merge_base a b as rs fs m8 m32 =
     empty_exec\<lparr>summaxcycles := max (summaxcycles a) (summaxcycles b),
       sumdramcycles := max (sumdramcycles a) (sumdramcycles b),
       sumcycles := max (sumcycles a) (sumcycles b),
       lastmem := max (lastmem a) (lastmem b), lastcc := max (lastcc a) (lastcc b),
       assumptions := as, registers := rs, flags := fs, mem8 := m8, mem32 := m32\<rparr>"

lemma merge_base_ok:
  assumes "exec_ok a" "exec_ok b" "merge_assumptions (assumptions a) (assumptions b) = Some as"
    "merge_deposits bv_merge (registers a) (registers b) = Some rs" "merge_deposits bv_merge (flags a) (flags b) = Some fs"
    "merge_deposits arr_merge (mem8 a) (mem8 b) = Some m8" "merge_deposits arr_merge (mem32 a) (mem32 b) = Some m32"
  shows "exec_ok (merge_base a b as rs fs m8 m32)"
proof -
  note pa = exec_ok_parts [OF assms(1)] and pb = exec_ok_parts [OF assms(2)]
  have "\<forall>(d, e) \<in> set rs. well 32 e" using assms(4) pa(1) pb(1) bv_merge_ok by (rule merge_deposits_ok)
  moreover have "\<forall>(d, e) \<in> set fs. well 1 e" using assms(5) pa(2) pb(2) bv_merge_ok by (rule merge_deposits_ok)
  moreover have "\<forall>(d, e) \<in> set m8. awell 8 e"
    using assms(6) pa(3) pb(3) arr_merge_ok [where V = 8, simplified] by (rule merge_deposits_ok)
  moreover have "\<forall>(d, e) \<in> set m32. awell 32 e"
    using assms(7) pa(4) pb(4) arr_merge_ok [where V = 32, simplified] by (rule merge_deposits_ok)
  moreover have "\<forall>(e, i) \<in> set as. lwt e" using merge_assumptions_subset [OF assms(3)] pa(6) by blast
  ultimately show ?thesis unfolding exec_ok_def merge_base_def
    using merge_deposits_keys [OF assms(4) pa(7)] merge_deposits_keys [OF assms(5) pa(8)]
      merge_deposits_keys [OF assms(6) pa(9)] merge_deposits_keys [OF assms(7) pa(10)] by simp
qed

lemma static_merge_parts:
  assumes "static_merge a b n = Some (t, m)"
  obtains as rs fs m8 m32 s where "merge_assumptions (assumptions a) (assumptions b) = Some as"
    "merge_deposits bv_merge (registers a) (registers b) = Some rs" "merge_deposits bv_merge (flags a) (flags b) = Some fs"
    "merge_deposits arr_merge (mem8 a) (mem8 b) = Some m8" "merge_deposits arr_merge (mem32 a) (mem32 b) = Some m32"
    "undef_defered (defered a @ defered b) (merge_base a b as rs fs m8 m32) n = Some (s, m)"
    "t = (let s = (if sat a = Some False \<and> sat b = Some False then s\<lparr>sat := Some False\<rparr> else s);
              s = (if minimize a = minimize b then s\<lparr>minimize := minimize a\<rparr> else s)
          in s\<lparr>min_value := min (min_value a) (min_value b), max_value := max (max_value a) (max_value b)\<rparr>)"
  using assms unfolding static_merge_def merge_base_def [symmetric] bind_eq_Some_conv Let_def
  by auto

lemma static_merge_ok:
  assumes "static_merge a b n = Some (t, m)" "exec_ok a" "exec_ok b"
  shows "exec_ok t"
  using assms(1)
proof (cases rule: static_merge_parts)
  case (1 as rs fs m8 m32 s)
  have "exec_ok (merge_base a b as rs fs m8 m32)" using merge_base_ok [OF assms(2,3) 1(1-5)] .
  moreover have "\<forall>(c, u) \<in> set (defered a @ defered b). is_reg u" using exec_ok_parts(5) assms(2,3) by auto
  ultimately have "exec_ok s" using undef_defered_ok [of "defered a @ defered b" "merge_base a b as rs fs m8 m32" n] 1(6) by auto
  then show ?thesis unfolding 1(7) by (simp add: Let_def)
qed

subsection \<open>Reachable states\<close>

text \<open>
  The states of an analysis: it starts with \<open>make_exec\<close>, applies instructions, merges states
  where paths meet, and records what a solver answers.
\<close>

inductive reachable :: "exec \<Rightarrow> bool" where
  reach_init: "\<forall>u \<in> set us. update_ok u \<Longrightarrow> \<forall>(e, i) \<in> set as. lwt e \<Longrightarrow> reachable (make_exec c d us m lo hi as)"
| reach_apply: "reachable s \<Longrightarrow> exec_apply n i l b s k = Some (t, k') \<Longrightarrow> reachable t"
| reach_merge: "reachable a \<Longrightarrow> reachable b \<Longrightarrow> static_merge a b k = Some (t, k') \<Longrightarrow> reachable t"
| reach_sat: "reachable s \<Longrightarrow> reachable (record_result r s)"

lemma make_exec_ok: "\<forall>u \<in> set us. update_ok u \<Longrightarrow> \<forall>(e, i) \<in> set as. lwt e \<Longrightarrow> exec_ok (make_exec c d us m lo hi as)"
  unfolding make_exec_def by (rule store_all_ok) (auto simp: exec_ok_def)

lemma record_result_ok [simp]: "exec_ok (record_result r s) = exec_ok s"
  by (auto simp: record_result_def Let_def split: sat_result.split option.split)

lemma reachable_exec_ok: "reachable s \<Longrightarrow> exec_ok s"
proof (induction rule: reachable.induct)
  case (reach_init us as c d m lo hi)
  then show ?case by (rule make_exec_ok)
next
  case (reach_apply s n i l b k t k')
  then show ?case using exec_apply_ok by blast
next
  case (reach_merge a b k t k')
  then show ?case using static_merge_ok by blast
next
  case (reach_sat s r)
  then show ?case by simp
qed

text \<open>No exception from the deferred updates, neither when they fire nor when states are merged.\<close>

lemma reachable_defered:
  assumes "reachable s" "exec_ok s'"
  shows "\<exists>t. fire s = Some t" "\<exists>t m. undef_defered (defered s) s' n = Some (t, m)"
  using fire_total [OF reachable_exec_ok [OF assms(1)]]
    undef_defered_ok [OF exec_ok_parts(5) [OF reachable_exec_ok [OF assms(1)]] assms(2)] by blast+

end
