(* ===== verification/Simplifier.thy ===== *)
theory Simplifier
  imports Expr_Typed
begin

text \<open>
  The contract that the machine relies on when it builds expressions: each binary constructor of
  \<open>expr\<close> is a type-correct implementation of an operation on values, whatever rewriting it does.
  The locales state it once, for any width and for the 32-bit registers of the machine.
\<close>

subsection \<open>Values\<close>

lemma word_of_take_bit: "word_of_int (take_bit 32 x) = (word_of_int x :: u32)"
  by transfer simp

definition val32 :: "valuation \<Rightarrow> bvexpr \<Rightarrow> u32" where
  "val32 \<rho> e = word_of_int (bveval \<rho> e)"

definition bit1 :: "valuation \<Rightarrow> bvexpr \<Rightarrow> bool" where
  "bit1 \<rho> e \<longleftrightarrow> bveval \<rho> e = 1"

lemma ucast_ucast_u32: "ucast (ucast x :: u64) = x" for x :: u32
  by transfer simp

lemma well_range: "well w e \<Longrightarrow> take_bit w (bveval \<rho> e) = bveval \<rho> e"
  using bveval_take_bit [of e \<rho>] by (simp add: well_def)

lemma uint_val32: "well 32 e \<Longrightarrow> uint (val32 \<rho> e) = bveval \<rho> e"
  using well_range [of 32 e \<rho>] by (simp add: val32_def uint_word_of_int take_bit_eq_mod)

lemma val32_const [simp]: "val32 \<rho> (bvconstant 32 v) = ucast v"
  by (simp only: val32_def bveval_bvconstant word_of_take_bit ucast_eq)

lemma bveval_bit1: "well 1 e \<Longrightarrow> bveval \<rho> e = of_bool (bit1 \<rho> e)"
  using well_range [of 1 e \<rho>] by (auto simp: bit1_def take_bit_Suc)

subsection \<open>Operators\<close>

locale simplifier =
  fixes op :: "bvexpr \<Rightarrow> bvexpr \<Rightarrow> bvexpr"
    and node :: "bvexpr \<Rightarrow> bvexpr \<Rightarrow> bvexpr"
    and ok :: "valuation \<Rightarrow> bvexpr \<Rightarrow> bvexpr \<Rightarrow> bool"
    and f :: "nat \<Rightarrow> int \<Rightarrow> int \<Rightarrow> int"
  assumes sound: "bwt a \<Longrightarrow> bwt b \<Longrightarrow> width a = width b \<Longrightarrow> ok \<rho> a b \<Longrightarrow> implements \<rho> (op a b) (node a b)"
    and node_eval: "bveval \<rho> (node a b) = f (width a) (bveval \<rho> a) (bveval \<rho> b)"
begin

lemma eval: "well w a \<Longrightarrow> well w b \<Longrightarrow> ok \<rho> a b \<Longrightarrow> bveval \<rho> (op a b) = f w (bveval \<rho> a) (bveval \<rho> b)"
  using sound [of a b \<rho>] node_eval by (auto simp: well_def implements_def)

text \<open>The result depends on the values of the operands only, not on how they are written.\<close>

lemma representation_independent:
  assumes "well w a" "well w b" "well w a'" "well w b'" "ok \<rho> a b" "ok \<rho> a' b'"
    and "bveval \<rho> a = bveval \<rho> a'" "bveval \<rho> b = bveval \<rho> b'"
  shows "bveval \<rho> (op a b) = bveval \<rho> (op a' b')"
  using assms by (simp add: eval)

end

locale word_operator = simplifier +
  fixes g :: "u32 \<Rightarrow> u32 \<Rightarrow> u32"
  assumes word: "word_of_int (f 32 (uint x) (uint y)) = g x y"
begin

lemma val32_op: "well 32 a \<Longrightarrow> well 32 b \<Longrightarrow> ok \<rho> a b \<Longrightarrow> val32 \<rho> (op a b) = g (val32 \<rho> a) (val32 \<rho> b)"
  using eval [of 32 a b \<rho>] word [of "val32 \<rho> a" "val32 \<rho> b"] by (simp add: uint_val32) (simp add: val32_def)

end

interpretation sand: word_operator bvand "Bvbinary Bvanding" "\<lambda>\<rho>. masks_ok" "binop_eval Bvanding" "(AND)"
  by unfold_locales (auto simp: implements_bvand word_of_take_bit simp flip: uint_and)

interpretation sor: word_operator bvor "Bvbinary Bvoring" "\<lambda>\<rho> a b. True" "binop_eval Bvoring" "(OR)"
  by unfold_locales (auto simp: implements_bvor word_of_take_bit simp flip: uint_or)

interpretation sxor: word_operator bvxor "Bvbinary Bvxoring" "\<lambda>\<rho> a b. True" "binop_eval Bvxoring" "(XOR)"
  by unfold_locales (auto simp: implements_bvxor word_of_take_bit simp flip: uint_xor)

interpretation sadd: word_operator bvadd "Bvbinary Bvaddition"
  "\<lambda>\<rho> a b. simple_address a \<and> simple_address b" "binop_eval Bvaddition" "(+)"
  by unfold_locales (auto simp: implements_bvadd word_of_take_bit)

interpretation ssub: word_operator bvsub "Bvbinary Bvsubstraction"
  "\<lambda>\<rho> a b. simple_address a \<and> simple_address b \<and> same_object a b" "binop_eval Bvsubstraction" "(-)"
  by unfold_locales (auto simp: implements_bvsub word_of_take_bit)

interpretation smul: word_operator bvmul "Bvbinary Bvmultiplication" "\<lambda>\<rho> a b. True" "binop_eval Bvmultiplication" "(*)"
  by unfold_locales (auto simp: bvmul_def implements_def word_of_take_bit)

interpretation sshl: simplifier bvshl "Bvbinary Bvshiftl"
  "\<lambda>\<rho> a b. aligned \<rho> a \<and> (\<forall>v. cast_constant b = Some v \<longrightarrow> unat v < 64)" "binop_eval Bvshiftl"
  by unfold_locales (auto intro: implements_bvshl)

interpretation slshr: simplifier bvlshr "Bvbinary Bvlshiftr"
  "\<lambda>\<rho> a b. \<forall>v. cast_constant b = Some v \<longrightarrow> unat v < 64" "binop_eval Bvlshiftr"
  by unfold_locales (auto intro: implements_bvlshr)

interpretation scomp: simplifier bvcomp "Bvbit Bvcomparison" "\<lambda>\<rho> a b. nonnull \<rho> a \<and> nonnull \<rho> b" "bitop_eval Bvcomparison"
  by unfold_locales (auto intro: implements_bvcomp)

subsection \<open>Comparisons\<close>

locale comparison =
  fixes cmp :: "bvexpr \<Rightarrow> bvexpr \<Rightarrow> lexpr" and rel :: "int \<Rightarrow> int \<Rightarrow> bool" and rel32 :: "u32 \<Rightarrow> u32 \<Rightarrow> bool"
  assumes cmp_sound: "bwt a \<Longrightarrow> bwt b \<Longrightarrow> width a = width b \<Longrightarrow> lwt (cmp a b) \<and> leval \<rho> (cmp a b) = rel (bveval \<rho> a) (bveval \<rho> b)"
    and rel_word: "rel (uint x) (uint y) = rel32 x y"
begin

lemma leval_cmp: "well w a \<Longrightarrow> well w b \<Longrightarrow> leval \<rho> (cmp a b) = rel (bveval \<rho> a) (bveval \<rho> b)"
  using cmp_sound by (auto simp: well_def)

lemma leval_cmp32: "well 32 a \<Longrightarrow> well 32 b \<Longrightarrow> leval \<rho> (cmp a b) = rel32 (val32 \<rho> a) (val32 \<rho> b)"
  using leval_cmp [of 32 a b \<rho>] rel_word [of "val32 \<rho> a" "val32 \<rho> b"] by (simp add: uint_val32)

end

interpretation cult: comparison bvult "(<)" "(<)"
  by unfold_locales (auto simp: bvult_sound word_less_def)

interpretation cule: comparison bvule "(\<le>)" "(\<le>)"
  by unfold_locales (auto simp: bvule_sound word_le_def)

interpretation cugt: comparison bvugt "(>)" "(>)"
  by unfold_locales (auto simp: bvugt_sound word_less_def)

interpretation cuge: comparison bvuge "(\<ge>)" "(\<ge>)"
  by unfold_locales (auto simp: bvuge_sound word_le_def)

end
