(* ===== verification/Machine.thy ===== *)
theory Machine
  imports Exec_Typed Simplifier
begin

text \<open>
  What the symbolic instructions mean for a machine with concrete 32-bit registers and condition
  codes, and the proof that the instructions of the ALU and the conditions of the branches
  refine it.
\<close>

subsection \<open>A concrete machine\<close>

record cpu =
  cpu_reg :: "string \<Rightarrow> u32"
  cpu_flag :: "string \<Rightarrow> bool"

definition set_reg :: "string \<Rightarrow> u32 \<Rightarrow> cpu \<Rightarrow> cpu" where
  "set_reg r v c = c\<lparr>cpu_reg := (cpu_reg c)(r := v)\<rparr>"

definition set_flag :: "string \<Rightarrow> bool \<Rightarrow> cpu \<Rightarrow> cpu" where
  "set_flag f v c = c\<lparr>cpu_flag := (cpu_flag c)(f := v)\<rparr>"

text \<open>The effect of an update, under a valuation.  Memory is not part of this machine.\<close>

fun denote :: "valuation \<Rightarrow> update \<Rightarrow> cpu \<Rightarrow> cpu" where
  "denote \<rho> (Reg d e) c = set_reg d (val32 \<rho> e) c"
| "denote \<rho> (Flag d e) c = set_flag d (bit1 \<rho> e) c"
| "denote \<rho> _ c = c"

definition denote_all :: "valuation \<Rightarrow> update list \<Rightarrow> cpu \<Rightarrow> cpu" where
  "denote_all \<rho> us c = fold (denote \<rho>) us c"

lemma denote_all_simps [simp]:
  "denote_all \<rho> [] c = c" "denote_all \<rho> (u # us) c = denote_all \<rho> us (denote \<rho> u c)"
  "denote_all \<rho> (us @ vs) c = denote_all \<rho> vs (denote_all \<rho> us c)"
  by (simp_all add: denote_all_def)

text \<open>The abstraction relation: all that the symbolic state knows holds in the machine.\<close>

definition represents :: "valuation \<Rightarrow> exec \<Rightarrow> cpu \<Rightarrow> bool" where
  "represents \<rho> s c \<longleftrightarrow> (\<forall>r e. get_reg s r = Some e \<longrightarrow> val32 \<rho> e = cpu_reg c r)
     \<and> (\<forall>f e. get_flag s f = Some e \<longrightarrow> bit1 \<rho> e = cpu_flag c f)"

lemma represents_store: "represents \<rho> s c \<Longrightarrow> represents \<rho> (update_store u s) (denote \<rho> u c)"
  by (cases u) (auto simp: represents_def get_reg_update get_flag_update set_reg_def set_flag_def
      simp del: update_store.simps split: if_split_asm)

lemma represents_store_all: "represents \<rho> s c \<Longrightarrow> represents \<rho> (store_all us s) (denote_all \<rho> us c)"
  by (induction us arbitrary: s c) (auto simp: represents_store)

subsection \<open>The arithmetic and logic unit\<close>

text \<open>
  The documented results and flags.  The operators with carry, which also read the carry code, are not
  part of this machine.
\<close>

fun alu_word :: "alu_op \<Rightarrow> u32 \<Rightarrow> u32 \<Rightarrow> u32" where
  "alu_word Plus A B = A + B"
| "alu_word Plus16 A B = A + (B AND 0xffff)"
| "alu_word Plus8 A B = A + (B AND 0xff)"
| "alu_word Minus A B = A - B"
| "alu_word Neg_minus A B = B - A"
| "alu_word Op_B A B = B"
| "alu_word InvB A B = NOT B"
| "alu_word Op_and A B = A AND B"
| "alu_word Inv_and A B = NOT A AND B"
| "alu_word And_inv A B = A AND NOT B"
| "alu_word Op_or A B = A OR B"
| "alu_word Op_xor A B = A XOR B"

text \<open>The carry of a subtraction is set if it does not borrow.\<close>

fun alu_carry :: "alu_op \<Rightarrow> u32 \<Rightarrow> u32 \<Rightarrow> bool" where
  "alu_carry Plus A B = (2 ^ 32 \<le> uint A + uint B)"
| "alu_carry Plus16 A B = (2 ^ 32 \<le> uint A + uint (B AND 0xffff))"
| "alu_carry Plus8 A B = (2 ^ 32 \<le> uint A + uint (B AND 0xff))"
| "alu_carry Minus A B = (B \<le> A)"
| "alu_carry Neg_minus A B = (A \<le> B)"
| "alu_carry _ A B = False"

definition overflows :: "int \<Rightarrow> bool" where
  "overflows x \<longleftrightarrow> x < - (2 ^ 31) \<or> 2 ^ 31 \<le> x"

fun alu_overflow :: "alu_op \<Rightarrow> u32 \<Rightarrow> u32 \<Rightarrow> bool" where
  "alu_overflow Plus A B = overflows (sint A + sint B)"
| "alu_overflow Plus16 A B = overflows (sint A + sint (B AND 0xffff))"
| "alu_overflow Plus8 A B = overflows (sint A + sint (B AND 0xff))"
| "alu_overflow Minus A B = overflows (sint A - sint B)"
| "alu_overflow Neg_minus A B = overflows (sint B - sint A)"
| "alu_overflow _ A B = False"

text \<open>
  Where the expressions that the operators build are exact.  An operand is free of pointers or a
  pointer that the constructors handle; \<open>plus8\<close> and the operators with carry are not covered.
\<close>

fun alu_exact :: "alu_op \<Rightarrow> bvexpr \<Rightarrow> bvexpr \<Rightarrow> bool" where
  "alu_exact Plus A B = (simple_address A \<and> simple_address B)"
| "alu_exact Plus16 A B = (simple_address A \<and> simple_address (bvand B (bvconstant 32 0xffff))
     \<and> masks_ok B (bvconstant 32 0xffff))"
| "alu_exact Minus A B = (simple_address A \<and> simple_address B \<and> same_object A B)"
| "alu_exact Neg_minus A B = (simple_address B \<and> simple_address A \<and> same_object B A)"
| "alu_exact Op_and A B = masks_ok A B"
| "alu_exact Inv_and A B = masks_ok (bvnot A) B"
| "alu_exact And_inv A B = masks_ok A (bvnot B)"
| "alu_exact Op_B A B = True"
| "alu_exact InvB A B = True"
| "alu_exact Op_or A B = True"
| "alu_exact Op_xor A B = True"
| "alu_exact Plus8 A B = False"
| "alu_exact Plus_carry A B = False"
| "alu_exact Minus_carry A B = False"

subsection \<open>Bits of expressions\<close>

lemma val32_not: "well 32 e \<Longrightarrow> val32 \<rho> (bvnot e) = NOT (val32 \<rho> e)"
  using implements_bvnot [of e \<rho>]
  by (simp add: val32_def implements_def well_def word_of_take_bit) (transfer, simp)

lemma bit_val32: "well 32 e \<Longrightarrow> i < 32 \<Longrightarrow> bit (val32 \<rho> e) i = bit (bveval \<rho> e) i"
  using uint_val32 [of e \<rho>] bit_uint_iff [of "val32 \<rho> e" i] by simp

lemma bveval_top: "well 32 e \<Longrightarrow> bveval \<rho> (bvextract 31 31 e) = of_bool (bit (val32 \<rho> e) 31)"
  using implements_bvextract [of e 31 31 \<rho>] bit_val32 [of e 31 \<rho>]
  by (simp add: implements_def well_def take_bit_Suc bit_iff_odd_drop_bit mod_2_eq_odd)

lemma bit1_top: "well 32 e \<Longrightarrow> bit1 \<rho> (bvextract 31 31 e) = bit (val32 \<rho> e) 31"
  by (simp add: bit1_def bveval_top)

text \<open>Signed overflow, read off the sign bits.\<close>

lemma bit31_sint: "bit x 31 \<longleftrightarrow> sint x < 0" for x :: u32
  using bit_last_iff [of x] by simp

lemma sint_wrap: "sint (word_of_int k :: u32) = (k + 2 ^ 31) mod 2 ^ 32 - 2 ^ 31"
  by (simp add: signed_take_bit_eq_take_bit_shift take_bit_eq_mod sint_sbintrunc')

lemma sint_u32: "- (2 ^ 31) \<le> sint x" "sint x < 2 ^ 31" for x :: u32
  using sint_ge [of x] sint_lt [of x] by simp_all

lemma wrap_cases:
  fixes k :: int
  assumes "- (2 ^ 32) \<le> k" "k < 2 ^ 32"
  shows "(k + 2 ^ 31) mod 2 ^ 32 - 2 ^ 31 = (if k < - (2 ^ 31) then k + 2 ^ 32 else if k < 2 ^ 31 then k else k - 2 ^ 32)"
proof -
  consider "k < - (2 ^ 31)" | "- (2 ^ 31) \<le> k" "k < 2 ^ 31" | "2 ^ 31 \<le> k" by linarith
  then show ?thesis
  proof cases
    case 1
    have "(k + 2 ^ 31) mod 2 ^ 32 = (k + 2 ^ 31 + 2 ^ 32) mod 2 ^ 32" by (rule mod_add_self2 [symmetric])
    also have "\<dots> = k + 2 ^ 31 + 2 ^ 32" using 1 assms by (intro mod_pos_pos_trivial) auto
    finally show ?thesis using 1 by simp
  next
    case 2
    then show ?thesis by (simp add: mod_pos_pos_trivial)
  next
    case 3
    have "(k + 2 ^ 31) mod 2 ^ 32 = (k + 2 ^ 31 - 2 ^ 32) mod 2 ^ 32" by (rule minus_mod_self2 [symmetric])
    also have "\<dots> = k + 2 ^ 31 - 2 ^ 32" using 3 assms by (intro mod_pos_pos_trivial) auto
    finally show ?thesis using 3 by simp
  qed
qed

lemma sint_sum:
  fixes A B :: u32
  shows "sint (A + B) = (let k = sint A + sint B in if k < - (2 ^ 31) then k + 2 ^ 32 else if k < 2 ^ 31 then k else k - 2 ^ 32)"
    "sint (A - B) = (let k = sint A - sint B in if k < - (2 ^ 31) then k + 2 ^ 32 else if k < 2 ^ 31 then k else k - 2 ^ 32)"
proof -
  have w: "A + B = word_of_int (sint A + sint B)" "A - B = word_of_int (sint A - sint B)" by simp_all
  have "- (2 ^ 32) \<le> sint A + sint B" "sint A + sint B < 2 ^ 32" "- (2 ^ 32) \<le> sint A - sint B" "sint A - sint B < 2 ^ 32"
    using sint_u32 [of A] sint_u32 [of B] by auto
  then show "sint (A + B) = (let k = sint A + sint B in if k < - (2 ^ 31) then k + 2 ^ 32 else if k < 2 ^ 31 then k else k - 2 ^ 32)"
    "sint (A - B) = (let k = sint A - sint B in if k < - (2 ^ 31) then k + 2 ^ 32 else if k < 2 ^ 31 then k else k - 2 ^ 32)"
    unfolding w sint_wrap Let_def by (simp_all only: wrap_cases)
qed

lemma overflow_minus: "overflows (sint A - sint B) \<longleftrightarrow> bit A 31 \<noteq> bit B 31 \<and> bit (A - B) 31 = bit B 31" for A B :: u32
  using sint_u32 [of A] sint_u32 [of B] unfolding bit31_sint overflows_def sint_sum Let_def by auto

lemma overflow_plus: "overflows (sint A + sint B) \<longleftrightarrow> bit A 31 = bit B 31 \<and> bit (A + B) 31 \<noteq> bit A 31" for A B :: u32
  using sint_u32 [of A] sint_u32 [of B] unfolding bit31_sint overflows_def sint_sum Let_def by auto

lemma less_by_flags: "(sint A < sint B) \<longleftrightarrow> (bit (A - B) 31 \<noteq> overflows (sint A - sint B))" for A B :: u32
  using sint_u32 [of A] sint_u32 [of B] unfolding bit31_sint overflows_def sint_sum Let_def by auto

subsection \<open>Results of the ALU\<close>

lemma bit1_cases:
  assumes "well 1 e"
  obtains (zero) "bveval \<rho> e = 0" "\<not> bit1 \<rho> e" | (one) "bveval \<rho> e = 1" "bit1 \<rho> e"
  using bveval_bit1 [OF assms, of \<rho>] by (cases "bit1 \<rho> e") auto

lemma bit1_xor:
  assumes "well 1 a" "well 1 b"
  shows "bit1 \<rho> (bvxor a b) \<longleftrightarrow> bit1 \<rho> a \<noteq> bit1 \<rho> b"
  unfolding bit1_def [of \<rho> "bvxor a b"] sxor.eval [OF assms TrueI]
  by (rule bit1_cases [OF assms(1), of \<rho>]; rule bit1_cases [OF assms(2), of \<rho>]; simp)

lemma bit1_and:
  assumes "well 1 a" "well 1 b"
  shows "bit1 \<rho> (bvand a b) \<longleftrightarrow> bit1 \<rho> a \<and> bit1 \<rho> b"
proof -
  have "masks_ok a b" using assms by (intro masks_ok_bit) (simp_all add: well_def)
  then show ?thesis unfolding bit1_def [of \<rho> "bvand a b"] sand.eval [OF assms \<open>masks_ok a b\<close>]
    by (rule_tac bit1_cases [OF assms(1), of \<rho>]; rule_tac bit1_cases [OF assms(2), of \<rho>]; simp)
qed

lemma bit1_not:
  assumes "well 1 a"
  shows "bit1 \<rho> (bvnot a) \<longleftrightarrow> \<not> bit1 \<rho> a"
proof -
  have "bveval \<rho> (bvnot a) = take_bit 1 (NOT (bveval \<rho> a))"
    using implements_bvnot [of a \<rho>] assms by (simp add: implements_def well_def)
  then show ?thesis unfolding bit1_def [of \<rho> "bvnot a"]
    by (rule_tac bit1_cases [OF assms, of \<rho>]; simp)
qed

lemma bit1_zero [simp]: "\<not> bit1 \<rho> (bvconstant (Suc 0) 0)"
  by (simp add: bit1_def)

lemma bit1_carry:
  assumes "well 32 A" "well 32 B"
  shows "bit1 \<rho> (bvadd_carry A B) \<longleftrightarrow> 2 ^ 32 \<le> uint (val32 \<rho> A) + uint (val32 \<rho> B)"
    "bit1 \<rho> (bvsub_carry A B) \<longleftrightarrow> val32 \<rho> B \<le> val32 \<rho> A"
  using assms by (simp_all add: bit1_def bvadd_carry_def bvsub_carry_def uint_val32 word_le_def well_width)

lemma bit1_minus_overflow:
  assumes "well 32 A" "well 32 B" "well 32 d"
  shows "bit1 \<rho> (minus_overflow A B d) \<longleftrightarrow>
     bit (val32 \<rho> A) 31 \<noteq> bit (val32 \<rho> B) 31 \<and> bit (val32 \<rho> d) 31 = bit (val32 \<rho> B) 31"
  using assms
  unfolding minus_overflow_def Let_def by (simp add: bit1_and bit1_xor bit1_not bit1_top well_xor well_not well_top_bit del: One_nat_def)
    auto

definition computes :: "valuation \<Rightarrow> result \<Rightarrow> u32 \<Rightarrow> bool \<Rightarrow> bool" where
  "computes \<rho> r w c \<longleftrightarrow> val32 \<rho> (res_dst r) = w \<and> bit1 \<rho> (res_c r) = c"

lemma alu_plus_computes:
  assumes "well 32 A" "well 32 B" "simple_address A" "simple_address B"
  shows "computes \<rho> (alu_plus A B) (val32 \<rho> A + val32 \<rho> B) (2 ^ 32 \<le> uint (val32 \<rho> A) + uint (val32 \<rho> B))"
  using assms by (simp add: computes_def alu_plus_def mk_result_def Let_def sadd.val32_op bit1_carry)

lemma alu_minus_computes:
  assumes "well 32 A" "well 32 B" "simple_address A" "simple_address B" "same_object A B"
  shows "computes \<rho> (alu_minus A B) (val32 \<rho> A - val32 \<rho> B) (val32 \<rho> B \<le> val32 \<rho> A)"
    "bit1 \<rho> (res_v (alu_minus A B)) = overflows (sint (val32 \<rho> A) - sint (val32 \<rho> B))"
  using assms
  by (simp_all add: computes_def alu_minus_def mk_result_def Let_def ssub.val32_op bit1_carry
      bit1_minus_overflow well_sub overflow_minus)

lemma logic_result_computes: "val32 \<rho> e = w \<Longrightarrow> computes \<rho> (logic_result e) w False" "\<not> bit1 \<rho> (res_v (logic_result e))"
  by (simp_all add: computes_def logic_result_def mk_result_def)

lemma mask16: "val32 \<rho> (bvand B (bvconstant 32 0xffff)) = val32 \<rho> B AND 0xffff"
  if "well 32 B" "masks_ok B (bvconstant 32 0xffff)"
  using sand.val32_op [OF that(1) well_const that(2)] by simp

lemma alu_calc_computes:
  assumes "alu_calc s f A B n = Some (r, m)" "well 32 A" "well 32 B" "alu_exact f A B"
  shows "computes \<rho> r (alu_word f (val32 \<rho> A) (val32 \<rho> B)) (alu_carry f (val32 \<rho> A) (val32 \<rho> B))"
proof -
  have m: "well 32 (bvand B (bvconstant 32 0xffff))" using assms(3) by (intro well_and well_const) auto
  show ?thesis using assms
  proof (cases f)
    case Plus16
    then show ?thesis using assms alu_plus_computes [OF assms(2) m] by (simp add: mask16)
  next
    case Plus
    then show ?thesis using assms alu_plus_computes [OF assms(2,3)] by simp
  qed (auto simp: alu_minus_computes sand.val32_op sor.val32_op sxor.val32_op val32_not well_not
      intro!: logic_result_computes)
qed

text \<open>The overflow flag of everything but the additions.\<close>

lemma alu_calc_overflow:
  assumes "alu_calc s f A B n = Some (r, m)" "well 32 A" "well 32 B" "alu_exact f A B" "f \<noteq> Plus" "f \<noteq> Plus16"
  shows "bit1 \<rho> (res_v r) = alu_overflow f (val32 \<rho> A) (val32 \<rho> B)"
  using assms by (cases f) (auto simp: alu_minus_computes logic_result_computes)

text \<open>
  The overflow flag that the code computes for additions is the carry xor the sign of the sum.  This
  is the overflow of an addition whose operands have the same sign; for operands of different signs,
  which never overflow, the flag is always set.
\<close>

definition plus_v :: "u32 \<Rightarrow> u32 \<Rightarrow> bool" where
  "plus_v A B \<longleftrightarrow> overflows (sint A + sint B) \<or> bit A 31 \<noteq> bit B 31"

text \<open>Where the flag of the code is the overflow.\<close>

definition same_sign :: "valuation \<Rightarrow> bvexpr \<Rightarrow> bvexpr \<Rightarrow> bool" where
  "same_sign \<rho> A B \<longleftrightarrow> pointers A = 0 \<and> pointers B = 0 \<and> bit (val32 \<rho> A) 31 = bit (val32 \<rho> B) 31"

fun v_exact :: "valuation \<Rightarrow> alu_op \<Rightarrow> bvexpr \<Rightarrow> bvexpr \<Rightarrow> bool" where
  "v_exact \<rho> Plus A B = same_sign \<rho> A B"
| "v_exact \<rho> Plus16 A B = same_sign \<rho> A (bvand B (bvconstant 32 0xffff))"
| "v_exact \<rho> f A B = True"

lemma bit31_uint: "bit x 31 \<longleftrightarrow> 2 ^ 31 \<le> uint x" for x :: u32
proof -
  have "sint x = (if uint x < 2 ^ 31 then uint x else uint x - 2 ^ 32)"
    using wrap_cases [of "uint x"] sint_wrap [of "uint x"] uint_lt2p [of x] by (simp add: not_less)
  then show ?thesis using uint_lt2p [of x] by (auto simp: bit31_sint)
qed

lemma carry_sign: "((2 ^ 32 \<le> uint A + uint B) \<noteq> bit (A + B) 31) \<longleftrightarrow> plus_v A B" for A B :: u32
proof -
  have s: "uint (A + B) = (if uint A + uint B < 2 ^ 32 then uint A + uint B else uint A + uint B - 2 ^ 32)"
    by (simp add: uint_plus_if')
  have arith: "((2 ^ 32 \<le> a + b) \<noteq> (2 ^ 31 \<le> c)) \<longleftrightarrow>
      (2 ^ 31 \<le> a) = (2 ^ 31 \<le> b) \<and> (2 ^ 31 \<le> c) \<noteq> (2 ^ 31 \<le> a) \<or> (2 ^ 31 \<le> a) \<noteq> (2 ^ 31 \<le> b)"
    if "0 \<le> a" "0 \<le> b" "a < 2 ^ 32" "b < 2 ^ 32" "c = (if a + b < 2 ^ 32 then a + b else a + b - 2 ^ 32)" for a b c :: int
    using that by (simp split: if_split_asm) linarith+
  show ?thesis unfolding plus_v_def overflow_plus bit31_uint
    using uint_lt2p [of A] uint_lt2p [of B] by (intro arith s) auto
qed

lemma extended_sum:
  assumes "well w a" "well w b" "pointers a = 0" "pointers b = 0" "0 < w" "w \<le> 64"
  shows "bveval \<rho> (bvextract w w (bvadd (bvextend 1 a) (bvextend 1 b))) = of_bool (2 ^ w \<le> bveval \<rho> a + bveval \<rho> b)"
proof -
  let ?x = "bvadd (bvextend 1 a) (bvextend 1 b)" and ?k = "bveval \<rho> a + bveval \<rho> b"
  have e: "well (Suc w) (bvextend 1 a)" "well (Suc w) (bvextend 1 b)" using assms by (auto intro: well_extend)
  have p: "pointers (bvextend 1 a) = 0" "pointers (bvextend 1 b) = 0"
    using pointers_bvconcat [of "bvconstant 1 0" a] pointers_bvconcat [of "bvconstant 1 0" b] assms
    by (auto simp: bvextend_def well_def)
  have r: "0 \<le> ?k" "?k < 2 ^ Suc w"
    using take_bit_bounds [OF well_range [OF assms(1), of \<rho>]] take_bit_bounds [OF well_range [OF assms(2), of \<rho>]] by auto
  have "bveval \<rho> ?x = take_bit (Suc w) ?k"
    using sadd.eval [OF e, of \<rho>] p assms(1,2) bveval_extend [of 1 a \<rho>] bveval_extend [of 1 b \<rho>] by (simp add: well_def)
  then have x: "bveval \<rho> ?x = ?k" using r in_range_take_bit by simp
  have "bveval \<rho> (bvextract w w ?x) = take_bit 1 (drop_bit w (bveval \<rho> ?x))"
    using implements_bvextract [of ?x w w \<rho>] well_add [OF e] by (simp add: implements_def well_def)
  also have "\<dots> = of_bool (2 ^ w \<le> ?k)"
  proof -
    have "?k div 2 ^ w = of_bool (2 ^ w \<le> ?k)"
      using r by (cases "2 ^ w \<le> ?k") (auto simp: div_pos_pos_trivial intro: int_div_pos_eq [where r = "?k - 2 ^ w"])
    then show ?thesis unfolding x by (simp add: drop_bit_eq_div take_bit_eq_mod)
  qed
  finally show ?thesis .
qed

lemma bit1_extended_carry:
  assumes "well 32 A" "well 32 B" "pointers A = 0" "pointers B = 0"
  shows "bit1 \<rho> (bvextract 32 32 (bvadd (bvextend 1 A) (bvextend 1 B))) \<longleftrightarrow> 2 ^ 32 \<le> uint (val32 \<rho> A) + uint (val32 \<rho> B)"
  using extended_sum [OF assms, of \<rho>] assms(1,2) by (simp add: bit1_def uint_val32)

lemma alu_plus_v:
  assumes "well 32 A" "well 32 B" "pointers A = 0" "pointers B = 0"
  shows "bit1 \<rho> (res_v (alu_plus A B)) = plus_v (val32 \<rho> A) (val32 \<rho> B)"
proof -
  have w: "well 32 (bvadd A B)" "well 33 (bvadd (bvextend 1 A) (bvextend 1 B))"
    using assms by (auto intro!: well_add well_extend)
  have "well 1 (bvextract 32 32 (bvadd (bvextend 1 A) (bvextend 1 B)))" using w(2) by (rule well_extract) auto
  with bit1_xor [OF this well_top_bit [OF w(1)], of \<rho>] show ?thesis
    using sadd.val32_op [OF assms(1,2), of \<rho>] assms carry_sign [of "val32 \<rho> A" "val32 \<rho> B"]
    by (simp add: alu_plus_def mk_result_def Let_def bit1_extended_carry bit1_top [OF w(1)] del: One_nat_def)
qed

lemma alu_calc_v:
  assumes "alu_calc s f A B n = Some (r, m)" "well 32 A" "well 32 B" "alu_exact f A B" "v_exact \<rho> f A B"
  shows "bit1 \<rho> (res_v r) = alu_overflow f (val32 \<rho> A) (val32 \<rho> B)"
proof -
  have m: "well 32 (bvand B (bvconstant 32 0xffff))" using assms(3) by (intro well_and well_const) auto
  show ?thesis
  proof (cases "f = Plus \<or> f = Plus16")
    case True
    then show ?thesis using assms alu_plus_v [OF assms(2,3)] alu_plus_v [OF assms(2) m]
      by (auto simp: mask16 same_sign_def plus_v_def)
  next
    case False
    then show ?thesis using alu_calc_overflow [OF assms(1-4)] by simp
  qed
qed

end
