(* ===== verification/Machine_Alu.thy ===== *)
theory Machine_Alu
  imports Machine
begin

text \<open>
  Whole instructions: an ALU instruction with its operands, shift, destination and condition
  codes refines a step of the concrete machine, and the branches test what they are named for.
\<close>

subsection \<open>Operands and shifts\<close>

text \<open>The operands whose value the symbolic state knows.\<close>

fun src_expr :: "exec \<Rightarrow> src \<Rightarrow> bvexpr option" where
  "src_expr s (Src_gpr g) = get_reg s (gpr_location g)"
| "src_expr s (Src_xfer_in x) = get_reg s (xfer_in_location x)"
| "src_expr s (Src_constant v) = Some (bvconstant 32 (ucast v))"
| "src_expr s _ = None"

fun src_word :: "src \<Rightarrow> cpu \<Rightarrow> u32" where
  "src_word (Src_gpr g) c = cpu_reg c (gpr_location g)"
| "src_word (Src_xfer_in x) c = cpu_reg c (xfer_in_location x)"
| "src_word (Src_constant v) c = v"
| "src_word _ c = 0"

lemma read_reg_known: "get_reg s r = Some e \<Longrightarrow> read_reg s r n = Some (e, n)"
  by (simp add: get_reg_def read_reg_def)

lemma read_flag_known: "get_flag s r = Some e \<Longrightarrow> read_flag s r n = Some (e, n)"
  by (simp add: get_flag_def read_flag_def)

lemma read_src_expr: "src_expr s a = Some e \<Longrightarrow> read_src s a n = Some (e, n)"
  by (cases a) (auto simp: read_reg_known)

lemma src_expr_word: "src_expr s a = Some e \<Longrightarrow> represents \<rho> s c \<Longrightarrow> val32 \<rho> e = src_word a c"
  by (cases a) (auto simp: represents_def ucast_ucast_u32)

text \<open>The shifts by a constant.\<close>

fun shift_word :: "shift_cntl option \<Rightarrow> u32 \<Rightarrow> u32" where
  "shift_word None v = v"
| "shift_word (Some (Leftim k)) v = push_bit (unat k) v"
| "shift_word (Some (Aright (Rightim k))) v = drop_bit (unat k) v"
| "shift_word (Some (Rotleftim k)) v = word_rotl (unat k) v"
| "shift_word (Some (Rotrightim k)) v = word_rotr (unat k) v"
| "shift_word (Some _) v = v"

fun shift_exact :: "valuation \<Rightarrow> shift_cntl option \<Rightarrow> bvexpr \<Rightarrow> bool" where
  "shift_exact \<rho> None e = True"
| "shift_exact \<rho> (Some (Leftim k)) e = (aligned \<rho> e \<and> unat k < 64)"
| "shift_exact \<rho> (Some (Aright (Rightim k))) e = (unat k < 64)"
| "shift_exact \<rho> (Some (Rotleftim k)) e = True"
| "shift_exact \<rho> (Some (Rotrightim k)) e = True"
| "shift_exact \<rho> (Some _) e = False"

lemma word_of_push: "word_of_int (push_bit n (uint x)) = (push_bit n x :: u32)"
  by transfer (simp add: push_bit_take_bit)

lemma word_of_drop: "word_of_int (drop_bit n (uint x)) = (drop_bit n x :: u32)"
  by transfer simp

lemma shift_constant:
  assumes "unat k < 64"
  shows "cast_constant (bvconstant 32 (ucast (k :: 8 word))) = Some v \<Longrightarrow> unat v < 64"
    "nat (bveval \<rho> (bvconstant 32 (ucast k))) = unat k"
proof -
  have k: "take_bit 32 (ucast k :: u64) = ucast k"
    by (rule bit_word_eqI) (auto simp: bit_simps dest: bit_imp_le_length)
  have c: "bvconstant 32 (ucast k) = Bitvector 32 (ucast k)"
    using k by (simp add: bvconstant_def lowmask_mask flip: take_bit_eq_mask)
  show "cast_constant (bvconstant 32 (ucast k)) = Some v \<Longrightarrow> unat v < 64"
    using assms by (auto simp: c unsigned_ucast_eq take_bit_nat_eq_self)
  have "take_bit 32 (uint k) = uint k" using uint_lt2p [of k] by (intro in_range_take_bit) auto
  then show "nat (bveval \<rho> (bvconstant 32 (ucast k))) = unat k"
    by (simp add: bveval_bvconstant uint_up_ucast is_up)
qed

lemma rot_word:
  fixes x :: u32
  shows "word_of_int (rot_eval Bvrotationl 32 i (uint x)) = word_rotl i x"
    and "word_of_int (rot_eval Bvrotationr 32 i (uint x)) = word_rotr i x"
proof -
  define j where "j = i mod 32"
  have j: "j < 32" by (simp add: j_def)
  have high: "\<not> bit x n" if "32 \<le> n" for n using that bit_imp_le_length [of x n] by auto
  have l: "(n + (32 - j)) mod 32 = (if j \<le> n then n - j else n + 32 - j)" if "n < 32" for n
    using j that by (auto simp: mod_if)
  have "(n + i) mod 32 = (n + j) mod 32" for n by (simp add: j_def mod_simps)
  then have r: "(n + i) mod 32 = (if n + j < 32 then n + j else n + j - 32)" if "n < 32" for n
    using j that by (auto simp: mod_if)
  have e: "32 - j + n = n + 32 - j" "j \<le> n \<Longrightarrow> \<not> bit x (32 + n - j)"
    "j \<le> n \<Longrightarrow> \<not> bit x (n + 32 - j)" for n using j high by auto
  show "word_of_int (rot_eval Bvrotationl 32 i (uint x)) = word_rotl i x"
    by (rule bit_word_eqI) (auto simp: bit_simps l e simp flip: j_def intro: high)
  have e': "j + n = n + j" "\<not> n + j < 32 \<Longrightarrow> \<not> bit x (n + j)"
    "32 - j \<le> n \<longleftrightarrow> \<not> n + j < 32" "n - (32 - j) = n + j - 32" for n using j high by auto
  show "word_of_int (rot_eval Bvrotationr 32 i (uint x)) = word_rotr i x"
    by (rule bit_word_eqI) (auto simp: bit_simps r e' simp flip: j_def)
qed

lemma shift_opt_word:
  assumes "shift_opt s sc e n = Some (r, m)" "well 32 e" "shift_exact \<rho> sc e"
  shows "val32 \<rho> r = shift_word sc (val32 \<rho> e)"
proof (cases sc)
  case None
  then show ?thesis using assms by (simp add: shift_opt_def)
next
  case (Some sh)
  have im: "well 32 (bvconstant 32 v)" for v by (intro well_const) auto
  note v = uint_val32 [OF assms(2), of \<rho>, symmetric] and w = well_width [OF assms(2)]
  show ?thesis
  proof (cases sh)
    case (Leftim k)
    then have k: "unat k < 64" "aligned \<rho> e" and r: "r = bvshl e (bvconstant 32 (ucast k))"
      using assms Some by (auto simp: shift_opt_def w)
    show ?thesis using sshl.eval [OF assms(2) im, of \<rho> "ucast k"] k shift_constant [OF k(1)] Some Leftim
      by (simp add: r val32_def [of \<rho> "bvshl _ _"] v word_of_take_bit word_of_push)
  next
    case (Aright a)
    then obtain k where a: "a = Rightim k" using assms(3) Some by (cases a) auto
    then have k: "unat k < 64" and r: "r = bvlshr e (bvconstant 32 (ucast k))"
      using assms Some Aright by (auto simp: shift_opt_def w)
    show ?thesis using slshr.eval [OF assms(2) im, of "ucast k" \<rho>] shift_constant [OF k(1)] Some Aright a
      by (simp add: r val32_def [of \<rho> "bvlshr _ _"] v word_of_take_bit word_of_drop)
  next
    case (Rotleftim k)
    then show ?thesis using assms(1) Some rot_word(1) [of "unat k" "val32 \<rho> e"]
      by (auto simp: shift_opt_def bvrotl_def val32_def [of \<rho> "Bvrotation _ _ _"] w v simp del: rot_eval.simps)
  next
    case (Rotrightim k)
    then show ?thesis using assms(1) Some rot_word(2) [of "unat k" "val32 \<rho> e"]
      by (auto simp: shift_opt_def bvrotr_def val32_def [of \<rho> "Bvrotation _ _ _"] w v simp del: rot_eval.simps)
  next
    case Leftindirect
    then show ?thesis using assms(3) Some by simp
  qed
qed

subsection \<open>ALU instructions\<close>

definition write_word :: "dst \<Rightarrow> bool \<Rightarrow> u32 \<Rightarrow> cpu \<Rightarrow> cpu" where
  "write_word d both w c = (case d of
     Dst_gpr g \<Rightarrow> let c = set_reg (gpr_location g) w c in if both then set_reg (gpr_location (gpr_flip g)) w c else c
   | Dst_xfer_out x \<Rightarrow> set_reg (xfer_out_location x) w c
   | _ \<Rightarrow> c)"

definition set_codes :: "u32 \<Rightarrow> bool \<Rightarrow> bool \<Rightarrow> cpu \<Rightarrow> cpu" where
  "set_codes w v k c = set_flag C_flag k (set_flag V_flag v (set_flag Z_flag (w = 0) (set_flag N_flag (sint w < 0) c)))"

text \<open>The step of an ALU instruction that sets the overflow code to \<open>v\<close>, and the documented step.\<close>

definition alu_step_v :: "bool \<Rightarrow> dst \<Rightarrow> bool \<Rightarrow> alu_op \<Rightarrow> src \<Rightarrow> src \<Rightarrow> shift_cntl option \<Rightarrow> cpu \<Rightarrow> cpu" where
  "alu_step_v v d both f a b sc c =
     (let A = src_word a c; B = shift_word sc (src_word b c); w = alu_word f A B;
          c = set_codes w v (alu_carry f A B) (write_word d both w c)
      in if writes_prev f then set_reg PREV_ALU w (set_reg PREV_A A c) else c)"

definition alu_step :: "dst \<Rightarrow> bool \<Rightarrow> alu_op \<Rightarrow> src \<Rightarrow> src \<Rightarrow> shift_cntl option \<Rightarrow> cpu \<Rightarrow> cpu" where
  "alu_step d both f a b sc c =
     alu_step_v (alu_overflow f (src_word a c) (shift_word sc (src_word b c))) d both f a b sc c"

lemma denote_lmindexed: "write_lmindexed s l e n = Some (u, m) \<Longrightarrow> denote \<rho> u c = c"
proof -
  assume "write_lmindexed s l e n = Some (u, m)"
  then obtain a k where "(case a of Lm_bad r x \<Rightarrow> Some (Invalidate_mem (Some x), k)
      | Lm_ok p x \<Rightarrow> do { (m, n) \<leftarrow> read_mem32 s p k; Some (Mem32 (declname p) (store m x e), n) }) = Some (u, m)"
    by (auto simp: write_lmindexed_def bind_eq_Some_conv [of "lm_address s l ''write'' n"])
  then show ?thesis by (cases a) (auto simp: bind_eq_Some_conv)
qed

lemma denote_dst:
  "write_dst s d e n = Some (u, m) \<Longrightarrow> denote_all \<rho> (wrboth d both e) (denote \<rho> u c) = write_word d both (val32 \<rho> e) c"
  by (cases d) (auto simp: wrboth_def write_word_def Let_def denote_lmindexed)

text \<open>The condition codes are computed from the result, provided no null pointer is compared.\<close>

definition codes_exact :: "valuation \<Rightarrow> bvexpr \<Rightarrow> bool" where
  "codes_exact \<rho> e \<longleftrightarrow> nonnull \<rho> e \<and> nonnull \<rho> (bvextract 31 31 e)"

lemma nonnull_const [simp]: "nonnull \<rho> (bvconstant w v)"
  by (simp add: bvconstant_def)

lemma bit1_N:
  assumes "well 32 e" "codes_exact \<rho> e"
  shows "bit1 \<rho> (bvcomp (bvextract 31 31 e) (bvconstant 1 1)) \<longleftrightarrow> sint (val32 \<rho> e) < 0"
proof -
  have "bveval \<rho> (bvcomp (bvextract 31 31 e) (bvconstant 1 1)) = of_bool (bveval \<rho> (bvextract 31 31 e) = bveval \<rho> (bvconstant 1 1))"
    using assms(2) by (subst scomp.eval [OF well_top_bit [OF assms(1)] well_const]) (auto simp: codes_exact_def)
  moreover have "bveval \<rho> (bvconstant 1 1) = 1" by (simp add: bveval_bvconstant del: One_nat_def)
  ultimately show ?thesis by (simp add: bit1_def bveval_top [OF assms(1)] bit31_sint)
qed

lemma bit1_Z:
  assumes "well 32 e" "codes_exact \<rho> e"
  shows "bit1 \<rho> (bvcomp e (bvconstant 32 0)) \<longleftrightarrow> val32 \<rho> e = 0"
proof -
  have "bveval \<rho> (bvcomp e (bvconstant 32 0)) = of_bool (bveval \<rho> e = bveval \<rho> (bvconstant 32 0))"
    using assms(2) by (subst scomp.eval [OF assms(1) well_const]) (auto simp: codes_exact_def)
  then show ?thesis by (simp add: bit1_def word_uint_eq_iff uint_val32 [OF assms(1)])
qed

lemma denote_codes:
  assumes "well 32 (res_dst r)" "codes_exact \<rho> (res_dst r)"
  shows "denote_all \<rho> (condition_codes r) c = set_codes (val32 \<rho> (res_dst r)) (bit1 \<rho> (res_v r)) (bit1 \<rho> (res_c r)) c"
  by (simp add: condition_codes_def set_codes_def bit1_N [OF assms] bit1_Z [OF assms] del: One_nat_def)

lemma alu_calc_no_updates: "alu_calc s f A B n = Some (r, m) \<Longrightarrow> alu_exact f A B \<Longrightarrow> res_u r = [] \<and> m = n"
  by (cases f) (auto simp: alu_plus_def alu_minus_def mk_result_def logic_result_def Let_def)

lemma alu_shf_step:
  assumes us: "perform (Instr i (Alu_shf d a f b sc both)) s n = Some (us, m)"
    and s: "exec_ok s" "represents \<rho> s c"
    and A: "src_expr s a = Some A" and B: "src_expr s b = Some B"
    and C: "shift_opt s sc B n = Some (C, n)" "shift_exact \<rho> sc B"
    and f: "alu_exact f A C"
    and r: "alu_calc s f A C n = Some (r, n)" "codes_exact \<rho> (res_dst r)"
  shows "represents \<rho> (store_all us s) (alu_step_v (bit1 \<rho> (res_v r)) d both f a b sc c)"
    and "v_exact \<rho> f A C \<Longrightarrow> bit1 \<rho> (res_v r) = alu_overflow f (src_word a c) (shift_word sc (src_word b c))"
proof -
  let ?a = "src_word a c" and ?b = "shift_word sc (src_word b c)"
  have w: "well 32 A" "well 32 B" using read_src_ok [OF read_src_expr [OF A] s(1)] read_src_ok [OF read_src_expr [OF B] s(1)] .
  then have wC: "well 32 C" using shift_opt_ok [OF C(1) s(1)] by simp
  have v: "val32 \<rho> A = ?a" "val32 \<rho> C = ?b"
    using src_expr_word [OF A s(2)] src_expr_word [OF B s(2)] shift_opt_word [OF C(1) w(2) C(2)] by simp_all
  have res: "val32 \<rho> (res_dst r) = alu_word f ?a ?b" "bit1 \<rho> (res_c r) = alu_carry f ?a ?b"
    using alu_calc_computes [OF r(1) w(1) wC f, of \<rho>] v by (simp_all add: computes_def)
  show "bit1 \<rho> (res_v r) = alu_overflow f ?a ?b" if "v_exact \<rho> f A C"
    using alu_calc_v [OF r(1) w(1) wC f that] v by simp
  define r' where "r' = (if writes_prev f then
      r\<lparr>res_u := res_u r @ [Reg PREV_A A, Reg PREV_ALU (res_dst r),
         Defered 1 (Reg PREV_A (undef 32)), Defered 1 (Reg PREV_ALU (undef 32))]\<rparr> else r)"
  have calc: "alu_like_calc s a f b sc n = Some (r', n)"
    using read_src_expr [OF A] read_src_expr [OF B] C(1) r(1) by (simp add: alu_like_calc_def r'_def)
  have same: "res_dst r' = res_dst r" "condition_codes r' = condition_codes r" by (simp_all add: r'_def condition_codes_def)
  obtain u where u: "write_dst s d (res_dst r) n = Some (u, m)"
    and us': "us = u # wrboth d both (res_dst r) @ condition_codes r @ res_u r'"
    using us calc by (auto simp: perform_def assign_perform_def bind_eq_Some_conv same)
  have ok: "well 32 (res_dst r)" using alu_calc_ok [OF r(1) s(1) w(1) wC] by (simp add: result_ok_def)
  have tail: "denote_all \<rho> (res_u r') x = (if writes_prev f then set_reg PREV_ALU (alu_word f ?a ?b) (set_reg PREV_A ?a x) else x)" for x
    using alu_calc_no_updates [OF r(1) f] res(1) v(1) by (simp add: r'_def)
  have "denote_all \<rho> us c = alu_step_v (bit1 \<rho> (res_v r)) d both f a b sc c"
    unfolding us' alu_step_v_def Let_def denote_all_simps denote_dst [OF u] denote_codes [OF ok r(2)] tail res ..
  then show "represents \<rho> (store_all us s) (alu_step_v (bit1 \<rho> (res_v r)) d both f a b sc c)"
    using represents_store_all [OF s(2), of us] by simp
qed

text \<open>Where the overflow code is right, this is the documented step.\<close>

lemma alu_shf_refines:
  assumes "perform (Instr i (Alu_shf d a f b sc both)) s n = Some (us, m)" "exec_ok s" "represents \<rho> s c"
    and "src_expr s a = Some A" "src_expr s b = Some B" "shift_opt s sc B n = Some (C, n)" "shift_exact \<rho> sc B"
    and "alu_exact f A C" "v_exact \<rho> f A C" "alu_calc s f A C n = Some (r, n)" "codes_exact \<rho> (res_dst r)"
  shows "represents \<rho> (store_all us s) (alu_step d both f a b sc c)"
  using alu_shf_step [OF assms(1-8,10,11)] assms(9) by (simp add: alu_step_def)

text \<open>\<open>alu\<close> is \<open>alu_shf\<close> without a shift.\<close>

lemma alu_is_alu_shf: "perform (Instr i (Alu d a f b both)) = perform (Instr i (Alu_shf d a f b None both))"
  by (simp add: perform_def fun_eq_iff)

end
