(* ===== verification/Effects.thy ===== *)
theory Effects
  imports Machine_Alu
begin

text \<open>
  The instructions with effects of their own: byte masks, multiplication steps, writes that are
  deferred, reads and writes of memory, and the names of assumptions.
\<close>

subsection \<open>Byte masks\<close>

text \<open>The digits of the mask, seen as a decimal number of four digits, select the bytes.\<close>

definition selects :: "u32 \<Rightarrow> nat \<Rightarrow> bool" where
  "selects m i \<longleftrightarrow> unat m div 10 ^ (i div 8) mod 10 \<noteq> 0"

lemma byte_bits:
  "bit (0xff :: u32) i \<longleftrightarrow> i < 8" "bit (0xff00 :: u32) i \<longleftrightarrow> 8 \<le> i \<and> i < 16"
  "bit (0xff0000 :: u32) i \<longleftrightarrow> 16 \<le> i \<and> i < 24" "bit (0xff000000 :: u32) i \<longleftrightarrow> 24 \<le> i \<and> i < 32"
proof -
  have m: "(0xff :: u32) = mask 8" "(0xff00 :: u32) = push_bit 8 (mask 8)" "(0xff0000 :: u32) = push_bit 16 (mask 8)"
    "(0xff000000 :: u32) = push_bit 24 (mask 8)" by (simp_all add: mask_eq_decr_exp push_bit_eq_mult)
  show "bit (0xff :: u32) i \<longleftrightarrow> i < 8" "bit (0xff00 :: u32) i \<longleftrightarrow> 8 \<le> i \<and> i < 16"
    "bit (0xff0000 :: u32) i \<longleftrightarrow> 16 \<le> i \<and> i < 24" "bit (0xff000000 :: u32) i \<longleftrightarrow> 24 \<le> i \<and> i < 32"
    unfolding m by (auto simp: bit_simps)
qed

lemma unat_digit: "(m div 10 ^ k mod 10 \<noteq> 0) \<longleftrightarrow> unat m div 10 ^ k mod 10 \<noteq> 0" if "k \<le> 3" for m :: u32
proof -
  have "unat (10 ^ k :: u32) = 10 ^ k" using that by (auto simp: le_Suc_eq numeral_3_eq_3)
  then show ?thesis by (simp add: word_unat_eq_iff unat_div unat_mod)
qed

lemma field_mask_bit:
  assumes "m < 10000" "i < 32"
  shows "bit (field_mask m) i = selects m i"
proof -
  have top: "m div 1000 \<noteq> 0 \<longleftrightarrow> unat m div 10 ^ 3 mod 10 \<noteq> 0"
    using assms(1) by (simp add: word_unat_eq_iff unat_div word_less_nat_alt div_less)
  have pick: "bit (if P then x else 0 :: u32) i \<longleftrightarrow> P \<and> bit x i" for P x by simp
  have fm: "bit (field_mask m) i \<longleftrightarrow> m mod 10 \<noteq> 0 \<and> i < 8 \<or> m div 10 mod 10 \<noteq> 0 \<and> 8 \<le> i \<and> i < 16
      \<or> m div 100 mod 10 \<noteq> 0 \<and> 16 \<le> i \<and> i < 24 \<or> m div 1000 \<noteq> 0 \<and> 24 \<le> i"
    unfolding field_mask_def bit_or_iff pick byte_bits using assms(2) by simp
  consider "i div 8 = 0" "i < 8" | "i div 8 = 1" "8 \<le> i" "i < 16" | "i div 8 = 2" "16 \<le> i" "i < 24" | "i div 8 = 3" "24 \<le> i"
    using assms(2) by linarith
  then show ?thesis
  proof cases
    case 1
    then show ?thesis using unat_digit [of 0 m] by (simp add: fm selects_def)
  next
    case 2
    then show ?thesis using unat_digit [of 1 m] by (simp add: fm selects_def)
  next
    case 3
    then show ?thesis using unat_digit [of 2 m] by (simp add: fm selects_def)
  next
    case 4
    then show ?thesis using top by (simp add: fm selects_def)
  qed
qed

definition masked :: "bvexpr \<Rightarrow> u32 \<Rightarrow> bvexpr" where
  "masked e k = bvand e (bvconstant 32 (ucast k))"

lemma val32_masked:
  assumes "well 32 e" "masks_ok e (bvconstant 32 (ucast k))"
  shows "val32 \<rho> (masked e k) = val32 \<rho> e AND k" "well 32 (masked e k)"
  using sand.val32_op [OF assms(1) well_const assms(2), of \<rho>] assms(1)
  by (auto simp: masked_def ucast_ucast_u32 intro!: well_and well_const)

text \<open>
  C36: \<open>ld_field\<close> replaces exactly the bytes that the decimal digits of its mask select, outside of the
  masks that \<open>BVAndPullConcat\<close> mistakes for zero (\<open>masks_ok\<close>): with the mask 0100 and a concatenation of
  two halfwords as destination, \<open>0xff00ffff\<close> is such a mask, and the upper byte is lost too.
\<close>

theorem ld_field_bytes:
  assumes r: "ld_field_calc s d m a sc n = Some (r, k)" and s: "exec_ok s" "represents \<rho> s c"
    and A: "src_expr s a = Some A" and C: "shift_opt s sc A n = Some (C, n)" "shift_exact \<rho> sc A"
    and P: "as_src d = Some p" "src_expr s p = Some P"
    and msk: "masks_ok P (bvconstant 32 (ucast (NOT (field_mask m))))" "masks_ok C (bvconstant 32 (ucast (field_mask m)))"
    and m: "m < 10000" and i: "i < 32"
  shows "bit (val32 \<rho> (res_dst r)) i = (if selects m i then bit (shift_word sc (src_word a c)) i else bit (src_word p c) i)"
proof -
  have w: "well 32 A" "well 32 P" using read_src_ok [OF read_src_expr [OF A] s(1)] read_src_ok [OF read_src_expr [OF P(2)] s(1)] .
  then have wC: "well 32 C" using shift_opt_ok [OF C(1) s(1)] by simp
  have v: "val32 \<rho> C = shift_word sc (src_word a c)" "val32 \<rho> P = src_word p c"
    using src_expr_word [OF A s(2)] src_expr_word [OF P(2) s(2)] shift_opt_word [OF C(1) w(1) C(2)] by simp_all
  show ?thesis
  proof (cases "m = 1111")
    case True
    then have "r = plain_result C []" using r read_src_expr [OF A] C(1) by (simp add: ld_field_calc_def)
    moreover have "selects 1111 i"
    proof -
      have "i div 8 \<in> {0, 1, 2, 3}" using i by auto
      then show ?thesis by (auto simp: selects_def)
    qed
    ultimately show ?thesis using True v(1) by (simp add: plain_result_def)
  next
    case False
    then have "r = plain_result (bvor (masked P (NOT (field_mask m))) (masked C (field_mask m))) []"
      using r read_src_expr [OF A] read_src_expr [OF P(2)] C(1) P(1)
      by (simp add: ld_field_calc_def masked_def read_src_opt_def)
    then have "val32 \<rho> (res_dst r) = (src_word p c AND NOT (field_mask m)) OR (shift_word sc (src_word a c) AND field_mask m)"
      using sor.val32_op [OF val32_masked(2) [OF w(2) msk(1)] val32_masked(2) [OF wC msk(2)], of \<rho>]
        val32_masked(1) [OF w(2) msk(1), of \<rho>] val32_masked(1) [OF wC msk(2), of \<rho>] v
      by (simp add: plain_result_def)
    then show ?thesis using field_mask_bit [OF m i] i by (auto simp: bit_simps)
  qed
qed

subsection \<open>Names of assumptions\<close>

definition is_upper :: "char \<Rightarrow> bool" where
  "is_upper c \<longleftrightarrow> c \<in> {CHR ''T'', CHR ''F'', CHR ''L''}"

lemma op_name_lower: "c \<in> set (op_name p) \<Longrightarrow> \<not> is_upper c"
proof -
  have "c \<in> set (branch_name f) \<Longrightarrow> \<not> is_upper c" for f by (cases f) (auto simp: is_upper_def)
  then show "c \<in> set (op_name p) \<Longrightarrow> \<not> is_upper c" by (cases p) (auto simp: is_upper_def)
qed

lemma takeWhile_name:
  assumes "is_upper x"
  shows "takeWhile (\<lambda>c. \<not> is_upper c) (op_name p @ x # ys) = op_name p"
    "dropWhile (\<lambda>c. \<not> is_upper c) (op_name p @ x # ys) = x # ys"
  using assms op_name_lower [of _ p] by (simp_all add: takeWhile_append dropWhile_append)

text \<open>
  The names of assumptions tell instruction, iteration and direction of the branch apart.
\<close>

theorem assumption_name_injective:
  assumes "assumption_name n l b = assumption_name n' l' b'"
  shows "get_id n = get_id n' \<and> l = l' \<and> b = b' \<and> instr_name n = instr_name n'"
proof -
  define tag where "tag b = (if b then CHR ''T'' else CHR ''F'')" for b
  have alt: "assumption_name n l b = op_name (operation n) @ tag b # decimal (unat (get_id n)) @ CHR ''L'' # decimal l" for n l b
    by (simp add: assumption_name_def instr_name_def tag_def)
  have up: "is_upper (tag b)" for b by (simp add: tag_def is_upper_def)
  note eq = assms [unfolded alt]
  have names: "op_name (operation n) = op_name (operation n')"
    using arg_cong [OF eq, of "takeWhile (\<lambda>c. \<not> is_upper c)"] by (simp only: takeWhile_name [OF up])
  have rest: "tag b # decimal (unat (get_id n)) @ CHR ''L'' # decimal l = tag b' # decimal (unat (get_id n')) @ CHR ''L'' # decimal l'"
    using arg_cong [OF eq, of "dropWhile (\<lambda>c. \<not> is_upper c)"] by (simp only: takeWhile_name [OF up])
  then have "tag b = tag b'" by simp
  then have b: "b = b'" by (simp add: tag_def split: if_splits)
  have L: "\<not> is_digit (CHR ''L'')" by (simp add: is_digit_def)
  from rest have "decimal (unat (get_id n)) @ CHR ''L'' # decimal l = decimal (unat (get_id n')) @ CHR ''L'' # decimal l'" by simp
  from decimal_append_eq [OF this] L have "unat (get_id n) = unat (get_id n')" "decimal l = decimal l'" by auto
  then show ?thesis using b names by (simp add: instr_name_def word_unat_eq_iff)
qed

end
