(* ===== verification/Multiply.thy ===== *)
theory Multiply
  imports Machine_Alu
begin

text \<open>
  The multiplication steps: a state machine in the hidden register \<open>mul_state\<close>.  A sequence of
  steps in the order of the instruction set leaves the low and the high word of the product, and
  a step out of order leaves nothing that is known.
\<close>

subsection \<open>The protocol\<close>

text \<open>The step that has to come before a step.\<close>

primrec prev_tok :: "mul_step_tok \<Rightarrow> mul_step_tok option" where
  "prev_tok Start = None"
| "prev_tok S16x16_step1 = Some Start"
| "prev_tok S16x16_step2 = Some S16x16_step1"
| "prev_tok S32x32_step1 = Some Start"
| "prev_tok S32x32_step2 = Some S32x32_step1"
| "prev_tok S32x32_step3 = Some S32x32_step2"
| "prev_tok S32x32_step4 = Some S32x32_step3"
| "prev_tok (Last l) = Some (case l of
     S16x16_last \<Rightarrow> S16x16_step2 | S32x32_last \<Rightarrow> S32x32_step4 | S32x32_last2 \<Rightarrow> Last S32x32_last)"

lemma tok_str_inj: "tok_str t = tok_str t' \<Longrightarrow> t = t'"
  by (cases t; cases t') (auto split: last_tok.splits)

lemma same_step_next [simp]: "same_step (tok_next q) t \<longleftrightarrow> q = t"
  by (auto simp: same_step_def tok_next_def dest: tok_str_inj)

lemma tok_check_iff:
  "tok_check t (tok_next q) mA mB A B =
     (case prev_tok t of None \<Rightarrow> Some True
      | Some p \<Rightarrow> if \<exists>l. t = Last l then Some (q = p) else if q = p then cand (beq mA A) (beq mB B) else Some False)"
  by (cases t) (auto simp: step_check_def cand_def)

definition mul_at :: "exec \<Rightarrow> mul_step_tok \<Rightarrow> bvexpr \<Rightarrow> bvexpr \<Rightarrow> bool" where
  "mul_at s t A B \<longleftrightarrow> get_reg s mul_state = Some (tok_next t) \<and> get_reg s mulA = Some A \<and> get_reg s mulB = Some B"

lemma read_start: "\<exists>st mA mB k1 k2 k3. read_reg s mul_state n = Some (st, k1) \<and> read_reg s mulA k1 = Some (mA, k2)
    \<and> read_reg s mulB k2 = Some (mB, k3)"
  using read_total(1) by metis

text \<open>A step in sequence records its operands and moves on.\<close>

lemma mul_step_in_sequence:
  assumes "mul_at s q A B" "prev_tok t = Some q" "\<forall>l. t \<noteq> Last l" "src_expr s a = Some A" "src_expr s b = Some B"
  shows "op_perform s (Mul_step a b t) n = Some ([Reg mul_state (tok_next t), Reg mulA A, Reg mulB B], n)"
proof -
  have "tok_check t (tok_next q) A B A B = Some True" using assms(2,3) by (simp add: tok_check_iff beq_refl)
  then show ?thesis using assms(1) read_src_expr [OF assms(4)] read_src_expr [OF assms(5)]
    by (simp add: mul_step_perform_def mul_at_def read_reg_known)
qed

lemma mul_step_start:
  assumes "src_expr s a = Some A" "src_expr s b = Some B"
  shows "\<exists>m. op_perform s (Mul_step a b Start) n = Some ([Reg mul_state (tok_next Start), Reg mulA A, Reg mulB B], m)"
  using read_start [of s n] read_src_expr [OF assms(1)] read_src_expr [OF assms(2)]
  by (auto simp: mul_step_perform_def)

text \<open>A step out of sequence makes the state and both operands undefined.\<close>

lemma mul_step_out_of_sequence:
  assumes "mul_at s q mA mB" "prev_tok t = Some p" "p \<noteq> q" "\<forall>l. t \<noteq> Last l" "src_expr s a = Some A" "src_expr s b = Some B"
  shows "op_perform s (Mul_step a b t) n = mul_undefs (tok_next q) n"
proof -
  have "tok_check t (tok_next q) mA mB A B = Some False" using assms(2-4) by (simp add: tok_check_iff)
  then show ?thesis using assms(1) read_src_expr [OF assms(5)] read_src_expr [OF assms(6)]
    by (simp add: mul_step_perform_def mul_at_def read_reg_known)
qed

lemma mul_last_in_sequence:
  assumes "mul_at s q A B" "prev_tok (Last l) = Some q"
  shows "mul_step_last_calc s l n = Some (plain_result (last_calc l A B) [Reg mul_state (tok_next (Last l))], n)"
  using assms tok_check_iff [of "Last l" q A B "undef 32" "undef 32"]
  by (simp add: mul_step_last_calc_def mul_at_def read_reg_known del: tok_check.simps)

subsection \<open>Sequences\<close>

primrec run_ops :: "operation list \<Rightarrow> exec \<Rightarrow> exec comp" where
  "run_ops [] s n = Some (s, n)"
| "run_ops (p # ps) s n = Option.bind (op_perform s p n) (\<lambda>(us, n). run_ops ps (store_all us s) n)"

definition steps16 :: "mul_step_tok list" where
  "steps16 = [Start, S16x16_step1, S16x16_step2]"

definition steps32 :: "mul_step_tok list" where
  "steps32 = [Start, S32x32_step1, S32x32_step2, S32x32_step3, S32x32_step4]"

fun in_order :: "mul_step_tok \<Rightarrow> mul_step_tok list \<Rightarrow> bool" where
  "in_order q [] = True"
| "in_order q (t # ts) = (prev_tok t = Some q \<and> (\<forall>l. t \<noteq> Last l) \<and> in_order t ts)"

abbreviation "mul_stores t A B s \<equiv> store_all [Reg mul_state (tok_next t), Reg mulA A, Reg mulB B] s"

lemma mul_stores_at: "mul_at (mul_stores t A B s) t A B"
  by (simp add: mul_at_def get_reg_def update_conv')

lemma mul_stores_src: "src_expr (mul_stores t A B s) a = src_expr s a"
  by (cases a) (auto simp: get_reg_def update_conv' gpr_location_alt xfer_in_location_def)

lemma run_in_order:
  assumes "mul_at s q A B" "in_order q ts" "src_expr s a = Some A" "src_expr s b = Some B"
  shows "\<exists>t. run_ops (map (Mul_step a b) ts) s n = Some (t, n) \<and> mul_at t (last (q # ts)) A B
     \<and> (\<forall>x. src_expr t x = src_expr s x)"
  using assms
proof (induction ts arbitrary: s q)
  case (Cons t ts)
  have step: "op_perform s (Mul_step a b t) n = Some ([Reg mul_state (tok_next t), Reg mulA A, Reg mulB B], n)"
    using mul_step_in_sequence [of s q A B t a b] Cons.prems by simp
  then show ?case using Cons.IH [OF mul_stores_at, of t s] Cons.prems mul_stores_src
    by (simp del: store_all_simps op_perform.simps)
qed auto

lemma run_from_start:
  assumes "in_order Start ts" "src_expr s a = Some A" "src_expr s b = Some B"
  shows "\<exists>t m. run_ops (map (Mul_step a b) (Start # ts)) s n = Some (t, m) \<and> mul_at t (last (Start # ts)) A B
     \<and> (\<forall>x. src_expr t x = src_expr s x)"
proof -
  obtain m where "op_perform s (Mul_step a b Start) n = Some ([Reg mul_state (tok_next Start), Reg mulA A, Reg mulB B], m)"
    using mul_step_start [OF assms(2,3)] by blast
  note m = this
  have "mul_at (mul_stores Start A B s) Start A B" by (rule mul_stores_at)
  from run_in_order [OF this assms(1), of a b m] assms(2,3) obtain t where
    t: "run_ops (map (Mul_step a b) ts) (mul_stores Start A B s) m = Some (t, m)" "mul_at t (last (Start # ts)) A B"
      "\<forall>x. src_expr t x = src_expr s x"
    unfolding mul_stores_src by blast
  have "run_ops (map (Mul_step a b) (Start # ts)) s n = Some (t, m)"
    using m t(1) by (simp del: store_all_simps op_perform.simps)
  with t(2,3) show ?thesis by blast
qed

lemma mul_last_perform:
  assumes "mul_at s q A B" "prev_tok (Last l) = Some q"
  shows "\<exists>us. op_perform s (Mul_step_last (Dst_gpr g) l both) n = Some (us, n)
     \<and> get_reg (store_all us s) (gpr_location g) = Some (last_calc l A B) \<and> mul_at (store_all us s) (Last l) A B"
  using assms mul_last_in_sequence [OF assms, of n]
  by (auto simp: assign_perform_def plain_result_def wrboth_def condition_codes_def mul_at_def get_reg_def update_conv'
      gpr_location_alt gpr_flip_def)

subsection \<open>Products\<close>

lemma low_product:
  assumes "well 32 A" "well 32 B"
  shows "uint (val32 \<rho> (bvmul A B)) = take_bit 32 (uint (val32 \<rho> A) * uint (val32 \<rho> B))"
  using smul.val32_op [OF assms, of \<rho>] by (simp add: uint_word_ariths take_bit_eq_mod)

lemma high_product:
  assumes "well 32 A" "well 32 B"
  shows "uint (val32 \<rho> (last_calc S32x32_last2 A B)) = drop_bit 32 (uint (val32 \<rho> A) * uint (val32 \<rho> B))"
proof -
  let ?p = "uint (val32 \<rho> A) * uint (val32 \<rho> B)"
  have e: "well 64 (bvextend 32 A)" "well 64 (bvextend 32 B)" using assms by (auto intro: well_extend)
  have v: "bveval \<rho> (bvextend 32 A) = uint (val32 \<rho> A)" "bveval \<rho> (bvextend 32 B) = uint (val32 \<rho> B)"
    using assms bveval_extend [of 32 A \<rho>] bveval_extend [of 32 B \<rho>] by (simp_all add: uint_val32) (simp_all add: well_def)
  have r: "0 \<le> ?p" "?p < 2 ^ 64"
    using mult_strict_mono [of "uint (val32 \<rho> A)" "2 ^ 32" "uint (val32 \<rho> B)" "2 ^ 32"]
      uint_lt2p [of "val32 \<rho> A"] uint_lt2p [of "val32 \<rho> B"] by auto
  have "bveval \<rho> (bvmul (bvextend 32 A) (bvextend 32 B)) = ?p"
    using smul.eval [OF e TrueI, of \<rho>] r by (simp add: v in_range_take_bit)
  then have "bveval \<rho> (last_calc S32x32_last2 A B) = take_bit 32 (drop_bit 32 ?p)"
    using implements_bvextract [of "bvmul (bvextend 32 A) (bvextend 32 B)" 32 63 \<rho>] well_mul [OF e]
    by (simp add: implements_def well_def)
  moreover have "drop_bit 32 ?p < 2 ^ 32" "0 \<le> drop_bit 32 ?p"
    using r by (auto simp: drop_bit_eq_div pos_imp_zdiv_nonneg_iff)
  ultimately show ?thesis using last_calc_ok [OF assms, of S32x32_last2] by (simp add: uint_val32 in_range_take_bit)
qed

lemma product_parts: "take_bit 32 k + 2 ^ 32 * drop_bit 32 k = k" for k :: int
  by (simp add: take_bit_eq_mod drop_bit_eq_div)

text \<open>
  C37: the steps of a 32-bit multiplication, in order, leave the two words of the product.
\<close>

theorem multiply32:
  assumes s: "exec_ok s" "represents \<rho> s c" and A: "src_expr s a = Some A" and B: "src_expr s b = Some B"
  shows "\<exists>s1 n1 us s2 lo hi. run_ops (map (Mul_step a b) steps32) s n = Some (s1, n1)
     \<and> op_perform s1 (Mul_step_last (Dst_gpr g) S32x32_last False) n1 = Some (us, n1) \<and> s2 = store_all us s1
     \<and> get_reg s2 (gpr_location g) = Some lo
     \<and> mul_step_last_calc s2 S32x32_last2 n1 = Some (plain_result hi [Reg mul_state (tok_next (Last S32x32_last2))], n1)
     \<and> uint (val32 \<rho> lo) + 2 ^ 32 * uint (val32 \<rho> hi) = uint (src_word a c) * uint (src_word b c)"
proof -
  have w: "well 32 A" "well 32 B" using read_src_ok [OF read_src_expr [OF A] s(1)] read_src_ok [OF read_src_expr [OF B] s(1)] .
  have v: "val32 \<rho> A = src_word a c" "val32 \<rho> B = src_word b c" using src_expr_word [OF A s(2)] src_expr_word [OF B s(2)] .
  have "in_order Start (tl steps32)" by (simp add: steps32_def)
  from run_from_start [OF this A B, of n] obtain s1 n1 where
    s1: "run_ops (map (Mul_step a b) steps32) s n = Some (s1, n1)" "mul_at s1 S32x32_step4 A B"
    by (auto simp: steps32_def)
  obtain us where us: "op_perform s1 (Mul_step_last (Dst_gpr g) S32x32_last False) n1 = Some (us, n1)"
     "get_reg (store_all us s1) (gpr_location g) = Some (last_calc S32x32_last A B)" "mul_at (store_all us s1) (Last S32x32_last) A B"
    using mul_last_perform [OF s1(2), of S32x32_last g False n1] by auto
  have "mul_step_last_calc (store_all us s1) S32x32_last2 n1 =
      Some (plain_result (last_calc S32x32_last2 A B) [Reg mul_state (tok_next (Last S32x32_last2))], n1)"
    by (rule mul_last_in_sequence [OF us(3)]) simp
  moreover have "uint (val32 \<rho> (last_calc S32x32_last A B)) + 2 ^ 32 * uint (val32 \<rho> (last_calc S32x32_last2 A B)) =
      uint (src_word a c) * uint (src_word b c)"
    unfolding high_product [OF w] last_calc.simps(2) low_product [OF w] v by (rule product_parts)
  ultimately show ?thesis using s1(1) us(1,2) by blast
qed

end
