(* ===== verification/Memory.thy ===== *)
theory Memory
  imports Machine_Alu
begin

text \<open>
  The bytes that the memory instructions write and read: what a write changes, that a read gives
  back what was written, and the two operators that do not do what they are for.
\<close>

subsection \<open>Addresses\<close>

lemma simple_const [simp]: "simple_address (bvconstant w v)"
  by (simp add: simple_address_def)

lemma uint_const32: "bveval \<rho> (bvconstant 32 (ucast (k :: u32))) = uint k"
proof -
  have "take_bit 32 (uint k) = uint k" using uint_lt2p [of k] by (intro in_range_take_bit) auto
  then show ?thesis by (simp add: bveval_bvconstant uint_up_ucast is_up)
qed

lemma byte_at_eval:
  assumes "well 32 e" "simple_address e"
  shows "bveval \<rho> (byte_at e k) = take_bit 32 (bveval \<rho> e + uint k)"
  using sadd.eval [OF assms(1) well_const, of "ucast k" \<rho>] assms(2) by (simp add: byte_at_def uint_const32)

lemma byte_at_0: "bwt e \<Longrightarrow> width e = 32 \<Longrightarrow> byte_at e 0 = e"
proof -
  assume e: "bwt e" "width e = 32"
  show "byte_at e 0 = e"
  proof (cases "cast_constant e")
    case None
    then have "BVAddConstant 32 e (bvconstant 32 0) = Some e"
      by (simp add: BVAddConstant_def bvconstant_def cast_constant_def)
    then show ?thesis using e by (subst byte_at_def, subst bvadd.simps) (simp add: typed2_def)
  next
    case (Some v)
    then obtain W where v: "e = Bitvector W v" by (rule cast_constant_SomeE)
    then have "BVAddConstant 32 e (bvconstant 32 0) = Some (bvconstant 32 v)"
      using e by (simp add: BVAddConstant_def bvconstant_def)
    moreover have "bvconstant 32 v = e" using e v by (simp add: bvconstant_def lowmask_mask flip: take_bit_eq_mask)
    ultimately show ?thesis using e by (subst byte_at_def, subst bvadd.simps) (simp add: typed2_def)
  qed
qed

lemma byte_at_pointer:
  assumes "well 32 (Pointer p off)" "avar_V p = 8"
  shows "cast_ptr 32 8 (byte_at (Pointer p off) k) = Some (p, byte_at off k)"
proof (cases "k = 0")
  case True
  have "well 32 off" using assms(1) by (simp add: well_def)
  then show ?thesis using assms byte_at_0 [of off] byte_at_0 [of "Pointer p off"] True
    by (simp add: well_def cast_ptr_def)
next
  case False
  let ?c = "bvconstant 32 (ucast k)"
  have ne: "ucast k \<noteq> (0 :: u64)" using False ucast_ucast_u32 [of k] by auto
  have k: "take_bit 32 (ucast k :: u64) = ucast k"
    by (rule bit_word_eqI) (auto simp: bit_simps dest: bit_imp_le_length)
  have c: "?c = Bitvector 32 (ucast k)"
    using k by (simp add: bvconstant_def lowmask_mask flip: take_bit_eq_mask)
  have w: "avar_A p = 32" "width off = 32" using assms(1) by (simp_all add: well_def)
  have "BVAddConstant 32 (Pointer p off) ?c = None"
    using ne by (simp add: BVAddConstant_def c cast_constant_def)
  moreover have "bvadd_call (Pointer p off) ?c = Some (AddPointer p (off, ?c))"
    using bvadd_call_pointer(1) [of p off ?c] assms(2) w c by simp
  ultimately have "byte_at (Pointer p off) k = Pointer p (byte_at off k)"
    using assms(1) w by (subst byte_at_def, subst bvadd.simps) (simp add: typed2_def well_def byte_at_def)
  then show ?thesis using assms w by (simp add: cast_ptr_def)
qed

subsection \<open>Bytes\<close>

definition byte :: "int \<Rightarrow> nat \<Rightarrow> int" where
  "byte v k = take_bit 8 (drop_bit (8 * k) v)"

lemma extract_byte:
  assumes "well 32 v" "k < 4"
  shows "bveval \<rho> (bvextract (8 * k + 7) (8 * k) v) = byte (bveval \<rho> v) k"
  using implements_bvextract [of v "8 * k" "8 * k + 7" \<rho>] assms by (simp add: implements_def well_def byte_def)

text \<open>The memory after a write of up to four bytes.\<close>

definition put_byte :: "int \<Rightarrow> nat \<Rightarrow> int \<Rightarrow> (int \<Rightarrow> int) \<Rightarrow> int \<Rightarrow> int" where
  "put_byte x k v m = m(take_bit 32 (x + int k) := byte v k)"

definition put_bytes :: "int \<Rightarrow> nat \<Rightarrow> int \<Rightarrow> (int \<Rightarrow> int) \<Rightarrow> int \<Rightarrow> int" where
  "put_bytes x c v m =
     (let g = (\<lambda>k m. if k < c then put_byte x k v m else m) in g 3 (g 2 (g 1 (put_byte x 0 v m))))"

lemma write_bytes_eval:
  assumes a: "awell 8 a" and off: "well 32 off" "simple_address off" and v: "well 32 v" and ref: "well 32 ref"
    and i: "uint i + 4 < 2 ^ 32"
  shows "aeval \<rho> (write_bytes a off v i ref) =
    put_bytes (bveval \<rho> off + uint i) (nat (bveval \<rho> ref - uint i)) (bveval \<rho> v) (aeval \<rho> a)"
proof -
  have idx: "uint (i + of_nat k) = uint i + int k" if "k \<le> 4" for k
    using that i by (simp add: uint_word_ariths unsigned_of_nat take_bit_nat_eq_self mod_pos_pos_trivial)
  have put: "aeval \<rho> (store x (byte_at off (i + of_nat k)) (bvextract (8 * k + 7) (8 * k) v)) =
      put_byte (bveval \<rho> off + uint i) k (bveval \<rho> v) (aeval \<rho> x)" if "k < 4" for x k
    using aeval_store [of "byte_at off (i + of_nat k)" \<rho> x] byte_at_ok [OF off(1)] byte_at_eval [OF off] idx [of k] that
      extract_byte [OF v that, of \<rho>]
    by (simp add: well_def put_byte_def add.assoc)
  have guard: "leval \<rho> (bvuge ref (bvconstant 32 (ucast (i + of_nat k + 1)))) \<longleftrightarrow> k < nat (bveval \<rho> ref - uint i)"
    if "k < 4" for k
  proof -
    have s: "i + of_nat k + 1 = i + of_nat (Suc k)" by simp
    show ?thesis unfolding s using cuge.leval_cmp [OF ref well_const, of \<rho> "ucast (i + of_nat (Suc k))"] idx [of "Suc k"] that
      by (auto simp: uint_const32 simp del: of_nat_Suc)
  qed
  note g = put [of 0] put [of 1] put [of 2] put [of 3] guard [of 1] guard [of 2] guard [of 3]
  show ?thesis using g unfolding write_bytes_def put_bytes_def Let_def arr_ite_sound(1)
    by (simp add: arr_ite_sound(1) put guard)
qed

lemma address_inj: "take_bit 32 (x + int j) = take_bit 32 (x + int k) \<longleftrightarrow> j = k" if "j < 4" "k < 4"
proof
  assume "take_bit 32 (x + int j) = take_bit 32 (x + int k)"
  then have "(2 ^ 32 :: int) dvd int j - int k"
    by (simp add: take_bit_eq_mod mod_eq_dvd_iff)
  moreover have "\<bar>int j - int k\<bar> < 2 ^ 32" using that by auto
  ultimately show "j = k" using dvd_imp_le_int [of "int j - int k" "2 ^ 32"] by fastforce
qed simp

text \<open>Exactly the bytes below the count change, and the first one always.\<close>

lemma put_bytes_at:
  assumes "j < 4"
  shows "put_bytes x c v m (take_bit 32 (x + int j)) = (if j = 0 \<or> j < c then byte v j else m (take_bit 32 (x + int j)))"
proof -
  note inj = address_inj [of j 0 x] address_inj [of j 1 x] address_inj [of j 2 x] address_inj [of j 3 x]
  have "j = 0 \<or> j = 1 \<or> j = 2 \<or> j = 3" using assms by auto
  then show ?thesis using inj assms by (elim disjE) (simp_all add: put_bytes_def put_byte_def)
qed

lemma put_bytes_other:
  assumes "\<forall>j < 4. y \<noteq> take_bit 32 (x + int j)"
  shows "put_bytes x c v m y = m y"
  using assms [rule_format, of 0] assms [rule_format, of 1] assms [rule_format, of 2] assms [rule_format, of 3]
  by (simp add: put_bytes_def put_byte_def Let_def)

definition read_bytes :: "bvarray \<Rightarrow> bvexpr \<Rightarrow> bvexpr" where
  "read_bytes a off = bvconcats (map (\<lambda>k. select a (byte_at off k)) [3, 2, 1, 0])"

lemma select_eval:
  assumes "awell 8 a" "well 32 o'"
  shows "bveval \<rho> (select a o') = take_bit 8 (aeval \<rho> a (bveval \<rho> o'))"
  using implements_select [of a o' \<rho>] assms by (simp add: implements_def awell_def well_def)

lemma concat_eval: "well v a \<Longrightarrow> well w b \<Longrightarrow> bveval \<rho> (bvconcat a b) = push_bit w (bveval \<rho> a) OR bveval \<rho> b"
  using implements_bvconcat [of a b \<rho>] by (simp add: implements_def well_def)

lemma concat_bytes_eval:
  assumes w: "well 8 a" "well 8 b" "well 8 c" "well 8 d"
  shows "bveval \<rho> (bvconcats [a, b, c, d]) =
     push_bit 24 (bveval \<rho> a) OR (push_bit 16 (bveval \<rho> b) OR (push_bit 8 (bveval \<rho> c) OR bveval \<rho> d))"
proof -
  have x: "well 16 (bvconcat c d)" using w(3,4) by (rule well_concat) simp
  have y: "well 24 (bvconcat b (bvconcat c d))" using w(2) x by (rule well_concat) simp
  show ?thesis by (simp add: concat_eval [OF w(1) y] concat_eval [OF w(2) x] concat_eval [OF w(3,4)])
qed

lemma read_bytes_eval:
  assumes a: "awell 8 a" and off: "well 32 off" "simple_address off"
  shows "bveval \<rho> (read_bytes a off) =
    (let b = (\<lambda>k. take_bit 8 (aeval \<rho> a (take_bit 32 (bveval \<rho> off + int k))))
     in push_bit 24 (b 3) OR (push_bit 16 (b 2) OR (push_bit 8 (b 1) OR b 0)))"
proof -
  have w: "well 8 (select a (byte_at off k))" for k using well_select [OF a byte_at_ok [OF off(1)]] by simp
  show ?thesis unfolding read_bytes_def list.map
    by (simp only: concat_bytes_eval [OF w w w w] select_eval [OF a byte_at_ok [OF off(1)]] byte_at_eval [OF off] Let_def) simp
qed

lemma bytes_join: "push_bit 24 (byte v 3) OR (push_bit 16 (byte v 2) OR (push_bit 8 (byte v 1) OR byte v 0)) = v"
  if "take_bit 32 v = v" for v :: int
proof (rule take_bit_eqI [where n = 32])
  fix i :: nat assume "i < 32"
  then consider "i < 8" | "8 \<le> i" "i - 8 < 8" "i < 16" | "16 \<le> i" "i - 16 < 8" "\<not> i - 8 < 8" "i < 24"
    | "24 \<le> i" "i - 24 < 8" "\<not> i - 16 < 8" "\<not> i - 8 < 8" by linarith
  then show "bit (push_bit 24 (byte v 3) OR (push_bit 16 (byte v 2) OR (push_bit 8 (byte v 1) OR byte v 0))) i = bit v i"
    by cases (simp_all add: byte_def bit_simps)
qed (use that in \<open>auto intro!: bit_eqI simp: byte_def bit_simps\<close>)

theorem write_read_bytes:
  assumes a: "awell 8 a" and off: "well 32 off" "simple_address off" and v: "well 32 v" and ref: "well 32 ref"
    and all: "4 \<le> bveval \<rho> ref"
  shows "bveval \<rho> (read_bytes (write_bytes a off v 0 ref) off) = bveval \<rho> v"
proof -
  let ?a = "write_bytes a off v 0 ref"
  have a': "aeval \<rho> ?a = put_bytes (bveval \<rho> off) (nat (bveval \<rho> ref)) (bveval \<rho> v) (aeval \<rho> a)"
    using write_bytes_eval [OF a off v ref, of 0 \<rho>] by simp
  have b: "take_bit 8 (aeval \<rho> ?a (take_bit 32 (bveval \<rho> off + int k))) = byte (bveval \<rho> v) k" if "k < 4" for k
  proof -
    have "k < nat (bveval \<rho> ref)" using that all by simp
    with that a show ?thesis by (simp add: put_bytes_at a') (simp add: byte_def)
  qed
  show ?thesis unfolding read_bytes_eval [OF write_bytes_ok [OF a off(1) v ref] off] Let_def b
    using b [of 0] b [of 1] b [of 2] b [of 3] bytes_join [OF well_range [OF v, of \<rho>]] by simp
qed

subsection \<open>Memory instructions\<close>

text \<open>An address that is known to be a pointer into an array of bytes.\<close>

definition points_to :: "exec \<Rightarrow> src \<Rightarrow> src \<Rightarrow> avar \<Rightarrow> bvexpr \<Rightarrow> bool" where
  "points_to s s1 s2 p off \<longleftrightarrow> (\<exists>A B. src_expr s s1 = Some A \<and> src_expr s s2 = Some B \<and> bvadd A B = Pointer p off)
     \<and> avar_V p = 8 \<and> pointers off = 0"

lemma points_to_ok:
  assumes "points_to s s1 s2 p off" "exec_ok s"
  shows "mem_address s s1 None s2 None n = Some (Pointer p off, n)" "well 32 (Pointer p off)" "well 32 off"
    "cast_ptr 32 8 (Pointer p off) = Some (p, off)" "simple_address off"
proof -
  obtain A B where A: "src_expr s s1 = Some A" "src_expr s s2 = Some B" "bvadd A B = Pointer p off"
    using assms(1) by (auto simp: points_to_def)
  have w: "well 32 A" "well 32 B" using read_src_ok [OF read_src_expr [OF A(1)] assms(2)] read_src_ok [OF read_src_expr [OF A(2)] assms(2)] .
  show "mem_address s s1 None s2 None n = Some (Pointer p off, n)"
    using read_src_expr [OF A(1)] read_src_expr [OF A(2)] A(3) by (simp add: mem_address_def shift_opt_def)
  show W: "well 32 (Pointer p off)" using well_add [OF w] A(3) by simp
  then show "well 32 off" by (simp add: well_def)
  show "cast_ptr 32 8 (Pointer p off) = Some (p, off)" "simple_address off"
    using assms(1) W by (auto simp: points_to_def cast_ptr_def well_def)
qed

lemma points_to_store: "points_to (update_store (Mem8 d e) s) s1 s2 p off = points_to s s1 s2 p off"
proof -
  have "src_expr (update_store (Mem8 d e) s) x = src_expr s x" for x by (cases x) (auto simp: get_reg_def)
  then show ?thesis by (simp only: points_to_def)
qed

lemma xfers_1: "xfers x 1 = [x]"
  by (simp add: xfers_def)

lemma write_word:
  assumes "points_to s s1 s2 p off" "exec_ok s" "get_reg s (xfer_out_location x) = Some v" "f = Write8_swap \<or> f = Write32_swap"
    "write_op_xfers f c = 1"
  shows "\<exists>a m. read_mem8 s p n = Some (a, m)
     \<and> op_perform s (Mem_write f x s1 None s2 None c False cs) n =
         Some ([Mem8 (declname p) (write_bytes a off v 0 (bvconstant 32 (ucast c)))], m)"
proof -
  obtain a m where a: "read_mem8 s p n = Some (a, m)" using read_total(3) by blast
  then show ?thesis using points_to_ok [OF assms(1,2)] assms(4,5) read_reg_known [OF assms(3)]
    by (auto simp: mem_write_perform_def write_xfers_def xfers_1)
qed

lemma read_word:
  assumes "points_to s s1 s2 p off" "exec_ok s" "get_mem8 s (declname p) = Some a"
  shows "op_perform s (Mem_read Read32_swap y s1 None s2 None 1 False cs) n =
     Some ([Reg (xfer_in_location y) (read_bytes a off)], n)"
proof -
  have p: "avar_V p = 8" using assms(1) by (simp add: points_to_def)
  note ptr = byte_at_pointer [OF points_to_ok(2) [OF assms(1,2)] p]
  have m: "read_mem8 s p n = Some (a, n)" for n using assms(3) by (simp add: get_mem8_def read_mem8_def)
  show ?thesis using points_to_ok [OF assms(1,2)]
    by (simp add: mem_read_perform_def read_xfers_def xfers_1 ptr m read_bytes_def)
qed

text \<open>
  C38: a word that is written with \<open>write8_swap\<close> is read back by \<open>read32_swap\<close>.
\<close>

theorem write_then_read:
  assumes s: "exec_ok s" "points_to s s1 s2 p off" and x: "get_reg s (xfer_out_location x) = Some v"
    and w: "op_perform s (Mem_write Write8_swap x s1 None s2 None 4 False cs) n = Some (us, m)"
    and r: "op_perform (store_all us s) (Mem_read Read32_swap y s1 None s2 None 1 False cs') k = Some (us', k')"
  shows "\<exists>e. us' = [Reg (xfer_in_location y) e] \<and> bveval \<rho> e = bveval \<rho> v"
proof -
  obtain a where a: "read_mem8 s p n = Some (a, m)" and us: "us = [Mem8 (declname p) (write_bytes a off v 0 (bvconstant 32 4))]"
    using write_word [OF s(2,1) x, of Write8_swap 4 n cs] w by auto
  have wa: "awell 8 a" using read_mem8_ok [OF a s(1)] .
  have wv: "well 32 v" using read_reg_ok [OF read_reg_known [OF x] s(1)] .
  have w4: "well 32 (bvconstant 32 4)" by (intro well_const) auto
  let ?a = "write_bytes a off v 0 (bvconstant 32 4)"
  have t: "exec_ok (store_all us s)" using us write_bytes_ok [OF wa points_to_ok(3) [OF s(2,1)] wv w4] s(1)
    by (simp del: update_store.simps add: update_store_ok)
  have "points_to (store_all us s) s1 s2 p off" using s(2) us by (simp del: update_store.simps add: points_to_store)
  moreover have "get_mem8 (store_all us s) (declname p) = Some ?a" using us by (simp add: get_mem8_def update_conv')
  ultimately have "us' = [Reg (xfer_in_location y) (read_bytes ?a off)]" using read_word [OF _ t, of s1 s2 p off ?a y cs' k] r by simp
  then show ?thesis using write_read_bytes [OF wa points_to_ok(3,5) [OF s(2,1)] wv w4, of \<rho>] by simp
qed

text \<open>
  C39: \<open>write32_swap\<close> is given a number of words, but its body compares it with the number of a byte:
  a write of one word changes one byte.
\<close>

theorem write32_writes_one_byte:
  assumes s: "exec_ok s" "points_to s s1 s2 p off" and x: "get_reg s (xfer_out_location x) = Some v"
    and w: "op_perform s (Mem_write Write32_swap x s1 None s2 None 1 False cs) n = Some (us, m)"
  shows "\<exists>a a'. read_mem8 s p n = Some (a, m) \<and> us = [Mem8 (declname p) a']
     \<and> aeval \<rho> a' = (aeval \<rho> a)(take_bit 32 (bveval \<rho> off) := byte (bveval \<rho> v) 0)"
proof -
  obtain a where a: "read_mem8 s p n = Some (a, m)" and us: "us = [Mem8 (declname p) (write_bytes a off v 0 (bvconstant 32 1))]"
    using write_word [OF s(2,1) x, of Write32_swap 1 n cs] w by auto
  have wv: "well 32 v" using read_reg_ok [OF read_reg_known [OF x] s(1)] .
  have w1: "well 32 (bvconstant 32 1)" by (intro well_const) auto
  have "aeval \<rho> (write_bytes a off v 0 (bvconstant 32 1)) = (aeval \<rho> a)(take_bit 32 (bveval \<rho> off) := byte (bveval \<rho> v) 0)"
    using write_bytes_eval [OF read_mem8_ok [OF a s(1)] points_to_ok(3,5) [OF s(2,1)] wv w1, of 0 \<rho>]
    by (simp add: put_bytes_def put_byte_def Let_def)
  then show ?thesis using a us by blast
qed

text \<open>
  \<open>add_imm\<close> looks for a pointer in the offset, which the caller has already taken out of the
  pointer: the array is lost.
\<close>

theorem add_imm_loses_memory:
  assumes s: "exec_ok s" "points_to s s1 s2 p off"
    and w: "op_perform s (Mem_write Add_imm x s1 None s2 None c False cs) n = Some (us, m)"
  shows "\<exists>k. us = [Mem8 (declname p) (Undefined_array 32 8 (Fresh k) ''non_ptr_mem_inc'' (Some (Ebvexpr off)))]"
proof -
  have off: "byte_at off 0 = off" using points_to_ok(3) [OF s(2,1)] byte_at_0 [of off] by (simp add: well_def)
  have "cast_ptr 32 8 off = None" using s(2) by (intro cast_ptr_None) (auto simp: points_to_def)
  then have add: "add_imm a off ref n = fresh_array 32 8 ''non_ptr_mem_inc'' (Some (Ebvexpr off)) n" for a ref n
    by (simp add: add_imm_def off)
  show ?thesis using w points_to_ok [OF s(2,1)]
    by (auto simp: mem_write_perform_def write_xfers_def xfers_def bind_eq_Some_conv add fresh_array_def)
qed

end
