(* ===== verification/Latency.thy ===== *)
theory Latency
  imports Exec_Typed
begin

text \<open>
  Deferred updates: a write to a control register or the end of the life of a hidden register
  takes effect a number of cycles later, before the updates of the instruction that is executed
  then.
\<close>

subsection \<open>Firing\<close>

definition due :: "exec \<Rightarrow> update list" where
  "due s = map snd (filter (\<lambda>(c, u). c \<le> sumcycles s) (defered s))"

definition pending :: "exec \<Rightarrow> (u32 \<times> update) list" where
  "pending s = filter (\<lambda>(c, u). \<not> c \<le> sumcycles s) (defered s)"

lemma is_reg_store_defered: "is_reg u \<Longrightarrow> defered (update_store u s) = defered s"
  by (cases u) auto

lemma store_regs_defered: "\<forall>u \<in> set us. is_reg u \<Longrightarrow> defered (store_all us s) = defered s"
  by (induction us arbitrary: s) (auto simp: is_reg_store_defered)

text \<open>Firing stores what is due, in the order it was deferred, and keeps the rest.\<close>

theorem fire_exact:
  assumes "exec_ok s"
  shows "\<exists>t. fire s = Some t \<and> defered t = pending s
     \<and> (\<forall>r. get_reg t r = (case last_reg r (due s) of Some e \<Rightarrow> Some e | None \<Rightarrow> get_reg s r))"
proof -
  let ?p = "\<lambda>(c, u). c \<le> sumcycles s"
  let ?s = "s\<lparr>defered := pending s\<rparr>"
  have reg: "is_reg u" if "(c, u) \<in> set (defered s)" for c u using assms that by (auto simp: exec_ok_def)
  have "\<not> is_defered u" if "(c, u) \<in> set (filter ?p (defered s))" for c u using reg [of c u] that by (cases u) auto
  then have f: "fire s = Some (store_all (due s) ?s)" by (auto simp: fire_def Let_def due_def pending_def)
  have "\<forall>u \<in> set (due s). is_reg u" using reg by (auto simp: due_def)
  then have "defered (store_all (due s) ?s) = pending s" by (simp add: store_regs_defered)
  moreover have g: "get_reg ?s r = get_reg s r" for r by (simp add: get_reg_def)
  moreover have "get_reg (store_all (due s) ?s) r = (case last_reg r (due s) of Some e \<Rightarrow> Some e | None \<Rightarrow> get_reg s r)" for r
    unfolding get_reg_store_all g ..
  ultimately show ?thesis using f by blast
qed

subsection \<open>What an instruction sees\<close>

text \<open>The state that \<open>perform\<close> is called with.\<close>

definition seen :: "instr \<Rightarrow> info \<Rightarrow> nat \<Rightarrow> bool \<Rightarrow> exec \<Rightarrow> exec comp" where
  "seen n i l b s k = do { s \<leftarrow> tick n i b s; take_branch n l b s k }"

lemma assume_keeps:
  assumes "exec_assume (e, i) s = Some t"
  shows "get_reg t = get_reg s" "get_flag t = get_flag s" "defered t = defered s" "sumcycles t = sumcycles s"
  using assms
  by (cases rule: exec_assume_cases; auto simp: get_reg_def get_flag_def fun_eq_iff unsat_by_def check_bounds_def)+

lemma take_branch_keeps:
  assumes "take_branch n l b s k = Some (t, m)"
  shows "get_reg t = get_reg s \<and> get_flag t = get_flag s \<and> defered t = defered s \<and> sumcycles t = sumcycles s"
proof (cases "itype n = BRANCH")
  case True
  let ?s = "s\<lparr>sat := None, model := None\<rparr>"
  obtain c where "exec_assume (if b then c else isfalse c, assumption_name n l b) ?s = Some t"
    using assms True by (auto simp: take_branch_def Let_def bind_eq_Some_conv)
  from assume_keeps [OF this] show ?thesis by (simp add: get_reg_def get_flag_def fun_eq_iff)
qed (use assms in \<open>auto simp: take_branch_def\<close>)

lemma tick_keeps:
  assumes "tick n i b s = Some t"
  shows "get_reg t = get_reg s \<and> get_flag t = get_flag s \<and> defered t = defered s \<and> sat t = sat s
     \<and> (\<exists>j c. perf_cycles n j b = Some c \<and> sumcycles t = sumcycles s + c)"
  using assms by (auto simp: tick_def Let_def bind_eq_Some_conv get_reg_def get_flag_def fun_eq_iff)

lemma seen_keeps:
  assumes "seen n i l b s k = Some (t, m)"
  shows "get_reg t = get_reg s" "get_flag t = get_flag s" "defered t = defered s"
    "\<exists>j c. perf_cycles n j b = Some c \<and> sumcycles t = sumcycles s + c"
proof -
  obtain u where u: "tick n i b s = Some u" "take_branch n l b u k = Some (t, m)"
    using assms by (auto simp: seen_def bind_eq_Some_conv)
  show "get_reg t = get_reg s" "get_flag t = get_flag s" "defered t = defered s"
    "\<exists>j c. perf_cycles n j b = Some c \<and> sumcycles t = sumcycles s + c"
    using tick_keeps [OF u(1)] take_branch_keeps [OF u(2)] by auto
qed

lemma seen_ok: "seen n i l b s k = Some (t, m) \<Longrightarrow> exec_ok s \<Longrightarrow> exec_ok t"
  using tick_ok take_branch_ok by (fastforce simp: seen_def bind_eq_Some_conv)

lemma exec_apply_seen:
  assumes "exec_apply n i l b s k = Some (t, m)" "sat s \<noteq> Some False"
  obtains v us w k1 where "seen n i l b s k = Some (v, k1)" "perform n v k1 = Some (us, m)" "fire v = Some w"
    "t = store_all us w"
  using assms(1)
proof (cases rule: exec_apply_cases)
  case unsat
  then show ?thesis using tick_keeps [of n i b s t] assms(2) by simp
next
  case (step s1 s2 s3 us k1)
  then have "seen n i l b s k = Some (s2, k1)" by (simp add: seen_def)
  then show ?thesis using step that by blast
qed

text \<open>Every instruction but the last takes time.\<close>

lemma perf_cycles_pos:
  assumes "perf_cycles n j b = Some c" "itype n \<noteq> FIN"
  shows "1 \<le> c"
  by (rule perf_cycles_cases [of n]) (use assms in \<open>auto simp: word_le_nat_alt unat_sub_if' split: if_split_asm\<close>)

subsection \<open>The hidden registers of the ALU\<close>

text \<open>
  A logical ALU instruction leaves its first operand and its result in \<open>PREV_A\<close> and \<open>PREV_ALU\<close>;
  the next instruction sees them, and after it they are undefined.
\<close>

definition prev_tail :: "bvexpr \<Rightarrow> bvexpr \<Rightarrow> update list" where
  "prev_tail A d = [Reg PREV_A A, Reg PREV_ALU d, Defered 1 (Reg PREV_A (undef 32)), Defered 1 (Reg PREV_ALU (undef 32))]"

text \<open>The first operand and the result of an ALU instruction.\<close>

definition alu_hidden :: "exec \<Rightarrow> src \<Rightarrow> alu_op \<Rightarrow> src \<Rightarrow> shift_cntl option \<Rightarrow> nat \<Rightarrow> (bvexpr \<times> bvexpr) option" where
  "alu_hidden s a f b sc n = do {
     (A, n) \<leftarrow> read_src s a n;
     (B, n) \<leftarrow> read_src s b n;
     (C, n) \<leftarrow> shift_opt s sc B n;
     (r, n) \<leftarrow> alu_calc s f A C n;
     Some (A, res_dst r)
   }"

definition is_alu :: "operation \<Rightarrow> dst \<Rightarrow> src \<Rightarrow> alu_op \<Rightarrow> src \<Rightarrow> shift_cntl option \<Rightarrow> bool \<Rightarrow> bool" where
  "is_alu op d a f b sc both \<longleftrightarrow> op = Alu_shf d a f b sc both \<or> op = Alu d a f b both \<and> sc = None"

lemma alu_ends_with_prev:
  assumes "perform n s k = Some (us, m)" "is_alu (operation n) d a f b sc w" "writes_prev f"
  shows "\<exists>xs A dst. us = xs @ prev_tail A dst \<and> alu_hidden s a f b sc k = Some (A, dst)"
proof -
  obtain r k1 v where r: "alu_like_calc s a f b sc k = Some (r, k1)" and us: "us = v # wrboth d w (res_dst r) @ condition_codes r @ res_u r"
    using assms(1,2) by (auto simp: is_alu_def perform_def assign_perform_def bind_eq_Some_conv)
  obtain A r' where "alu_hidden s a f b sc k = Some (A, res_dst r')" and "r = r'\<lparr>res_u := res_u r' @ prev_tail A (res_dst r')\<rparr>"
    using r assms(3) by (auto simp: alu_like_calc_def alu_hidden_def prev_tail_def bind_eq_Some_conv)
  then show ?thesis using us by auto
qed

lemma prev_tail_stored:
  "get_reg (store_all (xs @ prev_tail A d) s) PREV_A = Some A"
  "get_reg (store_all (xs @ prev_tail A d) s) PREV_ALU = Some d"
  "\<exists>ds. defered (store_all (xs @ prev_tail A d) s) =
     ds @ [(sumcycles s + 1, Reg PREV_A (undef 32)), (sumcycles s + 1, Reg PREV_ALU (undef 32))]"
  by (auto simp: prev_tail_def get_reg_def update_conv')

text \<open>
  C40: the instruction after an ALU instruction with a logical operator (\<open>writes_prev\<close>) reads its first
  operand in \<open>PREV_A\<close> and its result in \<open>PREV_ALU\<close>, and before that instruction stores its own updates both
  are made undefined.
\<close>

theorem prev_window:
  assumes s0: "exec_ok s0" "sat s0 \<noteq> Some False"
    and n1: "is_alu (operation n1) d a f b sc w" "writes_prev f" "exec_apply n1 i1 l1 b1 s0 k0 = Some (s1, k1)"
    and n2: "itype n2 \<noteq> FIN" "exec_apply n2 i2 l2 b2 s1 k1 = Some (s2, k2)" "sat s1 \<noteq> Some False"
    and small: "unat (sumcycles s1) + 25 < 2 ^ 32"
  shows "\<exists>v1 m1 A dst v2 m2 us2 w2. seen n1 i1 l1 b1 s0 k0 = Some (v1, m1) \<and> alu_hidden v1 a f b sc m1 = Some (A, dst)
     \<and> seen n2 i2 l2 b2 s1 k1 = Some (v2, m2) \<and> get_reg v2 PREV_A = Some A \<and> get_reg v2 PREV_ALU = Some dst
     \<and> perform n2 v2 m2 = Some (us2, k2) \<and> s2 = store_all us2 w2
     \<and> get_reg w2 PREV_A = Some (undef 32) \<and> get_reg w2 PREV_ALU = Some (undef 32)"
proof -
  obtain v1 us1 w1 m1 where v1: "seen n1 i1 l1 b1 s0 k0 = Some (v1, m1)" "perform n1 v1 m1 = Some (us1, k1)" "fire v1 = Some w1"
    "s1 = store_all us1 w1" using exec_apply_seen [OF n1(3) s0(2)] .
  obtain xs A dst where us1: "us1 = xs @ prev_tail A dst" "alu_hidden v1 a f b sc m1 = Some (A, dst)"
    using alu_ends_with_prev [OF v1(2) n1(1,2)] by blast
  obtain ds where ds: "get_reg s1 PREV_A = Some A" "get_reg s1 PREV_ALU = Some dst"
    "defered s1 = ds @ [(sumcycles s1 + 1, Reg PREV_A (undef 32)), (sumcycles s1 + 1, Reg PREV_ALU (undef 32))]"
    using prev_tail_stored [of xs A dst w1] v1(4) us1(1) by auto
  obtain v2 us2 w2 m2 where v2: "seen n2 i2 l2 b2 s1 k1 = Some (v2, m2)" "perform n2 v2 m2 = Some (us2, k2)" "fire v2 = Some w2"
    "s2 = store_all us2 w2" using exec_apply_seen [OF n2(2,3)] .
  have "exec_ok s1" using exec_apply_ok [OF n1(3) s0(1)] .
  then have ok: "exec_ok v2" using seen_ok v2(1) by blast
  note keep = seen_keeps [OF v2(1)]
  obtain j c where c: "perf_cycles n2 j b2 = Some c" "sumcycles v2 = sumcycles s1 + c" using keep(4) by blast
  have "1 \<le> c" "c \<le> 25" using perf_cycles_pos [OF c(1) n2(1)] perf_cycles_total [of n2 j b2] c(1) by auto
  then have le: "sumcycles s1 + 1 \<le> sumcycles v2" using small c(2) by (simp add: word_le_nat_alt unat_word_ariths)
  have "\<exists>ys. due v2 = ys @ [Reg PREV_A (undef 32), Reg PREV_ALU (undef 32)]"
    using le by (auto simp: due_def keep(3) ds(3))
  then obtain ys where ys: "due v2 = ys @ [Reg PREV_A (undef 32), Reg PREV_ALU (undef 32)]" by blast
  have last: "last_reg x (ys @ zs) = (case last_reg x zs of Some e \<Rightarrow> Some e | None \<Rightarrow> last_reg x ys)" for x zs
    by (induction ys) (auto split: option.splits update.splits)
  have "get_reg w2 PREV_A = Some (undef 32)" "get_reg w2 PREV_ALU = Some (undef 32)"
    using fire_exact [OF ok] v2(3) by (auto simp: ys last)
  then show ?thesis using v1(1) us1(2) v2 keep(1) ds(1,2) by auto
qed

end
