(* ===== verification/Machine_Branch.thy ===== *)
theory Machine_Branch
  imports Machine_Alu
begin

text \<open>
  The conditions of the branches: each tests the condition codes it is named for, and a branch
  after a subtraction compares the operands, signed or unsigned.
\<close>

subsection \<open>Conditions\<close>

primrec branch_cond :: "branch_op \<Rightarrow> cpu \<Rightarrow> bool" where
  "branch_cond Bcc c = (\<not> cpu_flag c C_flag)"
| "branch_cond Bcs c = cpu_flag c C_flag"
| "branch_cond Beq c = cpu_flag c Z_flag"
| "branch_cond Bge c = (cpu_flag c N_flag = cpu_flag c V_flag)"
| "branch_cond Bgt c = (\<not> cpu_flag c Z_flag \<and> cpu_flag c N_flag = cpu_flag c V_flag)"
| "branch_cond Ble c = (cpu_flag c Z_flag \<or> cpu_flag c N_flag \<noteq> cpu_flag c V_flag)"
| "branch_cond Blt c = (cpu_flag c N_flag \<noteq> cpu_flag c V_flag)"
| "branch_cond Bmi c = cpu_flag c N_flag"
| "branch_cond Bne c = (\<not> cpu_flag c Z_flag)"
| "branch_cond Bpl c = (\<not> cpu_flag c N_flag)"
| "branch_cond Bvc c = (\<not> cpu_flag c V_flag)"
| "branch_cond Bvs c = cpu_flag c V_flag"

primrec branch_flags :: "branch_op \<Rightarrow> string list" where
  "branch_flags Bcc = [C_flag]"
| "branch_flags Bcs = [C_flag]"
| "branch_flags Beq = [Z_flag]"
| "branch_flags Bge = [N_flag, V_flag]"
| "branch_flags Bgt = [Z_flag, N_flag, V_flag]"
| "branch_flags Ble = [Z_flag, N_flag, V_flag]"
| "branch_flags Blt = [N_flag, V_flag]"
| "branch_flags Bmi = [N_flag]"
| "branch_flags Bne = [Z_flag]"
| "branch_flags Bpl = [N_flag]"
| "branch_flags Bvc = [V_flag]"
| "branch_flags Bvs = [V_flag]"

text \<open>
  The codes that the branch tests are known; \<open>operator==\<close> is exact on the negative code, and the
  operands of a carry are free of pointers.
\<close>

definition bit_plain :: "bvexpr \<Rightarrow> bool" where
  "bit_plain C = (case C of Bvbit f a b \<Rightarrow> pointers a = 0 \<and> pointers b = 0 | _ \<Rightarrow> True)"

definition lower_carry :: "bvexpr \<Rightarrow> bvexpr" where
  "lower_carry C = (case cast_carry Bvaddition_carry 32 C of
     Some (a, b) \<Rightarrow> bvextract 32 32 (bvadd (bvextend 1 a) (bvextend 1 b)) | None \<Rightarrow> C)"

definition carry_plain :: "bvexpr \<Rightarrow> bool" where
  "carry_plain C \<longleftrightarrow> bit_plain C \<and> bit_plain (lower_carry C)"

definition branch_exact :: "exec \<Rightarrow> branch_op \<Rightarrow> bool" where
  "branch_exact s f \<longleftrightarrow> (\<forall>x \<in> set (branch_flags f). get_flag s x \<noteq> None)
     \<and> (\<forall>e. get_flag s N_flag = Some e \<longrightarrow> bexact e)
     \<and> (\<forall>e. get_flag s C_flag = Some e \<longrightarrow> carry_plain e)"

subsection \<open>Equality tests\<close>

lemma beq_constant: "beq e (bvconstant w v) = Some True \<Longrightarrow> e = bvconstant w v"
  by (cases e) (auto simp: bvconstant_def split: if_split_asm)

lemma leval_eq_const:
  assumes "eq_bv e (bvconstant w v) = Some x"
  shows "leval \<rho> x \<longleftrightarrow> bveval \<rho> e = bveval \<rho> (bvconstant w v)"
  using assms beq_constant [of e w v] by (auto simp: eq_bv_def split: if_split_asm)

lemma leval_eq: "eq_bv a b = Some x \<Longrightarrow> bexact a \<Longrightarrow> leval \<rho> x \<longleftrightarrow> bveval \<rho> a = bveval \<rho> b"
  using beq_sound [of a b \<rho>] by (auto simp: eq_bv_def split: if_split_asm)

lemma get_flag_ok: "get_flag s f = Some e \<Longrightarrow> exec_ok s \<Longrightarrow> well 1 e"
  using read_flag_ok [OF read_flag_known] by blast

lemma flag_is_exact:
  assumes "flag_is s f v n = Some (x, m)" "get_flag s f = Some e" "exec_ok s" "represents \<rho> s c" "v = of_bool k"
  shows "leval \<rho> x \<longleftrightarrow> cpu_flag c f = k" "m = n"
proof -
  have x: "eq_bv e (bvconstant 1 v) = Some x" "m = n"
    using assms(1) by (auto simp: flag_is_def read_flag_known [OF assms(2)] bind_eq_Some_conv simp del: One_nat_def)
  have "bveval \<rho> (bvconstant 1 v) = of_bool k" using assms(5) by (simp add: bveval_bvconstant del: One_nat_def)
  moreover have "bveval \<rho> e = of_bool (bit1 \<rho> e)" using get_flag_ok [OF assms(2,3)] by (rule bveval_bit1)
  moreover have "bit1 \<rho> e = cpu_flag c f" using assms(2,4) by (simp add: represents_def)
  ultimately show "leval \<rho> x \<longleftrightarrow> cpu_flag c f = k" "m = n" using leval_eq_const [OF x(1), of \<rho>] x(2) by auto
qed

lemma n_equals_v_exact:
  assumes "n_equals_v s n = Some (x, m)" "get_flag s N_flag = Some e" "get_flag s V_flag = Some e'" "bexact e"
    "exec_ok s" "represents \<rho> s c"
  shows "leval \<rho> x \<longleftrightarrow> cpu_flag c N_flag = cpu_flag c V_flag" "m = n"
proof -
  have x: "eq_bv e e' = Some x" "m = n"
    using assms(1) by (auto simp: n_equals_v_def read_flag_known [OF assms(2)] read_flag_known [OF assms(3)] bind_eq_Some_conv)
  have "bveval \<rho> e = of_bool (bit1 \<rho> e)" "bveval \<rho> e' = of_bool (bit1 \<rho> e')"
    using get_flag_ok [OF assms(2,5)] get_flag_ok [OF assms(3,5)] by (simp_all only: bveval_bit1)
  moreover have "bit1 \<rho> e = cpu_flag c N_flag" "bit1 \<rho> e' = cpu_flag c V_flag" using assms(2,3,6) by (auto simp: represents_def)
  ultimately show "leval \<rho> x \<longleftrightarrow> cpu_flag c N_flag = cpu_flag c V_flag" "m = n"
    using leval_eq [OF x(1) assms(4), of \<rho>] x(2) by auto
qed

subsection \<open>The carry\<close>

lemma cast_carry_Some: "cast_carry f w e = Some (a, b) \<Longrightarrow> e = Bvbit f a b \<and> width a = w"
  by (auto simp: cast_carry_def split: bvexpr.split_asm if_split_asm)

lemma no_pointer_casts: "pointers a = 0 \<Longrightarrow> same_array32 a b = None" "pointers a = 0 \<Longrightarrow> same_array64 a b = None"
  by (auto simp: same_array32_def same_array64_def elim!: cast_ptr_SomeE cast_ptr_ext_SomeE split: option.split prod.split)

lemma carry_bit_exact:
  assumes "cast_carry Bvaddition_carry w C = Some (a, b)" "well 1 C" "bit_plain C" "w = 32 \<or> w = 64"
  shows "bveval \<rho> (bvextract w w (bvadd (bvextend 1 a) (bvextend 1 b))) = bveval \<rho> C"
proof -
  have C: "C = Bvbit Bvaddition_carry a b" using cast_carry_Some [OF assms(1)] by simp
  have ab: "well w a" "well w b" using cast_carry_parts [OF assms(1,2)] by simp_all
  have p: "pointers a = 0" "pointers b = 0" using assms(3) by (simp_all add: C bit_plain_def)
  show ?thesis using extended_sum [OF ab p, of \<rho>] assms(4) well_width [OF ab(1)] by (auto simp: C)
qed

lemma carry_expr_exact:
  assumes "well 1 C" "carry_plain C"
  shows "bveval \<rho> (carry_expr C) = bveval \<rho> C"
proof -
  have plain: "bit_plain C" "bit_plain (lower_carry C)" using assms(2) by (simp_all add: carry_plain_def)
  have low: "bveval \<rho> (lower_carry C) = bveval \<rho> C"
    using carry_bit_exact [OF _ assms(1) plain(1)] by (auto simp: lower_carry_def split: option.split)
  have wl: "well 1 (lower_carry C)"
  proof (cases "cast_carry Bvaddition_carry 32 C")
    case (Some ab)
    obtain a b where "ab = (a, b)" by (cases ab)
    then have "well 32 a" "well 32 b" using cast_carry_parts [OF _ assms(1)] Some by auto
    then have "well 33 (bvadd (bvextend 1 a) (bvextend 1 b))" by (intro well_add well_extend) auto
    then have "well 1 (bvextract 32 32 (bvadd (bvextend 1 a) (bvextend 1 b)))" by (rule well_extract) auto
    then show ?thesis using Some \<open>ab = (a, b)\<close> by (simp add: lower_carry_def)
  qed (use assms(1) in \<open>simp add: lower_carry_def\<close>)
  have "carry_expr C = (case cast_carry Bvaddition_carry 64 (lower_carry C) of
      Some (a, b) \<Rightarrow> bvextract 64 64 (bvadd (bvextend 1 a) (bvextend 1 b)) | None \<Rightarrow> lower_carry C)"
    unfolding carry_expr_def lower_carry_def Let_def ..
  then show ?thesis using carry_bit_exact [OF _ wl plain(2)] low by (auto split: option.split)
qed

lemma sub_carry_exact:
  assumes "cast_carry Bvsubstraction_carry w C = Some (a, b)" "well 1 C" "bit_plain C"
  shows "same_array32 a b = None" "same_array64 a b = None" "well w a" "well w b"
    "bit1 \<rho> C \<longleftrightarrow> bveval \<rho> b \<le> bveval \<rho> a"
  using cast_carry_Some [OF assms(1)] cast_carry_parts [OF assms(1,2)] assms(3)
  by (auto simp: bit_plain_def bit1_def no_pointer_casts)

lemma carry_test_exact:
  assumes "eq_bv (carry_expr C) (bvconstant 1 (of_bool k)) = Some e" "well 1 C" "carry_plain C"
  shows "leval \<rho> e \<longleftrightarrow> bit1 \<rho> C = k"
proof -
  have "bveval \<rho> (bvconstant 1 (of_bool k)) = of_bool k" by (simp add: bveval_bvconstant del: One_nat_def)
  then show ?thesis using leval_eq_const [OF assms(1), of \<rho>] carry_expr_exact [OF assms(2,3), of \<rho>] bveval_bit1 [OF assms(2), of \<rho>]
    by auto
qed

lemma check_bcc_exact:
  assumes "check_bcc C = Some e" "well 1 C" "carry_plain C"
  shows "leval \<rho> e \<longleftrightarrow> \<not> bit1 \<rho> C"
proof -
  note sub = sub_carry_exact [OF _ assms(2)]
  have p: "bit_plain C" using assms(3) by (simp add: carry_plain_def)
  consider a b where "cast_carry Bvsubstraction_carry 32 C = Some (a, b)"
    | a b where "cast_carry Bvsubstraction_carry 32 C = None" "cast_carry Bvsubstraction_carry 64 C = Some (a, b)"
    | "cast_carry Bvsubstraction_carry 32 C = None" "cast_carry Bvsubstraction_carry 64 C = None" by fastforce
  then show ?thesis
  proof cases
    case (1 a b)
    then have "e = bvult a b" using assms(1) sub(1) [OF 1 p] by (simp add: check_bcc_def)
    then show ?thesis using cult.leval_cmp [OF sub(3,4) [OF 1 p]] sub(5) [OF 1 p] by auto
  next
    case (2 a b)
    then have "e = bvult a b" using assms(1) sub(2) [OF 2(2) p] by (simp add: check_bcc_def)
    then show ?thesis using cult.leval_cmp [OF sub(3,4) [OF 2(2) p]] sub(5) [OF 2(2) p] by auto
  next
    case 3
    then have "eq_bv (carry_expr C) (bvconstant 1 (of_bool False)) = Some e" using assms(1) by (simp add: check_bcc_def)
    then show ?thesis using carry_test_exact assms(2,3) by blast
  qed
qed

lemma check_bcs_exact:
  assumes "check_bcs C = Some e" "well 1 C" "carry_plain C"
  shows "leval \<rho> e \<longleftrightarrow> bit1 \<rho> C"
proof -
  note sub = sub_carry_exact [OF _ assms(2)]
  have p: "bit_plain C" using assms(3) by (simp add: carry_plain_def)
  consider a b where "cast_carry Bvsubstraction_carry 32 C = Some (a, b)"
    | a b where "cast_carry Bvsubstraction_carry 32 C = None" "cast_carry Bvsubstraction_carry 64 C = Some (a, b)"
    | "cast_carry Bvsubstraction_carry 32 C = None" "cast_carry Bvsubstraction_carry 64 C = None" by fastforce
  then show ?thesis
  proof cases
    case (1 a b)
    then have "e = bvuge a b" using assms(1) sub(1) [OF 1 p] by (simp add: check_bcs_def)
    then show ?thesis using cuge.leval_cmp [OF sub(3,4) [OF 1 p]] sub(5) [OF 1 p] by auto
  next
    case (2 a b)
    then have "e = bvuge a b" using assms(1) sub(2) [OF 2(2) p] by (simp add: check_bcs_def)
    then show ?thesis using cuge.leval_cmp [OF sub(3,4) [OF 2(2) p]] sub(5) [OF 2(2) p] by auto
  next
    case 3
    then have "eq_bv (carry_expr C) (bvconstant 1 (of_bool True)) = Some e" using assms(1) by (simp add: check_bcs_def)
    then show ?thesis using carry_test_exact [of C True] assms(2,3) by blast
  qed
qed

subsection \<open>Branches\<close>

theorem check_branch_exact:
  assumes "check_branch s f n = Some (e, m)" "exec_ok s" "represents \<rho> s c" "branch_exact s f"
  shows "leval \<rho> e \<longleftrightarrow> branch_cond f c"
proof -
  have known: "\<exists>e. get_flag s x = Some e" if "x \<in> set (branch_flags f)" for x
    using assms(4) that by (auto simp: branch_exact_def)
  have bit: "bit1 \<rho> e = cpu_flag c x" if "get_flag s x = Some e" for e x using assms(3) that by (simp add: represents_def)
  note nv = n_equals_v_exact [OF _ _ _ _ assms(2,3)] and fl = flag_is_exact [OF _ _ assms(2,3)]
  have exact: "bexact e" if "get_flag s N_flag = Some e" for e using assms(4) that by (simp add: branch_exact_def)
  have C: "\<exists>C. get_flag s C_flag = Some C \<and> carry_plain C \<and> well 1 C" if "C_flag \<in> set (branch_flags f)"
    using known [OF that] assms(4) get_flag_ok [OF _ assms(2)] by (auto simp: branch_exact_def)
  show ?thesis
  proof (cases f)
    case Bcc
    then obtain C where "get_flag s C_flag = Some C" "carry_plain C" "well 1 C" using C by auto
    then show ?thesis using assms(1) Bcc check_bcc_exact [of C e \<rho>] bit by (auto simp: read_flag_known bind_eq_Some_conv)
  next
    case Bcs
    then obtain C where "get_flag s C_flag = Some C" "carry_plain C" "well 1 C" using C by auto
    then show ?thesis using assms(1) Bcs check_bcs_exact [of C e \<rho>] bit by (auto simp: read_flag_known bind_eq_Some_conv)
  next
    case Beq
    then obtain z where "get_flag s Z_flag = Some z" using known by auto
    then show ?thesis using assms(1) Beq fl(1) [of Z_flag 1 n e m z True] by simp
  next
    case Bne
    then obtain z where "get_flag s Z_flag = Some z" using known by auto
    then show ?thesis using assms(1) Bne fl(1) [of Z_flag 0 n e m z False] by simp
  next
    case Bmi
    then obtain z where "get_flag s N_flag = Some z" using known by auto
    then show ?thesis using assms(1) Bmi fl(1) [of N_flag 1 n e m z True] by simp
  next
    case Bpl
    then obtain z where "get_flag s N_flag = Some z" using known by auto
    then show ?thesis using assms(1) Bpl fl(1) [of N_flag 0 n e m z False] by simp
  next
    case Bvs
    then obtain z where "get_flag s V_flag = Some z" using known by auto
    then show ?thesis using assms(1) Bvs fl(1) [of V_flag 1 n e m z True] by simp
  next
    case Bvc
    then obtain z where "get_flag s V_flag = Some z" using known by auto
    then show ?thesis using assms(1) Bvc fl(1) [of V_flag 0 n e m z False] by simp
  next
    case Bge
    then obtain x y where "get_flag s N_flag = Some x" "get_flag s V_flag = Some y" using known by fastforce
    then show ?thesis using assms(1) Bge nv(1) [of n e m x y] exact by simp
  next
    case Blt
    then obtain x y q where "get_flag s N_flag = Some x" "get_flag s V_flag = Some y" "n_equals_v s n = Some (q, m)" "e = isfalse q"
      using known assms(1) by (fastforce simp: bind_eq_Some_conv)
    then show ?thesis using Blt nv(1) [of n q m x y] exact isfalse_sound(2) [OF n_equals_v_ok [of s n q m]] assms(2) by simp
  next
    case Bgt
    then obtain x y z where fx: "get_flag s N_flag = Some x" "get_flag s V_flag = Some y" "get_flag s Z_flag = Some z" using known by fastforce
    from Bgt assms(1) obtain p q k where "flag_is s Z_flag 0 n = Some (p, k)" "n_equals_v s k = Some (q, m)" "e = land p q"
      by (auto simp: bind_eq_Some_conv)
    then show ?thesis using Bgt nv(1) [of k q m x y] fl(1) [of Z_flag 0 n p k z False] fx exact by (simp add: land_sound)
  next
    case Ble
    then obtain x y z where fx: "get_flag s N_flag = Some x" "get_flag s V_flag = Some y" "get_flag s Z_flag = Some z" using known by fastforce
    from Ble assms(1) obtain p q k where "flag_is s Z_flag 1 n = Some (p, k)" "n_equals_v s k = Some (q, m)" "e = lor p (isfalse q)"
      by (auto simp: bind_eq_Some_conv)
    then show ?thesis using Ble nv(1) [of k q m x y] fl(1) [of Z_flag 1 n p k z True] fx exact
        isfalse_sound(2) [OF n_equals_v_ok [of s k q m]] assms(2) by (simp add: lor_sound)
  qed
qed

subsection \<open>Comparing and branching\<close>

text \<open>What a branch means after the subtraction of its operands.\<close>

primrec compare :: "branch_op \<Rightarrow> u32 \<Rightarrow> u32 \<Rightarrow> bool" where
  "compare Bcc A B = (A < B)"
| "compare Bcs A B = (B \<le> A)"
| "compare Beq A B = (A = B)"
| "compare Bge A B = (sint B \<le> sint A)"
| "compare Bgt A B = (sint B < sint A)"
| "compare Ble A B = (sint A \<le> sint B)"
| "compare Blt A B = (sint A < sint B)"
| "compare Bmi A B = (sint (A - B) < 0)"
| "compare Bne A B = (A \<noteq> B)"
| "compare Bpl A B = (0 \<le> sint (A - B))"
| "compare Bvc A B = (\<not> overflows (sint A - sint B))"
| "compare Bvs A B = overflows (sint A - sint B)"

lemma set_codes_flags [simp]:
  "cpu_flag (set_codes w v k c) N_flag = (sint w < 0)" "cpu_flag (set_codes w v k c) Z_flag = (w = 0)"
  "cpu_flag (set_codes w v k c) V_flag = v" "cpu_flag (set_codes w v k c) C_flag = k"
  by (simp_all add: set_codes_def set_flag_def)

lemma minus_compares: "branch_cond f (alu_step d both Minus a b sc c) = compare f (src_word a c) (shift_word sc (src_word b c))"
proof -
  let ?A = "src_word a c" and ?B = "shift_word sc (src_word b c)"
  have lt: "(sint (?A - ?B) < 0) = overflows (sint ?A - sint ?B) \<longleftrightarrow> sint ?B \<le> sint ?A"
    using less_by_flags [of ?A ?B] unfolding bit31_sint by auto
  have eq: "?A = ?B \<longleftrightarrow> sint ?A = sint ?B" by (rule word_eq_iff_signed)
  show ?thesis by (cases f) (auto simp: alu_step_def alu_step_v_def Let_def lt eq)
qed


end
