(* ===== verification/Sat.thy ===== *)
theory Sat
  imports Exec_Typed Simplifier
begin

text \<open>
  What the assumptions and bounds of a state mean: \<open>exec::assume\<close> adds exactly the condition of
  the branch to the runs below the upper bound, \<open>exec::static_merge\<close> keeps every run of both states,
  and the upper bound is read in two ways.
\<close>

subsection \<open>Runs that a state admits\<close>

text \<open>The value of the minimized variable, a \<open>bvvariable<14>\<close>.\<close>

definition minimized :: "valuation \<Rightarrow> string \<Rightarrow> int" where
  "minimized \<rho> m = take_bit 14 (vars \<rho> m)"

text \<open>
  \<open>check_sat\<close> asserts both bounds inclusively.  \<open>exec::assume\<close> reads the upper bound as the first value
  that is too large: it decides the runs below the bound, and the run at the bound can get lost.
\<close>

definition in_bounds :: "valuation \<Rightarrow> exec \<Rightarrow> bool" where
  "in_bounds \<rho> s \<longleftrightarrow> (\<forall>m. minimize s = Some m \<longrightarrow>
     uint (min_value s) \<le> minimized \<rho> m \<and> minimized \<rho> m \<le> uint (max_value s))"

definition at_maximum :: "valuation \<Rightarrow> exec \<Rightarrow> bool" where
  "at_maximum \<rho> s \<longleftrightarrow> (\<exists>m. minimize s = Some m \<and> minimized \<rho> m = uint (max_value s))"

definition admits :: "valuation \<Rightarrow> exec \<Rightarrow> bool" where
  "admits \<rho> s \<longleftrightarrow> sat s \<noteq> Some False \<and> (\<forall>(e, i) \<in> set (assumptions s). leval \<rho> e) \<and> in_bounds \<rho> s"

lemma unsat_by_admits [simp]: "\<not> admits \<rho> (unsat_by i s)"
  by (simp add: admits_def unsat_by_def)

text \<open>The runs below the upper bound.\<close>

definition admits_below :: "valuation \<Rightarrow> exec \<Rightarrow> bool" where
  "admits_below \<rho> s \<longleftrightarrow> admits \<rho> s \<and> \<not> at_maximum \<rho> s"

lemma admits_below_iff:
  "admits_below \<rho> s \<longleftrightarrow> sat s \<noteq> Some False \<and> (\<forall>(e, i) \<in> set (assumptions s). leval \<rho> e)
     \<and> (\<forall>m. minimize s = Some m \<longrightarrow> uint (min_value s) \<le> minimized \<rho> m \<and> minimized \<rho> m < uint (max_value s))"
  by (cases "minimize s") (auto simp: admits_below_def admits_def in_bounds_def at_maximum_def)

lemma unsat_by_admits_below [simp]: "\<not> admits_below \<rho> (unsat_by i s)"
  by (simp add: admits_below_def)

lemma check_bounds_admits: "admits_below \<rho> (check_bounds i s) \<longleftrightarrow> admits_below \<rho> s" if "minimize s = Some m"
  using that by (auto simp: check_bounds_def admits_below_iff unsat_by_def word_le_def)

subsection \<open>Assuming a condition\<close>

lemma leq_sound: "lexact e \<Longrightarrow> leq e e' = Some True \<Longrightarrow> leval \<rho> e = leval \<rho> e'"
  using eq_sound_aux(1) by blast

lemma is_known_True: "is_known e as = Some True \<Longrightarrow> \<exists>(e', i) \<in> set as. leq e e' = Some True"
  by (induction e as rule: is_known.induct) (auto simp: bind_eq_Some_conv split: if_split_asm)

lemma beq_variable: "beq a (Bvvariable w m) = Some True \<Longrightarrow> a = Bvvariable w m"
  by (cases a) (auto split: if_split_asm)

lemma bound_of_Some:
  assumes "bound_of f m e = Some (Some v)" "lwt e"
  shows "leval \<rho> e = lcmp_eval f (minimized \<rho> m) (uint v)" "uint v < 2 ^ 14"
proof -
  obtain a b where e: "e = Comparison f a b" "width a = 14" "cast_constant b = Some v" "beq a (Bvvariable 14 m) = Some True"
    using assms(1) by (auto simp: bound_of_def split: lexpr.split_asm if_split_asm option.split_asm)
  obtain W where b: "b = Bitvector W v" using e(3) by (rule cast_constant_SomeE)
  have wb: "bwt b" "width b = 14" using assms(2) e by auto
  then have "bveval \<rho> b = uint v" "take_bit 14 (uint v) = uint v" using b bveval_const const_fits by auto
  then show "leval \<rho> e = lcmp_eval f (minimized \<rho> m) (uint v)" "uint v < 2 ^ 14"
    using beq_variable [OF e(4)] e(1) take_bit_bounds [of 14 "uint v"] by (simp_all add: minimized_def)
qed

lemma uint_narrow: "uint v < 2 ^ 14 \<Longrightarrow> uint (ucast v :: u32) = uint v" for v :: u64
proof -
  assume "uint v < 2 ^ 14"
  then have "take_bit 32 (uint v) = uint v" by (intro in_range_take_bit) auto
  then show ?thesis by (simp add: unsigned_ucast_eq)
qed

lemma uint_widen: "uint (ucast x :: u64) = uint x" for x :: u32
  by (simp add: uint_up_ucast is_up)

lemma assume_below:
  assumes "exec_assume (e, i) s = Some t" "lwt e" "lexact e"
  shows "admits_below \<rho> t \<longleftrightarrow> admits_below \<rho> s \<and> leval \<rho> e"
  using assms(1)
proof (cases rule: exec_assume_cases)
  case (trivial v)
  then show ?thesis by simp
next
  case known
  then show ?thesis using is_known_True leq_sound [OF assms(3)] by (fastforce simp: admits_below_iff)
next
  case (lower m v)
  note b = bound_of_Some(1) [OF lower(2) assms(2), of \<rho>] bound_of_Some(2) [OF lower(2) assms(2)]
  let ?s = "if ucast (min_value s) < v then s\<lparr>min_value := ucast v\<rparr> else s"
  have "admits_below \<rho> ?s \<longleftrightarrow> admits_below \<rho> s \<and> leval \<rho> e"
    using lower(1) b by (auto simp: admits_below_iff word_less_def uint_narrow uint_widen)
  moreover have "minimize ?s = Some m" using lower(1) by simp
  ultimately show ?thesis using lower(3) check_bounds_admits [of ?s m \<rho> i] by simp
next
  case (upper m v)
  note b = bound_of_Some(1) [OF upper(2) assms(2), of \<rho>] bound_of_Some(2) [OF upper(2) assms(2)]
  let ?s = "if v \<le> ucast (max_value s) then s\<lparr>max_value := ucast v\<rparr> else s"
  have "admits_below \<rho> ?s \<longleftrightarrow> admits_below \<rho> s \<and> leval \<rho> e"
    using upper(1) b by (auto simp: admits_below_iff word_le_def uint_narrow uint_widen)
  moreover have "minimize ?s = Some m" using upper(1) by simp
  ultimately show ?thesis using upper(3) check_bounds_admits [of ?s m \<rho> i] by simp
next
  case new
  then show ?thesis by (auto simp: admits_below_iff)
qed

text \<open>
  C8: after \<open>assume\<close> a state admits, apart from the run at its upper bound, exactly the runs below the
  upper bound that it admitted before and that satisfy the condition, also when the condition only moves
  a bound or is recognized as known.  The condition contains no rotation, whose amount is ignored when
  \<open>operator==\<close> looks for a known condition, and no concretely stored array (\<open>lexact\<close>).
\<close>

theorem assume_exact:
  assumes "exec_assume (e, i) s = Some t" "lwt e" "lexact e"
  shows "admits \<rho> t \<and> \<not> at_maximum \<rho> t \<longleftrightarrow> admits \<rho> s \<and> \<not> at_maximum \<rho> s \<and> leval \<rho> e"
proof -
  have "admits_below \<rho> t \<longleftrightarrow> admits_below \<rho> s \<and> leval \<rho> e" by (rule assume_below [OF assms])
  then show ?thesis by (simp add: admits_below_def)
qed

subsection \<open>The bounds as the solver sees them\<close>

text \<open>\<open>check_sat\<close> of both strategies asserts the bounds, the upper one inclusively.\<close>

definition bound_query :: "exec \<Rightarrow> assumption list" where
  "bound_query s = (case minimize s of
     None \<Rightarrow> []
   | Some m \<Rightarrow> [(bvuge (Bvvariable 14 m) (bvconstant 14 (ucast (min_value s))), ''min_value''),
               (bvule (Bvvariable 14 m) (bvconstant 14 (ucast (max_value s))), ''max_value'')])"

definition holds :: "valuation \<Rightarrow> assumption list \<Rightarrow> bool" where
  "holds \<rho> as \<longleftrightarrow> (\<forall>(e, i) \<in> set as. leval \<rho> e)"

lemma holds_append [simp]: "holds \<rho> (as @ bs) \<longleftrightarrow> holds \<rho> as \<and> holds \<rho> bs"
  by (auto simp: holds_def)

lemma well_minimized: "well 14 (Bvvariable 14 m)"
  by (simp add: well_def)

lemma uint_const14: "uint v < 2 ^ 14 \<Longrightarrow> bveval \<rho> (bvconstant 14 (ucast (v :: u32))) = uint v"
  by (simp add: bveval_bvconstant uint_widen in_range_take_bit)

lemma bound_query_holds:
  assumes "minimize s = Some m" "uint (min_value s) < 2 ^ 14" "uint (max_value s) < 2 ^ 14"
  shows "holds \<rho> (bound_query s) \<longleftrightarrow> uint (min_value s) \<le> minimized \<rho> m \<and> minimized \<rho> m \<le> uint (max_value s)"
  using cuge.leval_cmp [OF well_minimized well_const] cule.leval_cmp [OF well_minimized well_const] assms
  by (auto simp: holds_def bound_query_def uint_widen in_range_take_bit minimized_def)

text \<open>
  The upper bound is exclusive for \<open>assume\<close> and inclusive for the solver.  A comparison with the
  bound itself is declared unsatisfiable although it holds within the bounds of the solver: a packet
  of the maximal size is lost.
\<close>

theorem assume_drops_maximum:
  assumes s: "minimize s = Some m" "min_value s < max_value s" "uint (max_value s) < 2 ^ 14"
    and new: "is_known e (assumptions s) = Some False"
    and e: "e = Comparison Bvugecomparison (Bvvariable 14 m) (bvconstant 14 (ucast (max_value s)))"
    and \<rho>: "minimized \<rho> m = uint (max_value s)"
  shows "(\<exists>t. exec_assume (e, i) s = Some t \<and> sat t = Some False) \<and> leval \<rho> e \<and> holds \<rho> (bound_query s)"
proof -
  have mx: "ucast (ucast (max_value s) :: u64) = max_value s" by (rule ucast_ucast_u32)
  have c: "bvconstant 14 (ucast (max_value s)) = Bitvector 14 (ucast (max_value s))"
    using s(3) uint_and_lowmask [of "ucast (max_value s)" 14]
    by (simp add: bvconstant_def word_uint_eq_iff uint_widen in_range_take_bit)
  have b: "bound_of Bvugecomparison m e = Some (Some (ucast (max_value s)))"
    by (simp add: bound_of_def e c)
  have "ucast (min_value s) < (ucast (max_value s) :: u64)" using s(2) by (simp add: word_less_def uint_widen)
  then have "exec_assume (e, i) s = Some (check_bounds i (s\<lparr>min_value := max_value s\<rparr>))"
    using new b s(1) exec_assume_unknown [of e i s] by (simp add: assume_new_def e mx)
  then have "\<exists>t. exec_assume (e, i) s = Some t \<and> sat t = Some False" by (simp add: check_bounds_def unsat_by_def)
  moreover have "leval \<rho> e" using \<rho> s(3) by (simp add: e uint_widen in_range_take_bit minimized_def)
  moreover have "uint (min_value s) < 2 ^ 14" using s(2,3) by (simp add: word_less_def)
  then have "holds \<rho> (bound_query s)" using bound_query_holds [OF s(1) _ s(3), of \<rho>] \<rho> s(2) by (simp add: word_less_def)
  ultimately show ?thesis by blast
qed

subsection \<open>Merging\<close>

lemma merge_assumptions_common:
  "merge_assumptions as bs = Some cs \<Longrightarrow> (e, i) \<in> set cs \<Longrightarrow> (e, i) \<in> set as \<and> (\<exists>(e', i') \<in> set bs. leq e e' = Some True)"
proof (induction as arbitrary: cs)
  case (Cons a as)
  obtain d j where a: "a = (d, j)" by (cases a)
  obtain ts r where ts: "those (map (\<lambda>(e', i'). leq d e') bs) = Some ts" and r: "merge_assumptions as bs = Some r"
    and cs: "cs = map (\<lambda>_. (d, j)) (filter (\<lambda>t. t) ts) @ r"
    using Cons.prems(1) unfolding a by (auto simp: bind_eq_Some_conv)
  have those: "those (map f xs) = Some ys \<Longrightarrow> True \<in> set ys \<Longrightarrow> \<exists>x \<in> set xs. f x = Some True" for f :: "assumption \<Rightarrow> bool option" and xs ys
    by (induction xs arbitrary: ys) (auto split: option.split_asm)
  show ?case
  proof (cases "(e, i) \<in> set r")
    case True
    then show ?thesis using Cons.IH [OF r] by simp
  next
    case False
    then have "(e, i) = (d, j)" "True \<in> set ts" using Cons.prems(2) cs by auto
    then show ?thesis using those [OF ts] a by auto
  qed
qed simp

lemma undef_defered_keeps:
  "undef_defered ds s n = Some (t, m) \<Longrightarrow> \<forall>(c, u) \<in> set ds. is_reg u \<Longrightarrow> assumptions t = assumptions s \<and> sat t = sat s \<and> minimize t = minimize s"
proof (induction ds s n rule: undef_defered.induct)
  case (2 c u ds s n)
  then obtain d e where "u = Reg d e" by (cases u) auto
  then show ?case using 2 by (auto simp: fresh_def)
qed simp

text \<open>
  C9: the merge of two states admits every run that one of them admits, the bounds included: joining paths
  loses nothing, as long as the assumptions of the first state contain no rotation, whose amount
  \<open>operator==\<close> ignores when it looks for common assumptions, and no concretely stored array (\<open>lexact\<close>).
\<close>

theorem static_merge_admits:
  assumes "static_merge a b n = Some (t, m)" "exec_ok a" "exec_ok b" "\<forall>(e, i) \<in> set (assumptions a). lexact e"
    and "admits \<rho> a \<or> admits \<rho> b"
  shows "admits \<rho> t"
  using assms(1)
proof (cases rule: static_merge_parts)
  case (1 as rs fs m8 m32 s)
  have "\<forall>(c, u) \<in> set (defered a @ defered b). is_reg u" using exec_ok_parts(5) assms(2,3) by auto
  from undef_defered_keeps [OF 1(6) this] have s: "assumptions s = as" "sat s = None" "minimize s = None" by (auto simp: merge_base_def)
  have "leval \<rho> e" if ei: "(e, i) \<in> set as" for e i
  proof -
    obtain e' i' where e: "(e, i) \<in> set (assumptions a)" "(e', i') \<in> set (assumptions b)" "leq e e' = Some True"
      using merge_assumptions_common [OF 1(1) ei] by auto
    then have "leval \<rho> e = leval \<rho> e'" using leq_sound assms(4) by blast
    then show ?thesis using e assms(5) by (auto simp: admits_def)
  qed
  moreover have "sat t \<noteq> Some False" using s(2) assms(5) by (auto simp: 1(7) Let_def admits_def)
  moreover have "in_bounds \<rho> t" using assms(5) s(3)
    by (auto simp: 1(7) Let_def in_bounds_def admits_def min_def max_def word_le_def)
  moreover have "assumptions t = as" using s(1) by (simp add: 1(7) Let_def)
  ultimately show ?thesis by (auto simp: admits_def)
qed

end
