(* ===== verification/Strategy.thy ===== *)
theory Strategy
  imports Sat
begin

text \<open>
  The two strategies of \<open>state::sat_strategy\<close>.  The solver itself (a z3 process behind a pipe,
  \<open>sat_checker.cpp\<close>) is a parameter: given the variable to minimize and the asserted formulas it
  answers.  The formulas are what the strategy has asserted on its
  stack; the sharing of subexpressions in their text (\<open>expr::defs\<close>) is not modelled.
\<close>

subsection \<open>The solver\<close>

text \<open>
  \<open>sat_checker::check_sat\<close> reads lines until \<open>sat\<close>, for which the model is asked next, or \<open>unsat\<close>.  A
  line with \<open>(error\<close> is thrown: \<open>unsat_core\<close> prints it and exits, nothing catches it in \<open>incremental\<close>.
  After any other line, such as \<open>unknown\<close>, it reads on, for ever if nothing follows.  A strategy that does
  not return for one of these reasons is \<open>None\<close>.
\<close>

datatype answer = Sat_model model | Unsat | No_answer

type_synonym solver = "string option \<Rightarrow> lexpr list \<Rightarrow> answer"

text \<open>
  The documented behaviour of z3, which need not answer: \<open>unsat\<close> only for formulas that are
  unsatisfiable, \<open>sat\<close> only for formulas that are satisfiable, and then a model of the smallest value of
  the minimized variable, if there is one.
\<close>

definition solver_ok :: "solver \<Rightarrow> bool" where
  "solver_ok z3 \<longleftrightarrow> (\<forall>m fs. case z3 m fs of
     No_answer \<Rightarrow> True
   | Unsat \<Rightarrow> \<not> (\<exists>\<rho>. \<forall>f \<in> set fs. leval \<rho> f)
   | Sat_model mo \<Rightarrow> (\<exists>\<rho>. \<forall>f \<in> set fs. leval \<rho> f)
       \<and> (\<forall>x v. m = Some x \<longrightarrow> get_value mo x = Some v \<longrightarrow>
            uint v < 2 ^ 14 \<and> (\<forall>\<rho>. (\<forall>f \<in> set fs. leval \<rho> f) \<longrightarrow> uint v \<le> minimized \<rho> x)))"

lemma solver_okD:
  assumes "solver_ok z3"
  shows "case z3 m fs of
     No_answer \<Rightarrow> True
   | Unsat \<Rightarrow> \<not> (\<exists>\<rho>. \<forall>f \<in> set fs. leval \<rho> f)
   | Sat_model mo \<Rightarrow> (\<exists>\<rho>. \<forall>f \<in> set fs. leval \<rho> f)
       \<and> (\<forall>x v. m = Some x \<longrightarrow> get_value mo x = Some v \<longrightarrow>
            uint v < 2 ^ 14 \<and> (\<forall>\<rho>. (\<forall>f \<in> set fs. leval \<rho> f) \<longrightarrow> uint v \<le> minimized \<rho> x))"
  by (rule assms [unfolded solver_ok_def, rule_format])

lemma solver_unsat: "solver_ok z3 \<Longrightarrow> z3 m fs = Unsat \<Longrightarrow> \<not> (\<exists>\<rho>. \<forall>f \<in> set fs. leval \<rho> f)"
  by (drule solver_okD [where fs = fs and m = m]) simp

lemma solver_sat: "solver_ok z3 \<Longrightarrow> z3 m fs = Sat_model mo \<Longrightarrow> \<exists>\<rho>. \<forall>f \<in> set fs. leval \<rho> f"
  by (drule solver_okD [where fs = fs and m = m]) simp

lemma solver_minimal:
  "solver_ok z3 \<Longrightarrow> z3 (Some x) fs = Sat_model mo \<Longrightarrow> get_value mo x = Some v \<Longrightarrow> \<forall>f \<in> set fs. leval \<rho> f \<Longrightarrow>
     uint v < 2 ^ 14 \<and> uint v \<le> minimized \<rho> x"
  by (drule solver_okD [where fs = fs and m = "Some x"]) simp

subsection \<open>One query at a time\<close>

text \<open>
  \<open>unsat_core::check_sat\<close>.  Unsatisfiable cores are the solver's, asked for if the caller wants
  the shortest unsatisfiable prefix; otherwise the last assumption is blamed.
\<close>

definition core_strategy :: "solver \<Rightarrow> (lexpr list \<Rightarrow> string list) \<Rightarrow> unit strategy" where
  "core_strategy z3 core c s as minimize_unsat_prefix =
     (let fs = map fst (bound_query s @ as)
      in case z3 (minimize s) fs of
           No_answer \<Rightarrow> None
         | Sat_model m \<Rightarrow> Some (Sat_result m, ())
         | Unsat \<Rightarrow>
             if minimize_unsat_prefix then Some (Unsat_result (core fs), ())
             else if as = [] then None
             else Some (Unsat_result [snd (last as)], ()))"

subsection \<open>Incremental queries\<close>

text \<open>
  \<open>incremental\<close> keeps the assumptions that are asserted (\<open>stack\<close>), one scope of the solver for
  each (\<open>scopes\<close>), and the last model.
\<close>

record incremental =
  inc_minimize :: "string option"
  inc_model :: "model option"
  stack :: "assumption list"
  scopes :: "lexpr list"

definition start_incremental :: incremental where
  "start_incremental = \<lparr>inc_minimize = None, inc_model = None, stack = [], scopes = []\<rparr>"

text \<open>
  The loop over the assumptions.  \<open>k\<close> is the position of \<open>si\<close> on the stack; from the first
  assumption that differs on, the rest of the stack is popped and every assumption is pushed and
  checked at once.  The result is the stack, the position and whether a check has failed.
\<close>

definition push_assumption :: "nat \<Rightarrow> assumption \<Rightarrow> incremental \<Rightarrow> incremental" where
  "push_assumption k a st = st\<lparr>stack := take k (stack st) @ [a], scopes := take k (scopes st) @ [fst a]\<rparr>"

fun inc_loop :: "solver \<Rightarrow> assumption list \<Rightarrow> nat \<Rightarrow> incremental \<Rightarrow> (incremental \<times> nat \<times> bool) option" where
  "inc_loop z3 [] k st = Some (st, k, False)"
| "inc_loop z3 (a # as) k st = do {
     same \<leftarrow> (if k < length (stack st) then leq (fst a) (fst (stack st ! k)) else Some False);
     if same then inc_loop z3 as (Suc k) st
     else let st = push_assumption k a st
          in case z3 (inc_minimize st) (scopes st) of
               No_answer \<Rightarrow> None
             | Unsat \<Rightarrow> Some (st, Suc k, True)
             | Sat_model m \<Rightarrow> inc_loop z3 as (Suc k) st
   }"

definition inc_unsat :: "incremental \<Rightarrow> sat_result \<times> incremental" where
  "inc_unsat st = (Unsat_result (map snd (stack st)), st\<lparr>inc_model := None\<rparr>)"

definition inc_finish :: "solver \<Rightarrow> incremental \<Rightarrow> (sat_result \<times> incremental) option" where
  "inc_finish z3 st = (case z3 (inc_minimize st) (scopes st) of
     No_answer \<Rightarrow> None
   | Sat_model m \<Rightarrow> Some (Sat_result m, st\<lparr>inc_model := Some m\<rparr>)
   | Unsat \<Rightarrow> Some (inc_unsat st))"

text \<open>
  A change of the minimized variable resets the solver and then declares the new variable; if
  there is none, a null pointer is followed (\<open>None\<close>).  The code compares the pointers to the
  variables, the model their names.  All states of an analysis share the variable that its one call of
  \<open>cfg::initial_state\<close> creates, so that these agree; at the first query of another analysis, whose
  variable is another object of the same name, the code also resets the solver.
\<close>

definition inc_reset :: "exec \<Rightarrow> incremental \<Rightarrow> incremental option" where
  "inc_reset s st =
     (if inc_minimize st = minimize s then Some st
      else if minimize s = None then None
      else Some (st\<lparr>stack := [], scopes := [], inc_minimize := minimize s\<rparr>))"

definition incremental_strategy :: "solver \<Rightarrow> incremental strategy" where
  "incremental_strategy z3 st s as minimize_unsat_prefix = do {
     st \<leftarrow> inc_reset s st;
     (st, k, failed) \<leftarrow> inc_loop z3 (as @ bound_query s) 0 st;
     (if failed then Some (inc_unsat st)
      else if k < length (stack st) then
        (case inc_model st of
           Some m \<Rightarrow> Some (Sat_result m, st)
         | None \<Rightarrow> inc_finish z3 (st\<lparr>stack := take k (stack st), scopes := take k (scopes st)\<rparr>))
      else inc_finish z3 st)
   }"

subsection \<open>The stack of the solver\<close>

text \<open>
  The solver has asserted what the stack says, and a model that is kept is a model of all of it.
\<close>

definition inc_inv :: "solver \<Rightarrow> incremental \<Rightarrow> bool" where
  "inc_inv z3 st \<longleftrightarrow> scopes st = map fst (stack st)
     \<and> (\<forall>m. inc_model st = Some m \<longrightarrow> stack st \<noteq> [] \<longrightarrow> z3 (inc_minimize st) (scopes st) = Sat_model m)"

lemma start_inv: "inc_inv z3 start_incremental"
  by (simp add: inc_inv_def start_incremental_def)

lemma inc_loop_scopes:
  "inc_loop z3 as k st = Some (t, j, f) \<Longrightarrow> scopes st = map fst (stack st) \<Longrightarrow> k \<le> length (stack st) \<Longrightarrow>
     scopes t = map fst (stack t) \<and> inc_minimize t = inc_minimize st \<and> j \<le> length (stack t)"
proof (induction z3 as k st rule: inc_loop.induct)
  case (2 z3 a as k st)
  let ?st = "push_assumption k a st"
  obtain same where same: "(if k < length (stack st) then leq (fst a) (fst (stack st ! k)) else Some False) = Some same"
    using "2.prems"(1) by (auto simp: bind_eq_Some_conv)
  have p: "scopes ?st = map fst (stack ?st)" "Suc k \<le> length (stack ?st)" "inc_minimize ?st = inc_minimize st"
    using "2.prems"(2,3) by (simp_all add: push_assumption_def take_map)
  show ?case
  proof (cases same)
    case True
    then have "k < length (stack st)" using same by (auto split: if_split_asm)
    then show ?thesis using "2.IH"(1) [OF same True] "2.prems" same True by simp
  next
    case False
    then show ?thesis using "2.IH"(2) [OF same False refl] "2.prems"(1) same p by (auto simp: Let_def split: answer.split_asm)
  qed
qed auto

lemma inc_loop_at_end: "inc_loop z3 as k st = Some (t, j, f) \<Longrightarrow> k = length (stack st) \<Longrightarrow> j = length (stack t)"
  by (induction z3 as k st rule: inc_loop.induct)
    (auto simp: Let_def push_assumption_def bind_eq_Some_conv split: if_split_asm answer.split_asm)

text \<open>
  Position by position the stack has assumptions of the same meaning as those of the query: it may
  hold one that an earlier path has made, if the two are equal.
\<close>

definition agrees :: "lexpr list \<Rightarrow> assumption list \<Rightarrow> bool" where
  "agrees fs as \<longleftrightarrow> list_all2 (\<lambda>f a. \<forall>\<rho>. leval \<rho> f = leval \<rho> (fst a)) fs as"

lemma agrees_holds: "agrees fs as \<Longrightarrow> (\<forall>f \<in> set fs. leval \<rho> f) \<longleftrightarrow> holds \<rho> as"
  unfolding agrees_def holds_def by (induction rule: list_all2_induct) auto

lemma agrees_snoc: "agrees fs as \<Longrightarrow> \<forall>\<rho>. leval \<rho> f = leval \<rho> (fst a) \<Longrightarrow> agrees (fs @ [f]) (as @ [a])"
  by (simp add: agrees_def list_all2_appendI)

lemma agrees_Nil: "agrees [] []"
  by (simp add: agrees_def)

lemma inc_loop_agrees:
  assumes "inc_loop z3 as k st = Some (t, j, failed)" "scopes st = map fst (stack st)" "k \<le> length (stack st)"
    and "agrees (take k (scopes st)) done" "\<forall>a \<in> set as. lexact (fst a)"
  shows "if failed then z3 (inc_minimize t) (scopes t) = Unsat \<and> (\<exists>n. agrees (scopes t) (done @ take n as))
         else agrees (take j (scopes t)) (done @ as) \<and> (j < length (stack t) \<longrightarrow> t = st)"
  using assms
proof (induction z3 as k st arbitrary: "done" rule: inc_loop.induct)
  case (2 z3 a as k st)
  let ?st = "push_assumption k a st"
  obtain same where same: "(if k < length (stack st) then leq (fst a) (fst (stack st ! k)) else Some False) = Some same"
    using "2.prems"(1) by (auto simp: bind_eq_Some_conv)
  have shift: "done @ take (Suc n) (a # as) = (done @ [a]) @ take n as" for n by simp
  show ?case
  proof (cases same)
    case True
    then have k: "k < length (stack st)" "leq (fst a) (fst (stack st ! k)) = Some True" using same by (auto split: if_split_asm)
    then have "\<forall>\<rho>. leval \<rho> (scopes st ! k) = leval \<rho> (fst a)" using leq_sound "2.prems"(2,5) by simp
    then have "agrees (take (Suc k) (scopes st)) (done @ [a])"
      using k(1) "2.prems"(2) agrees_snoc [OF "2.prems"(4)] by (simp add: take_Suc_conv_app_nth)
    from "2.IH"(1) [OF same True _ "2.prems"(2) _ this]
    have r: "if failed then z3 (inc_minimize t) (scopes t) = Unsat \<and> (\<exists>n. agrees (scopes t) ((done @ [a]) @ take n as))
         else agrees (take j (scopes t)) ((done @ [a]) @ as) \<and> (j < length (stack t) \<longrightarrow> t = st)"
      using "2.prems"(1,5) same True k(1) by simp
    show ?thesis
    proof (cases failed)
      case True
      then show ?thesis using r shift by (simp only: if_True) metis
    qed (use r in simp)
  next
    case False
    have sc: "scopes ?st = map fst (stack ?st)" "length (stack ?st) = Suc k" "length (scopes ?st) = Suc k"
      using "2.prems"(2,3) by (simp_all add: push_assumption_def take_map)
    have ag: "agrees (scopes ?st) (done @ [a])"
      using agrees_snoc [OF "2.prems"(4)] by (simp add: push_assumption_def)
    show ?thesis
    proof (cases "z3 (inc_minimize ?st) (scopes ?st)")
      case No_answer
      then show ?thesis using "2.prems"(1) same False by (simp add: Let_def)
    next
      case Unsat
      then have "t = ?st" "failed" using "2.prems"(1) same False by (auto simp: Let_def)
      then show ?thesis using Unsat ag shift [of 0] by (simp only: if_True) (metis append_Nil2 take_0)
    next
      case sat: (Sat_model m)
      then have r': "inc_loop z3 as (Suc k) ?st = Some (t, j, failed)" using "2.prems"(1) same False sat by (auto simp: Let_def)
      have "agrees (take (Suc k) (scopes ?st)) (done @ [a])" using ag sc(3) by simp
      from "2.IH"(2) [OF same False refl sat r' sc(1) _ this]
      have r: "if failed then z3 (inc_minimize t) (scopes t) = Unsat \<and> (\<exists>n. agrees (scopes t) ((done @ [a]) @ take n as))
           else agrees (take j (scopes t)) ((done @ [a]) @ as) \<and> (j < length (stack t) \<longrightarrow> t = ?st)"
        using "2.prems"(5) sc(2) by simp
      have j: "j = length (stack t)" by (rule inc_loop_at_end [OF r' sc(2) [symmetric]])
      show ?thesis
      proof (cases failed)
        case True
        then show ?thesis using r shift by (simp only: if_True) metis
      qed (use r j in simp)
    qed
  qed
qed (auto simp: agrees_def)

subsection \<open>The answer\<close>

lemma exact_bound_query: "\<forall>a \<in> set (bound_query s). lexact (fst a)"
  by (auto simp: bound_query_def bvuge.simps bvuge_rule_def BVUGEConcatConstant_def bvule_def bvconstant_def Let_def split: option.split)

text \<open>
  The invariant is kept, and the answer is that the query can hold if and only if it can: both
  for a query of which a part is on the stack and for a shorter one, for which the model of the
  stack is given again.
\<close>

lemma inc_unsat_inv: "scopes st = map fst (stack st) \<Longrightarrow> inc_inv z3 (snd (inc_unsat st))"
  by (simp add: inc_unsat_def inc_inv_def)

lemma inc_finish_inv: "inc_finish z3 st = Some (r, t) \<Longrightarrow> scopes st = map fst (stack st) \<Longrightarrow> inc_inv z3 t"
  using inc_unsat_inv [of st z3] by (auto simp: inc_finish_def inc_inv_def split: answer.split_asm)

lemma inc_finish_answer:
  assumes "inc_finish z3 st = Some (r, t)" "solver_ok z3" "agrees (scopes st) as"
  shows "(\<exists>m. r = Sat_result m) \<longleftrightarrow> (\<exists>\<rho>. holds \<rho> as)"
  using assms(1) solver_unsat [OF assms(2), of "inc_minimize st" "scopes st"]
    solver_sat [OF assms(2), of "inc_minimize st" "scopes st"] agrees_holds [OF assms(3)]
  by (auto simp: inc_finish_def inc_unsat_def split: answer.split_asm)

lemma incremental_cases:
  assumes "incremental_strategy z3 st s as b = Some (r, st')" "inc_inv z3 st" "\<forall>a \<in> set as. lexact (fst a)"
  obtains (failed) t n where "scopes t = map fst (stack t)" "z3 (inc_minimize t) (scopes t) = Unsat"
      "agrees (scopes t) (take n (as @ bound_query s))" "(r, st') = inc_unsat t"
  | (kept) m n where "inc_inv z3 st'" "z3 (inc_minimize st') (scopes st') = Sat_model m" "r = Sat_result m"
      "agrees (take n (scopes st')) (as @ bound_query s)"
  | (finished) t where "scopes t = map fst (stack t)" "inc_minimize t = minimize s"
      "agrees (scopes t) (as @ bound_query s)" "inc_finish z3 t = Some (r, st')"
proof -
  obtain u where u: "inc_reset s st = Some u" using assms(1) by (auto simp: incremental_strategy_def bind_eq_Some_conv)
  have inv: "inc_inv z3 u" "inc_minimize u = minimize s" using u assms(2) by (auto simp: inc_reset_def inc_inv_def split: if_split_asm)
  then have sc: "scopes u = map fst (stack u)" by (simp add: inc_inv_def)
  obtain t k f where loop: "inc_loop z3 (as @ bound_query s) 0 u = Some (t, k, f)"
    using assms(1) u by (auto simp: incremental_strategy_def bind_eq_Some_conv)
  have t: "scopes t = map fst (stack t)" "inc_minimize t = minimize s" "k \<le> length (stack t)"
    using inc_loop_scopes [OF loop sc] inv(2) by simp_all
  have ex: "\<forall>a \<in> set (as @ bound_query s). lexact (fst a)" using assms(3) exact_bound_query by auto
  have ag: "if f then z3 (inc_minimize t) (scopes t) = Unsat \<and> (\<exists>n. agrees (scopes t) ([] @ take n (as @ bound_query s)))
         else agrees (take k (scopes t)) ([] @ as @ bound_query s) \<and> (k < length (stack t) \<longrightarrow> t = u)"
    by (rule inc_loop_agrees [OF loop sc _ _ ex]) (simp_all add: agrees_def)
  have res: "Some (r, st') = (if f then Some (inc_unsat t)
           else if k < length (stack t) then
             (case inc_model t of
                Some m \<Rightarrow> Some (Sat_result m, t)
              | None \<Rightarrow> inc_finish z3 (t\<lparr>stack := take k (stack t), scopes := take k (scopes t)\<rparr>))
           else inc_finish z3 t)"
    using assms(1) u loop by (simp add: incremental_strategy_def)
  show ?thesis
  proof (cases f)
    case True
    then show ?thesis using failed t(1) ag res by auto
  next
    case False
    show ?thesis
    proof (cases "k < length (stack t)")
      case short: True
      then have tu: "t = u" "stack t \<noteq> []" using ag False by auto
      show ?thesis
      proof (cases "inc_model t")
        case None
        show ?thesis
          by (rule finished [of "t\<lparr>stack := take k (stack t), scopes := take k (scopes t)\<rparr>"])
            (use None short False ag res t in \<open>auto simp: take_map\<close>)
      next
        case (Some m)
        have "\<forall>m. inc_model t = Some m \<longrightarrow> stack t \<noteq> [] \<longrightarrow> z3 (inc_minimize t) (scopes t) = Sat_model m"
          using inv(1) unfolding tu(1) inc_inv_def by blast
        then have "z3 (inc_minimize t) (scopes t) = Sat_model m" using Some tu(2) by blast
        moreover have "st' = t" "r = Sat_result m" using res False short Some by simp_all
        moreover have "agrees (take k (scopes t)) (as @ bound_query s)" using ag False by simp
        moreover have "inc_inv z3 t" using inv(1) tu(1) by (simp only:)
        ultimately show ?thesis using kept [of m k] by (simp only:)
      qed
    next
      case False': False
      then have "take k (scopes t) = scopes t" using t(1,3) by simp
      then show ?thesis using finished [of t] t ag False False' res by simp
    qed
  qed
qed

text \<open>
  Between queries the solver has asserted exactly the assumptions on the stack, and a model that is
  kept is a model of all of them.
\<close>

theorem incremental_inv:
  assumes "incremental_strategy z3 st s as b = Some (r, st')" "inc_inv z3 st" "\<forall>a \<in> set as. lexact (fst a)"
  shows "inc_inv z3 st'"
  using assms
proof (cases rule: incremental_cases)
  case (failed t n)
  then show ?thesis using inc_unsat_inv [of t z3] by (metis snd_conv)
next
  case (finished t)
  then show ?thesis using inc_finish_inv by blast
qed

theorem incremental_answer:
  assumes "incremental_strategy z3 st s as b = Some (r, st')" "inc_inv z3 st" "\<forall>a \<in> set as. lexact (fst a)"
    and ok: "solver_ok z3"
  shows "(\<exists>m. r = Sat_result m) \<longleftrightarrow> (\<exists>\<rho>. holds \<rho> (as @ bound_query s))"
  using assms(1-3)
proof (cases rule: incremental_cases)
  case (failed t n)
  have "\<not> holds \<rho> (take n (as @ bound_query s))" for \<rho>
    using solver_unsat [OF ok failed(2)] agrees_holds [OF failed(3)] by metis
  then have "\<not> holds \<rho> (as @ bound_query s)" for \<rho>
    using holds_append [of \<rho> "take n (as @ bound_query s)" "drop n (as @ bound_query s)"] by (simp del: holds_append take_append drop_append)
  then show ?thesis using failed(4) by (simp add: inc_unsat_def)
next
  case (kept m n)
  then have "\<exists>\<rho>. \<forall>f \<in> set (scopes st'). leval \<rho> f" using solver_sat [OF ok] by blast
  then have "\<exists>\<rho>. \<forall>f \<in> set (take n (scopes st')). leval \<rho> f" by (meson in_set_takeD)
  then show ?thesis using kept(3) agrees_holds [OF kept(4)] by blast
next
  case (finished t)
  then show ?thesis using inc_finish_answer [OF finished(4) ok finished(3)] by blast
qed

subsection \<open>The verdict of \<open>exec::check_sat\<close>\<close>

lemma set_query: "set (map fst (bs @ as)) = fst ` set bs \<union> fst ` set as"
  by auto

lemma core_answer:
  assumes "core_strategy z3 core c s as b = Some (r, c')" "solver_ok z3"
  shows "(\<exists>m. r = Sat_result m) \<longleftrightarrow> (\<exists>\<rho>. holds \<rho> (as @ bound_query s))"
    and "r = Sat_result m \<Longrightarrow> z3 (minimize s) (map fst (bound_query s @ as)) = Sat_model m"
proof -
  have "(\<forall>f \<in> set (map fst (bound_query s @ as)). leval \<rho> f) \<longleftrightarrow> holds \<rho> (as @ bound_query s)" for \<rho>
    unfolding set_query by (simp add: holds_def split_beta) blast
  then have "z3 (minimize s) (map fst (bound_query s @ as)) = Unsat \<Longrightarrow> \<not> (\<exists>\<rho>. holds \<rho> (as @ bound_query s))"
    "z3 (minimize s) (map fst (bound_query s @ as)) = Sat_model mo \<Longrightarrow> \<exists>\<rho>. holds \<rho> (as @ bound_query s)" for mo
    using solver_unsat [OF assms(2)] solver_sat [OF assms(2)] by blast+
  then show "(\<exists>m. r = Sat_result m) \<longleftrightarrow> (\<exists>\<rho>. holds \<rho> (as @ bound_query s))"
    and "r = Sat_result m \<Longrightarrow> z3 (minimize s) (map fst (bound_query s @ as)) = Sat_model m"
    using assms(1) by (auto simp: core_strategy_def Let_def split: answer.split_asm if_split_asm)
qed

lemma check_sat_result:
  assumes "check_sat_on strategy as b s c = Some (v, t, c')" "sat s = None" "as \<noteq> []"
  obtains r where "strategy c s as b = Some (r, c')" "t = record_result r s" "v \<longleftrightarrow> (\<exists>m. r = Sat_result m)"
    "sat t = Some v"
proof -
  obtain r where r: "strategy c s as b = Some (r, c')" "t = record_result r s" "sat t = Some v"
    using assms by (auto simp: check_sat_on_def bind_eq_Some_conv Let_def)
  then have "v \<longleftrightarrow> (\<exists>m. r = Sat_result m)"
    by (cases r) (auto simp: record_result_def Let_def split: option.split_asm if_split_asm)
  with r show thesis using that by blast
qed

text \<open>
  C14: when the solver answers, \<open>check_sat\<close> with the strategy that asks one query at a time is true if and only if a run
  satisfies the assumptions and the bounds.
\<close>

theorem check_sat_core:
  assumes "check_sat_on (core_strategy z3 core) as b s c = Some (v, t, c')" "sat s = None" "as \<noteq> []" "solver_ok z3"
  shows "v \<longleftrightarrow> (\<exists>\<rho>. holds \<rho> (as @ bound_query s))"
  using assms(1-3) by (rule check_sat_result) (use core_answer(1) assms(4) in blast)

text \<open>
  C15: when the solver answers, the incremental strategy, which keeps the common prefix of successive queries on the stack of the
  solver, gives the same verdict, as long as the assumptions of the query contain no rotation, whose
  amount \<open>operator==\<close> ignores when it compares with the stack, and no concretely stored array
  (\<open>lexact\<close>).
\<close>

theorem check_sat_incremental:
  assumes "check_sat_on (incremental_strategy z3) as b s c = Some (v, t, c')" "sat s = None" "as \<noteq> []" "solver_ok z3"
    and "inc_inv z3 c" "\<forall>a \<in> set as. lexact (fst a)"
  shows "v \<longleftrightarrow> (\<exists>\<rho>. holds \<rho> (as @ bound_query s))"
  using assms(1-3) by (rule check_sat_result) (use incremental_answer assms(4-) in blast)

text \<open>
  C16: in the strategy that asks one query at a time the lower bound only grows, and never beyond the value of the minimized variable in a run that
  satisfies the query.
\<close>

theorem check_sat_lower_bound:
  assumes "check_sat_on (core_strategy z3 core) as b s c = Some (v, t, c')" "sat s = None" "as \<noteq> []" "solver_ok z3"
    and m: "minimize s = Some m" "uint (min_value s) < 2 ^ 14" "uint (max_value s) < 2 ^ 14"
    and \<rho>: "holds \<rho> (as @ bound_query s)"
  shows "min_value s \<le> min_value t \<and> uint (min_value t) \<le> minimized \<rho> m"
  using assms(1-3)
proof (rule check_sat_result)
  fix r assume r: "core_strategy z3 core c s as b = Some (r, c')" "t = record_result r s" "v \<longleftrightarrow> (\<exists>m. r = Sat_result m)"
  have lo: "uint (min_value s) \<le> minimized \<rho> m" using \<rho> bound_query_holds [OF m, of \<rho>] by simp
  obtain mo where mo: "r = Sat_result mo" using core_answer(1) [OF r(1) assms(4)] \<rho> by blast
  have z: "z3 (Some m) (map fst (bound_query s @ as)) = Sat_model mo" using core_answer(2) [OF r(1) assms(4) mo] m(1) by simp
  have fs: "\<forall>f \<in> set (map fst (bound_query s @ as)). leval \<rho> f" using \<rho> by (auto simp: holds_def)
  show ?thesis
  proof (cases "get_value mo m")
    case None
    then show ?thesis using r(2) mo m(1) lo by (simp add: record_result_def)
  next
    case (Some x)
    from solver_minimal [OF assms(4) z Some fs] have x: "uint x < 2 ^ 14" "uint x \<le> minimized \<rho> m" by simp_all
    then show ?thesis using r(2) mo m(1) Some lo uint_narrow [OF x(1)]
      by (auto simp: record_result_def word_le_def word_less_def Let_def)
  qed
qed

end
