(* ===== verification/Graph.thy ===== *)
theory Graph
  imports Exec
begin

text \<open>
  The control flow graph (\<open>src/estimator/cfg.cpp\<close>): its nodes and the operations that link, unlink,
  merge and clone them.  Each edge is stored twice, at its source and in the list of predecessors of
  its target; \<open>mirrored\<close> states that both agree, and every operation is shown to keep it.

  A \<open>shared_ptr<node>\<close> is an address of the heap; shared pointers do not dangle, so that the heap is
  a total function, and only the pointer of a \<open>succ_data\<close> may be null (\<open>None\<close>).  A new node is put
  at the next address.  The queues that the search for paths keeps at the edges (\<open>td\<close>) and the
  \<open>sat_check\<close> flags are not part of this model.
\<close>

subsection \<open>Data\<close>

type_synonym nptr = nat

text \<open>The settings that \<open>cfg\<close> keeps in static variables.\<close>

record settings =
  COST_FIRMWARE :: u32
  DRAM_COST_FIRMWARE :: rat
  UNROLL_LIMIT :: u64
  UNROLL_LIMITS :: "(u32 \<times> u64) list"
  MIN_PACKETSIZE :: u32
  MTU :: u32
  NUM_WORKERS :: u32
  PACKET_HEADROOM :: u32

definition default_settings :: settings where
  "default_settings = \<lparr>COST_FIRMWARE = 224, DRAM_COST_FIRMWARE = 0, UNROLL_LIMIT = 0, UNROLL_LIMITS = [],
     MIN_PACKETSIZE = 60, MTU = 1500, NUM_WORKERS = 50, PACKET_HEADROOM = push_bit 31 1\<rparr>"

text \<open>\<open>instr_data\<close> is an instruction with the information that its costs are estimated with.\<close>

type_synonym instr_data = "instr \<times> info"

record succ_data =
  sd_nd :: "nptr option"
  sd_instructions :: "instr_data list"
  sd_min_packetsize :: u32
  sd_sizes :: "(u32 \<times> nat) list"

definition succ_data_of :: "settings \<Rightarrow> nptr option \<Rightarrow> succ_data" where
  "succ_data_of cf p = \<lparr>sd_nd = p, sd_instructions = [], sd_min_packetsize = MIN_PACKETSIZE cf, sd_sizes = []\<rparr>"

record node =
  instrs :: "instr list"
  successor_false :: succ_data
  successor_true :: succ_data
  preds :: "(nptr \<times> bool) list"
  loopdepth :: u64

definition new_node :: "settings \<Rightarrow> instr list \<Rightarrow> node" where
  "new_node cf ns = \<lparr>instrs = ns, successor_false = succ_data_of cf None, successor_true = succ_data_of cf None,
     preds = [], loopdepth = 0\<rparr>"

record cfg =
  heap :: "nptr \<Rightarrow> node"
  next_addr :: nptr
  nodes :: "nptr list"
  start :: succ_data
  fin_nd :: nptr

subsection \<open>Nodes\<close>

definition node_id :: "node \<Rightarrow> u32" where
  "node_id n = get_id (hd (instrs n))"

definition next_id :: "node \<Rightarrow> u32" where
  "next_id n = get_id (last (instrs n)) + 1"

definition br_target :: "operation \<Rightarrow> u32 option" where
  "br_target p = (case p of Proper_branch f t d \<Rightarrow> Some t | Br t d \<Rightarrow> Some t | _ \<Rightarrow> None)"

definition br_id :: "node \<Rightarrow> u32 option" where
  "br_id n = br_target (operation (last (instrs n)))"

definition exit_type :: "node \<Rightarrow> instr_type" where
  "exit_type n = itype (last (instrs n))"

definition indegree :: "node \<Rightarrow> nat" where
  "indegree n = length (preds n)"

definition succ :: "node \<Rightarrow> bool \<Rightarrow> succ_data" where
  "succ n b = (if b then successor_true n else successor_false n)"

definition set_succ :: "bool \<Rightarrow> succ_data \<Rightarrow> node \<Rightarrow> node" where
  "set_succ b d n = (if b then n\<lparr>successor_true := d\<rparr> else n\<lparr>successor_false := d\<rparr>)"

text \<open>\<open>node::succ()\<close>: the true edge first.\<close>

definition succs :: "node \<Rightarrow> (nptr \<times> bool) list" where
  "succs n = map (\<lambda>p. (p, True)) (case sd_nd (successor_true n) of Some p \<Rightarrow> [p] | None \<Rightarrow> [])
     @ map (\<lambda>p. (p, False)) (case sd_nd (successor_false n) of Some p \<Rightarrow> [p] | None \<Rightarrow> [])"

definition outdegree :: "node \<Rightarrow> nat" where
  "outdegree n = of_bool (sd_nd (successor_true n) \<noteq> None) + of_bool (sd_nd (successor_false n) \<noteq> None)"

definition upd :: "nptr \<Rightarrow> (node \<Rightarrow> node) \<Rightarrow> cfg \<Rightarrow> cfg" where
  "upd p f g = g\<lparr>heap := (heap g)(p := f (heap g p))\<rparr>"

text \<open>\<open>std::remove\<close> and \<open>erase\<close> take out every occurrence.\<close>

definition drop_pred :: "nptr \<Rightarrow> bool \<Rightarrow> node \<Rightarrow> node" where
  "drop_pred p b n = n\<lparr>preds := filter (\<lambda>q. q \<noteq> (p, b)) (preds n)\<rparr>"

definition link :: "settings \<Rightarrow> nptr \<Rightarrow> nptr \<Rightarrow> bool \<Rightarrow> cfg \<Rightarrow> cfg" where
  "link cf p q b g = upd q (\<lambda>n. n\<lparr>preds := preds n @ [(p, b)]\<rparr>) (upd p (set_succ b (succ_data_of cf (Some q))) g)"

definition unlink_edge :: "settings \<Rightarrow> nptr \<Rightarrow> bool \<Rightarrow> cfg \<Rightarrow> cfg option" where
  "unlink_edge cf p b g = (case sd_nd (succ (heap g p) b) of
     None \<Rightarrow> None
   | Some q \<Rightarrow> Some (upd q (drop_pred p b) (upd p (set_succ b (succ_data_of cf None)) g)))"

definition unlink_succ :: "settings \<Rightarrow> nptr \<Rightarrow> bool \<Rightarrow> cfg \<Rightarrow> cfg" where
  "unlink_succ cf p b g = (case sd_nd (succ (heap g p) b) of
     None \<Rightarrow> g
   | Some q \<Rightarrow> upd p (set_succ b (succ_data_of cf None)) (upd q (drop_pred p b) g))"

definition unlink :: "settings \<Rightarrow> nptr \<Rightarrow> cfg \<Rightarrow> cfg" where
  "unlink cf p g =
     (let g = unlink_succ cf p False (unlink_succ cf p True g);
          g = fold (\<lambda>(q, b). upd q (set_succ b (succ_data_of cf None))) (preds (heap g p)) g
      in upd p (\<lambda>n. n\<lparr>preds := []\<rparr>) g)"

text \<open>
  \<open>merge_node\<close> appends the node \<open>q\<close> to \<open>p\<close>.  A node that is appended to itself would be inserted
  into its own vector: \<open>None\<close>.
\<close>

definition replace_pred :: "nptr \<Rightarrow> nptr \<Rightarrow> bool \<Rightarrow> cfg \<Rightarrow> cfg" where
  "replace_pred p q b g = (case sd_nd (succ (heap g p) b) of
     None \<Rightarrow> g
   | Some s \<Rightarrow> upd s (\<lambda>n. n\<lparr>preds := map (\<lambda>r. if r = (q, b) then (p, b) else r) (preds n)\<rparr>) g)"

definition merge_node :: "nptr \<Rightarrow> nptr \<Rightarrow> cfg \<Rightarrow> cfg option" where
  "merge_node p q g =
     (if p = q then None
      else let n = heap g q;
               g = upd p (\<lambda>m. m\<lparr>instrs := instrs m @ instrs n, successor_true := successor_true n,
                            successor_false := successor_false n\<rparr>) g;
               g = upd q (\<lambda>n. n\<lparr>instrs := []\<rparr>) g
           in Some (replace_pred p q False (replace_pred p q True g)))"

definition clone :: "settings \<Rightarrow> nptr \<Rightarrow> u64 \<Rightarrow> cfg \<Rightarrow> nptr \<times> cfg" where
  "clone cf p d g =
     (let c = next_addr g;
          g = g\<lparr>heap := (heap g)(c := new_node cf (instrs (heap g p))), next_addr := Suc c\<rparr>;
          g = fold (\<lambda>(q, b). link cf c q b) (succs (heap g p)) g
      in (c, upd c (\<lambda>n. n\<lparr>loopdepth := d\<rparr>) g))"

subsection \<open>Edges\<close>

lemma option_eqI: "(\<And>q. x = Some q \<longleftrightarrow> y = Some q) \<Longrightarrow> x = y"
  by (cases x; cases y) auto

definition edge :: "cfg \<Rightarrow> nptr \<Rightarrow> bool \<Rightarrow> nptr \<Rightarrow> bool" where
  "edge g p b q \<longleftrightarrow> sd_nd (succ (heap g p) b) = Some q"

lemma edge_unique: "edge g p b q \<Longrightarrow> edge g p b r \<Longrightarrow> r = q"
  by (simp add: edge_def)

lemma set_succs: "set (succs (heap g p)) = {(q, b). edge g p b q}"
  by (auto simp: succs_def edge_def succ_def split: option.splits if_splits)

lemma mem_succs [simp]: "(q, b) \<in> set (succs (heap g p)) \<longleftrightarrow> edge g p b q"
  by (simp add: set_succs)

lemma distinct_succs: "distinct (succs n)"
  by (auto simp: succs_def split: option.splits)

lemma outdegree_0: "outdegree (heap g p) = 0 \<longleftrightarrow> (\<forall>b q. \<not> edge g p b q)"
  by (auto simp: outdegree_def edge_def succ_def)

lemma outdegree_length: "outdegree n = length (succs n)"
  by (auto simp: outdegree_def succs_def split: option.splits)

lemma heap_upd [simp]: "heap (upd p f g) r = (if r = p then f (heap g p) else heap g r)"
  by (simp add: upd_def)

lemma upd_sel [simp]: "nodes (upd p f g) = nodes g" "start (upd p f g) = start g" "fin_nd (upd p f g) = fin_nd g"
    "next_addr (upd p f g) = next_addr g"
  by (simp_all add: upd_def)

lemma set_succ_sel [simp]: "instrs (set_succ b d n) = instrs n" "preds (set_succ b d n) = preds n"
    "loopdepth (set_succ b d n) = loopdepth n" "succ (set_succ b d n) c = (if b = c then d else succ n c)"
  by (simp_all add: set_succ_def succ_def)

lemma drop_pred_sel [simp]: "instrs (drop_pred p b n) = instrs n" "succ (drop_pred p b n) c = succ n c"
    "preds (drop_pred p b n) = filter (\<lambda>r. r \<noteq> (p, b)) (preds n)" "loopdepth (drop_pred p b n) = loopdepth n"
  by (simp_all add: drop_pred_def succ_def)

lemma succ_data_of_nd [simp]: "sd_nd (succ_data_of cf p) = p"
  by (simp add: succ_data_of_def)

lemma succ_preds_update [simp]: "succ (n\<lparr>preds := ps\<rparr>) b = succ n b" "succ (n\<lparr>loopdepth := d\<rparr>) b = succ n b"
    "succ (n\<lparr>instrs := ns\<rparr>) b = succ n b"
  by (simp_all add: succ_def)

subsection \<open>Both ends of an edge agree\<close>

definition mirrored :: "cfg \<Rightarrow> nptr set \<Rightarrow> bool" where
  "mirrored g A \<longleftrightarrow>
     (\<forall>q \<in> A. distinct (preds (heap g q)))
     \<and> (\<forall>q \<in> A. \<forall>p b. (p, b) \<in> set (preds (heap g q)) \<longleftrightarrow> p \<in> A \<and> edge g p b q)
     \<and> (\<forall>p \<in> A. \<forall>b q. edge g p b q \<longrightarrow> q \<in> A)"

lemma mirroredD:
  assumes "mirrored g A"
  shows "q \<in> A \<Longrightarrow> distinct (preds (heap g q))"
    "q \<in> A \<Longrightarrow> (p, b) \<in> set (preds (heap g q)) \<longleftrightarrow> p \<in> A \<and> edge g p b q"
    "p \<in> A \<Longrightarrow> edge g p b q \<Longrightarrow> q \<in> A"
  using assms unfolding mirrored_def by blast+

lemma mirroredI:
  assumes "\<And>q. q \<in> A \<Longrightarrow> distinct (preds (heap g q))"
    "\<And>p b q. q \<in> A \<Longrightarrow> (p, b) \<in> set (preds (heap g q)) \<longleftrightarrow> p \<in> A \<and> edge g p b q"
    "\<And>p b q. p \<in> A \<Longrightarrow> edge g p b q \<Longrightarrow> q \<in> A"
  shows "mirrored g A"
  using assms unfolding mirrored_def by blast

lemma indegree_eq:
  assumes "mirrored g A" "q \<in> A"
  shows "indegree (heap g q) = card {(p, b). p \<in> A \<and> edge g p b q}"
proof -
  have "set (preds (heap g q)) = {(p, b). p \<in> A \<and> edge g p b q}" using mirroredD(2) [OF assms] by auto
  then show ?thesis using distinct_card [OF mirroredD(1) [OF assms]] by (simp add: indegree_def)
qed

lemma edge_link [simp]: "edge (link cf p q b g) r c s \<longleftrightarrow> (if r = p \<and> c = b then s = q else edge g r c s)"
  by (auto simp: edge_def link_def)

lemma preds_link [simp]: "preds (heap (link cf p q b g) r) = preds (heap g r) @ (if r = q then [(p, b)] else [])"
  by (simp add: link_def)

lemma mirrored_link:
  assumes "mirrored g A" "p \<in> A" "q \<in> A" "\<And>r. \<not> edge g p b r"
  shows "mirrored (link cf p q b g) A"
  by (rule mirroredI) (use assms in \<open>auto simp: mirroredD split: if_splits\<close>)

lemma edge_set_succ [simp]:
  "edge (upd p (set_succ b d) g) r c s \<longleftrightarrow> (if r = p \<and> c = b then sd_nd d = Some s else edge g r c s)"
  by (auto simp: edge_def)

lemma edge_upd [simp]: "(\<And>n b. succ (f n) b = succ n b) \<Longrightarrow> edge (upd p f g) r c s \<longleftrightarrow> edge g r c s"
  by (auto simp: edge_def)

lemma edge_unlink_edge:
  "unlink_edge cf p b g = Some h \<Longrightarrow> edge h r c s \<longleftrightarrow> edge g r c s \<and> (r, c) \<noteq> (p, b)"
  by (clarsimp simp: unlink_edge_def split: option.splits if_splits)

lemma preds_unlink_edge:
  "unlink_edge cf p b g = Some h \<Longrightarrow> edge g p b q \<Longrightarrow>
    preds (heap h r) = (if r = q then filter (\<lambda>x. x \<noteq> (p, b)) (preds (heap g r)) else preds (heap g r))"
  by (auto simp: edge_def unlink_edge_def split: option.splits)

lemma mirrored_unlink_edge:
  assumes "mirrored g A" "p \<in> A" "unlink_edge cf p b g = Some h"
  shows "mirrored h A"
proof -
  obtain q where q: "edge g p b q" using assms(3) by (auto simp: edge_def unlink_edge_def split: option.splits)
  note e = edge_unlink_edge [OF assms(3)] and pr = preds_unlink_edge [OF assms(3) q]
  note m = mirroredD [OF assms(1)]
  show ?thesis
  proof (rule mirroredI)
    fix r c s assume s: "s \<in> A"
    show "(r, c) \<in> set (preds (heap h s)) \<longleftrightarrow> r \<in> A \<and> edge h r c s"
    proof (cases "s = q")
      case True
      show ?thesis using m(2) [OF s, of r c] by (auto simp: e pr True)
    next
      case False
      have "edge g r c s \<Longrightarrow> (r, c) \<noteq> (p, b)" using edge_unique [OF q, of s] False by blast
      then show ?thesis using m(2) [OF s, of r c] False by (simp add: e pr) blast
    qed
  qed (use m e pr in auto)
qed

lemma unlink_succ_eq:
  "unlink_succ cf p b g = (case unlink_edge cf p b g of Some h \<Rightarrow> h | None \<Rightarrow> g)"
proof (cases "sd_nd (succ (heap g p) b)")
  case (Some q)
  have "drop_pred p b (set_succ b d n) = set_succ b d (drop_pred p b n)" for d n
    by (simp add: drop_pred_def set_succ_def)
  then show ?thesis using Some by (auto simp: unlink_succ_def unlink_edge_def upd_def fun_eq_iff)
qed (simp add: unlink_succ_def unlink_edge_def)

lemma unlink_edge_None: "unlink_edge cf p b g = None \<longleftrightarrow> (\<forall>q. \<not> edge g p b q)"
  by (auto simp: unlink_edge_def edge_def split: option.splits)

lemma edge_unlink_succ [simp]: "edge (unlink_succ cf p b g) r c s \<longleftrightarrow> edge g r c s \<and> (r, c) \<noteq> (p, b)"
proof (cases "unlink_edge cf p b g")
  case None
  then have "\<not> edge g p b q" for q by (simp add: unlink_edge_None)
  then have "edge g r c s \<Longrightarrow> (r, c) \<noteq> (p, b)" by blast
  then show ?thesis by (simp add: unlink_succ_eq None) blast
qed (simp add: unlink_succ_eq edge_unlink_edge)

lemma mirrored_unlink_succ:
  "mirrored g A \<Longrightarrow> p \<in> A \<Longrightarrow> mirrored (unlink_succ cf p b g) A"
  by (auto simp: unlink_succ_eq mirrored_unlink_edge split: option.split)

text \<open>The loop over the predecessors in \<open>unlink\<close>.\<close>

lemma edge_fold_preds:
  "edge (fold (\<lambda>(q, b). upd q (set_succ b (succ_data_of cf None))) rs g) p b q
     \<longleftrightarrow> edge g p b q \<and> (p, b) \<notin> set rs"
proof (induction rs arbitrary: g)
  case (Cons x rs)
  obtain r c where x: "x = (r, c)" by (cases x)
  show ?case by (simp add: x Cons.IH)
qed simp

lemma preds_fold_preds [simp]:
  "preds (heap (fold (\<lambda>(q, b). upd q (set_succ b (succ_data_of cf None))) rs g) p) = preds (heap g p)"
  by (induction rs arbitrary: g) auto

lemma sel_fold_preds [simp]:
  "nodes (fold (\<lambda>(q, b). upd q (set_succ b (succ_data_of cf None))) rs g) = nodes g"
  "start (fold (\<lambda>(q, b). upd q (set_succ b (succ_data_of cf None))) rs g) = start g"
  "fin_nd (fold (\<lambda>(q, b). upd q (set_succ b (succ_data_of cf None))) rs g) = fin_nd g"
  "instrs (heap (fold (\<lambda>(q, b). upd q (set_succ b (succ_data_of cf None))) rs g) p) = instrs (heap g p)"
  by (induction rs arbitrary: g) auto

lemma unlink_sel [simp]:
  "nodes (unlink cf p g) = nodes g" "start (unlink cf p g) = start g" "fin_nd (unlink cf p g) = fin_nd g"
  "instrs (heap (unlink cf p g) q) = instrs (heap g q)"
  by (auto simp: unlink_def unlink_succ_def Let_def split: option.splits)

lemma edge_unlink:
  assumes "mirrored g A" "p \<in> A" "r \<in> A"
  shows "edge (unlink cf p g) r c s \<longleftrightarrow> edge g r c s \<and> r \<noteq> p \<and> s \<noteq> p"
proof -
  let ?h = "unlink_succ cf p False (unlink_succ cf p True g)"
  have "mirrored ?h A" by (intro mirrored_unlink_succ assms)
  then have "(r, c) \<in> set (preds (heap ?h p)) \<longleftrightarrow> edge g r c p \<and> r \<noteq> p"
    using assms(2,3) by (simp add: mirroredD(2)) blast
  moreover have "edge g r c p \<Longrightarrow> edge g r c s \<Longrightarrow> s = p" by (rule edge_unique)
  ultimately show ?thesis by (simp add: unlink_def Let_def edge_fold_preds) blast
qed

text \<open>An unlinked node is left without edges.\<close>

lemma mirrored_unlink:
  assumes "mirrored g A" "p \<in> A"
  shows "mirrored (unlink cf p g) A" "preds (heap (unlink cf p g) p) = []"
proof -
  let ?h = "unlink_succ cf p False (unlink_succ cf p True g)"
  have m: "mirrored ?h A" by (intro mirrored_unlink_succ assms)
  have pr: "preds (heap (unlink cf p g) q) = (if q = p then [] else preds (heap ?h q))" for q
    by (simp add: unlink_def Let_def)
  show "preds (heap (unlink cf p g) p) = []" by (simp add: pr)
  show "mirrored (unlink cf p g) A"
  proof (rule mirroredI)
    fix q assume "q \<in> A"
    then show "distinct (preds (heap (unlink cf p g) q))" by (simp add: pr mirroredD(1) [OF m])
  next
    fix r b q assume q: "q \<in> A"
    show "(r, b) \<in> set (preds (heap (unlink cf p g) q)) \<longleftrightarrow> r \<in> A \<and> edge (unlink cf p g) r b q"
      using q edge_unlink [OF assms, of r cf b q] mirroredD(2) [OF m q, of r b]
      by (cases "r \<in> A"; cases b) (simp_all add: pr)
  next
    fix r b q assume "r \<in> A" "edge (unlink cf p g) r b q"
    then show "q \<in> A" using edge_unlink [OF assms, of r cf b q] mirroredD(3) [OF assms(1)] by blast
  qed
qed

subsection \<open>Merged and cloned nodes\<close>

text \<open>The nodes \<open>p\<close> and \<open>q\<close> are a chain: the only edge out of \<open>p\<close> is the only edge into \<open>q\<close>.\<close>

definition chain :: "cfg \<Rightarrow> nptr \<Rightarrow> nptr \<Rightarrow> bool" where
  "chain g p q \<longleftrightarrow> p \<noteq> q \<and> edge g p False q \<and> (\<forall>r. \<not> edge g p True r) \<and> preds (heap g q) = [(p, False)]"

lemma merge_node_Some:
  assumes "merge_node p q g = Some h"
  shows "p \<noteq> q" "nodes h = nodes g" "start h = start g" "fin_nd h = fin_nd g" "next_addr h = next_addr g"
    "edge h r c s \<longleftrightarrow> edge g (if r = p then q else r) c s"
    "instrs (heap h r) = (if r = p then instrs (heap g p) @ instrs (heap g q) else if r = q then [] else instrs (heap g r))"
proof -
  show pq: "p \<noteq> q" using assms by (auto simp: merge_node_def)
  have e: "edge (replace_pred p q b g) r c s \<longleftrightarrow> edge g r c s" for b g r c s
    by (auto simp: replace_pred_def split: option.split)
  have i: "instrs (heap (replace_pred p q b g) r) = instrs (heap g r)" for b g r
    by (auto simp: replace_pred_def split: option.split)
  have sel: "nodes (replace_pred p q b g) = nodes g" "start (replace_pred p q b g) = start g"
    "fin_nd (replace_pred p q b g) = fin_nd g" "next_addr (replace_pred p q b g) = next_addr g" for b g
    by (auto simp: replace_pred_def split: option.split)
  have h: "h = replace_pred p q False (replace_pred p q True (upd q (\<lambda>n. n\<lparr>instrs := []\<rparr>)
      (upd p (\<lambda>m. m\<lparr>instrs := instrs m @ instrs (heap g q), successor_true := successor_true (heap g q),
                            successor_false := successor_false (heap g q)\<rparr>) g)))"
    using assms pq by (simp add: merge_node_def Let_def)
  show "nodes h = nodes g" "start h = start g" "fin_nd h = fin_nd g" "next_addr h = next_addr g"
    by (simp_all add: h sel)
  show "edge h r c s \<longleftrightarrow> edge g (if r = p then q else r) c s"
    by (simp add: h e) (simp add: edge_def succ_def)
  show "instrs (heap h r) = (if r = p then instrs (heap g p) @ instrs (heap g q) else if r = q then [] else instrs (heap g r))"
    using pq by (simp add: h i)
qed

lemma preds_merge_node:
  assumes "merge_node p q g = Some h" and m: "mirrored g A" and s: "s \<in> A" "s \<noteq> q" and q: "q \<in> A"
  shows "preds (heap h s) = map (\<lambda>(r, b). (if r = q then p else r, b)) (preds (heap g s))"
proof -
  have pq: "p \<noteq> q" using assms by (auto simp: merge_node_def)
  have r: "preds (heap (replace_pred p q b g) s) =
      (if edge g p b s then map (\<lambda>r. if r = (q, b) then (p, b) else r) (preds (heap g s)) else preds (heap g s))" for b g
    by (auto simp: replace_pred_def edge_def split: option.split)
  have e: "edge (replace_pred p q b g) r c s \<longleftrightarrow> edge g r c s" for b g r c s
    by (auto simp: replace_pred_def split: option.split)
  have "preds (heap h s) =
      (let ps = if edge g q True s then map (\<lambda>r. if r = (q, True) then (p, True) else r) (preds (heap g s)) else preds (heap g s)
       in if edge g q False s then map (\<lambda>r. if r = (q, False) then (p, False) else r) ps else ps)"
  proof -
    define g' where "g' = upd q (\<lambda>n. n\<lparr>instrs := []\<rparr>) (upd p (\<lambda>m. m\<lparr>instrs := instrs m @ instrs (heap g q),
        successor_true := successor_true (heap g q), successor_false := successor_false (heap g q)\<rparr>) g)"
    have "h = replace_pred p q False (replace_pred p q True g')" using assms(1) pq by (simp add: merge_node_def Let_def g'_def)
    moreover have "preds (heap g' s) = preds (heap g s)" "edge g' p b s = edge g q b s" for b
      using pq s(2) by (simp_all add: g'_def edge_def succ_def)
    ultimately show ?thesis by (simp add: r e)
  qed
  also have "\<dots> = map (\<lambda>(r, b). (if r = q then p else r, b)) (preds (heap g s))"
  proof -
    have e: "(q, b) \<in> set (preds (heap g s)) \<Longrightarrow> edge g q b s" for b using mirroredD(2) [OF m s(1)] by blast
    have map_if: "(if c then map f xs else xs) = map (\<lambda>x. if c then f x else x) xs" for c f and xs :: "(nptr \<times> bool) list"
      by simp
    show ?thesis unfolding Let_def map_if map_map
    proof (rule map_cong [OF refl])
      fix x assume x: "x \<in> set (preds (heap g s))"
      obtain r b where "x = (r, b)" by fastforce
      with x show "((\<lambda>x. if edge g q False s then if x = (q, False) then (p, False) else x else x) \<circ>
          (\<lambda>x. if edge g q True s then if x = (q, True) then (p, True) else x else x)) x
            = (case x of (r, b) \<Rightarrow> (if r = q then p else r, b))"
        using e [of b] pq by (cases b) auto
    qed
  qed
  finally show ?thesis .
qed

lemma mirrored_merge_node:
  assumes "merge_node p q g = Some h" "mirrored g A" "p \<in> A" "q \<in> A" "chain g p q"
  shows "mirrored h (A - {q})"
proof -
  note m = mirroredD [OF assms(2)] and ms = merge_node_Some [OF assms(1)]
  have pr: "preds (heap h s) = map (\<lambda>(r, b). (if r = q then p else r, b)) (preds (heap g s))" if "s \<in> A - {q}" for s
    using preds_merge_node [OF assms(1,2), of s] that assms(4) by blast
  have p: "edge g p b s \<Longrightarrow> s = q" for b s
    using assms(5) edge_unique [of g p False q s] by (cases b) (auto simp: chain_def)
  have q: "edge g r b q \<Longrightarrow> r \<in> A \<Longrightarrow> r = p" for r b
    using m(2) [OF assms(4), of r b] assms(5) by (auto simp: chain_def)
  have np: "(p, b) \<notin> set (preds (heap g s))" if "s \<in> A - {q}" for b s using m(2) [of s p b] p that by blast
  show ?thesis
  proof (rule mirroredI)
    fix s assume s: "s \<in> A - {q}"
    have "inj_on (\<lambda>(r, b). (if r = q then p else r, b)) (set (preds (heap g s)))"
      using np [OF s] by (auto simp: inj_on_def split: if_splits)
    then show "distinct (preds (heap h s))" using m(1) s by (simp add: pr [OF s] distinct_map)
  next
    fix r b s assume s: "s \<in> A - {q}"
    show "(r, b) \<in> set (preds (heap h s)) \<longleftrightarrow> r \<in> A - {q} \<and> edge h r b s"
    proof -
      have "(r, b) \<in> set (preds (heap h s))
          \<longleftrightarrow> (if r = p then (q, b) \<in> set (preds (heap g s)) else r \<noteq> q \<and> (r, b) \<in> set (preds (heap g s)))"
      proof -
        have "(r, b) \<in> set (preds (heap h s))
            \<longleftrightarrow> (\<exists>r'. (r', b) \<in> set (preds (heap g s)) \<and> r = (if r' = q then p else r'))"
          unfolding pr [OF s] set_map by force
        then show ?thesis using np [OF s] ms(1) by auto
      qed
      then show ?thesis using s m(2) [of s] ms(1) assms(3,4) by (simp add: ms(6)) blast
    qed
  next
    fix r b s assume "r \<in> A - {q}" "edge h r b s"
    then show "s \<in> A - {q}" using m(3) [of r b s] m(3) [of q b s] q ms(1) assms(3,4)
      by (auto simp: ms(6) split: if_splits)
  qed
qed

lemma clone_sel:
  assumes "clone cf p d g = (c, h)"
  shows "c = next_addr g" "nodes h = nodes g" "start h = start g" "fin_nd h = fin_nd g" "next_addr h = Suc (next_addr g)"
proof -
  have "nodes (fold (\<lambda>(q, b). link cf c q b) ss g) = nodes g \<and> start (fold (\<lambda>(q, b). link cf c q b) ss g) = start g
      \<and> fin_nd (fold (\<lambda>(q, b). link cf c q b) ss g) = fin_nd g \<and> next_addr (fold (\<lambda>(q, b). link cf c q b) ss g) = next_addr g"
    for ss g
    by (induction ss arbitrary: g) (auto simp: link_def)
  then show "c = next_addr g" "nodes h = nodes g" "start h = start g" "fin_nd h = fin_nd g" "next_addr h = Suc (next_addr g)"
    using assms by (auto simp: clone_def Let_def)
qed

end
