(* ===== verification/Traverse.thy ===== *)
theory Traverse
  imports Graph
begin

text \<open>
  The traversals of the graph (\<open>src/estimator/cfg.cpp\<close>): the removal of what the start does not reach,
  the search for a loop through a node, and the topological order that the propagations need.

  The worklists are explicit: a \<open>std::stack\<close> is a list with its top first, a \<open>std::queue\<close> a list with
  its front first, and a map of nodes to flags a predicate.  Nothing in the code bounds these loops, so
  that each is a partial function; that it returns on every graph whose edges agree at both ends is
  proved here.
\<close>

subsection \<open>Reachability\<close>

definition step :: "cfg \<Rightarrow> nptr \<Rightarrow> nptr \<Rightarrow> bool" where
  "step g p q \<longleftrightarrow> (\<exists>b. edge g p b q)"

abbreviation reach :: "cfg \<Rightarrow> nptr \<Rightarrow> nptr \<Rightarrow> bool" where
  "reach g \<equiv> (step g)\<^sup>*\<^sup>*"

lemma set_succ_nodes: "fst ` set (succs (heap g p)) = {q. step g p q}"
  by (force simp: set_succs step_def)

lemma reach_closed:
  assumes "reach g p q" "p \<in> A" "\<And>r s. r \<in> A \<Longrightarrow> step g r s \<Longrightarrow> s \<in> A"
  shows "q \<in> A"
  using assms by (induction rule: rtranclp_induct) blast+

definition start_nd :: "cfg \<Rightarrow> nptr" where
  "start_nd g = the (sd_nd (start g))"

subsection \<open>The nodes that the start reaches\<close>

partial_function (option) visit :: "cfg \<Rightarrow> nptr list \<Rightarrow> (nptr \<Rightarrow> bool) \<Rightarrow> (nptr \<Rightarrow> bool) option" where
  "visit g stack visited = (case stack of
     [] \<Rightarrow> Some visited
   | p # stack \<Rightarrow>
       let visited = visited(p := True)
       in visit g (rev (filter (\<lambda>q. \<not> visited q) (map fst (succs (heap g p)))) @ stack) visited)"

declare visit.simps [code]

lemmas visit_simps = visit.simps [of _ "[]", simplified] visit.simps [of _ "p # stack" for p stack, simplified]

text \<open>What a visited node leads to is visited or on the stack.\<close>

definition frontier :: "cfg \<Rightarrow> nptr list \<Rightarrow> (nptr \<Rightarrow> bool) \<Rightarrow> bool" where
  "frontier g stack visited \<longleftrightarrow> (\<forall>p q. visited p \<longrightarrow> step g p q \<longrightarrow> visited q \<or> q \<in> set stack)"

lemma frontier_reach:
  assumes "frontier g stack visited" "reach g p q" "visited p"
  shows "visited q \<or> (\<exists>s \<in> set stack. reach g s q)"
  using assms(2)
proof (induction rule: rtranclp_induct)
  case (step q r)
  then show ?case using assms(1) unfolding frontier_def by (metis rtranclp.rtrancl_into_rtrancl rtranclp.rtrancl_refl)
qed (simp add: assms)

lemma visit_correct:
  assumes "finite A" "\<And>p q. p \<in> A \<Longrightarrow> step g p q \<Longrightarrow> q \<in> A" "set stack \<subseteq> A"
  shows "\<exists>v. visit g stack visited = Some v
    \<and> (frontier g stack visited \<longrightarrow> (\<forall>q. v q \<longleftrightarrow> visited q \<or> (\<exists>s \<in> set stack. reach g s q)))"
  using assms(3)
proof (induction "(stack, visited)" arbitrary: stack visited rule: wf_induct_rule
    [OF wf_measures [of "[\<lambda>(stack, visited). card {p \<in> A. \<not> visited p},
       \<lambda>(stack, visited). of_bool (stack \<noteq> [] \<and> visited (hd stack)), \<lambda>(stack, visited). length stack]"]])
  case 1
  show ?case
  proof (cases stack)
    case (Cons p rest)
    define visited' where "visited' = visited(p := True)"
    define new where "new = rev (filter (\<lambda>q. \<not> visited' q) (map fst (succs (heap g p))))"
    have new: "set new = {q. step g p q \<and> \<not> visited' q}" using set_succ_nodes [of g p] by (auto simp: new_def)
    have sub: "set (new @ rest) \<subseteq> A" using 1(2) assms(2) by (auto simp: new Cons)
    have smaller: "((new @ rest, visited'), (stack, visited)) \<in> measures [\<lambda>(stack, visited). card {p \<in> A. \<not> visited p},
       \<lambda>(stack, visited). of_bool (stack \<noteq> [] \<and> visited (hd stack)), \<lambda>(stack, visited). length stack]"
    proof (cases "visited p")
      case True
      then have "visited' = visited" unfolding visited'_def by (simp add: fun_upd_idem)
      moreover have "new \<noteq> [] \<Longrightarrow> hd new \<in> set new" by simp
      then have "new \<noteq> [] \<Longrightarrow> \<not> visited' (hd new)" unfolding new by simp
      ultimately show ?thesis using True by (cases "new = []") (simp_all add: Cons)
    next
      case False
      then have "{q \<in> A. \<not> visited' q} \<subset> {q \<in> A. \<not> visited q}" using 1(2) by (auto simp: visited'_def Cons)
      then have "card {q \<in> A. \<not> visited' q} < card {q \<in> A. \<not> visited q}" by (rule psubset_card_mono [rotated]) (simp add: assms)
      then show ?thesis by simp
    qed
    obtain v where v: "visit g (new @ rest) visited' = Some v"
      "frontier g (new @ rest) visited' \<Longrightarrow> v q \<longleftrightarrow> visited' q \<or> (\<exists>s \<in> set (new @ rest). reach g s q)" for q
      using 1(1) [OF smaller sub] by blast
    have "v q \<longleftrightarrow> visited q \<or> (\<exists>s \<in> set stack. reach g s q)" if f: "frontier g stack visited" for q
    proof -
      have f': "frontier g (new @ rest) visited'"
        using f by (auto simp: frontier_def visited'_def Cons new)
      have "reach g s q \<Longrightarrow> s \<in> set new \<Longrightarrow> reach g p q" for s
        using new by (auto intro: converse_rtranclp_into_rtranclp)
      moreover have "reach g p q \<Longrightarrow> visited' q \<or> (\<exists>s \<in> set (new @ rest). reach g s q)"
        using frontier_reach [OF f'] by (simp add: visited'_def)
      moreover have "visited' q \<longleftrightarrow> visited q \<or> q = p" by (auto simp: visited'_def)
      ultimately show ?thesis unfolding v(2) [OF f'] Cons set_append list.set by blast
    qed
    then show ?thesis using v(1) by (simp add: Cons visit_simps Let_def visited'_def new_def)
  qed (simp add: visit_simps)
qed

text \<open>The two loops over the vector of nodes that remove elements by moving the last one there.\<close>

function compact :: "(nptr \<Rightarrow> bool) \<Rightarrow> (nptr \<Rightarrow> cfg \<Rightarrow> cfg) \<Rightarrow> nat \<Rightarrow> cfg \<Rightarrow> cfg" where
  "compact keep rm i g =
     (if length (nodes g) \<le> i then g
      else if keep (nodes g ! i) then compact keep rm (Suc i) g
      else let h = rm (nodes g ! i) g
           in compact keep rm i (h\<lparr>nodes := butlast ((nodes g)[i := last (nodes g)])\<rparr>))"
  by pat_completeness auto
termination
  by (relation "measure (\<lambda>(keep, rm, i, g). length (nodes g) - i)") auto

declare compact.simps [simp del]

definition remove_unreachable :: "settings \<Rightarrow> cfg \<Rightarrow> cfg option" where
  "remove_unreachable cf g = do {
     visited \<leftarrow> visit g [start_nd g] (\<lambda>_. False);
     Some (compact visited (unlink cf) 0 g)
   }"

lemma butlast_update_last:
  assumes "i < length xs" "distinct xs"
  shows "distinct (butlast (xs[i := last xs]))" "set (butlast (xs[i := last xs])) = set xs - {xs ! i}"
    "j < i \<Longrightarrow> butlast (xs[i := last xs]) ! j = xs ! j"
proof -
  obtain ys y where xs: "xs = ys @ [y]" using assms(1) by (cases xs rule: rev_cases) auto
  have d: "distinct ys" "y \<notin> set ys" using assms(2) xs by auto
  have b: "butlast (xs[i := last xs]) = (if i < length ys then ys[i := y] else ys)"
    using assms(1) by (auto simp: xs list_update_append)
  show "distinct (butlast (xs[i := last xs]))" unfolding b using d by (auto intro: distinct_list_update)
  show "set (butlast (xs[i := last xs])) = set xs - {xs ! i}"
    unfolding b using assms(1) d set_update_distinct [of ys i y] by (auto simp: xs nth_append less_Suc_eq)
  show "j < i \<Longrightarrow> butlast (xs[i := last xs]) ! j = xs ! j"
    unfolding b using assms(1) by (auto simp: xs nth_append)
qed

lemma compact_nodes:
  assumes "\<And>p g. nodes (rm p g) = nodes g" "distinct (nodes g)" "\<forall>j < i. j < length (nodes g) \<longrightarrow> keep (nodes g ! j)"
  shows "distinct (nodes (compact keep rm i g))" "set (nodes (compact keep rm i g)) = {p \<in> set (nodes g). keep p}"
  using assms
proof (induction keep rm i g rule: compact.induct)
  case (1 keep rm i g)
  {
    case 1
    then show ?case using "1.IH"(1,3) butlast_update_last(1,3) [of i "nodes g"]
      by (subst compact.simps) (auto simp: Let_def less_Suc_eq)
  next
    case 2
    then show ?case using "1.IH"(2,4) butlast_update_last [of i "nodes g"]
      by (subst compact.simps) (auto simp: Let_def less_Suc_eq in_set_conv_nth)
  }
qed

text \<open>The nodes that are unlinked on the way leave no edge behind.\<close>

lemma compact_unlink:
  assumes "mirrored g A" "set (nodes g) \<subseteq> A" "distinct (nodes g)"
    "\<forall>r \<in> A. r \<notin> set (nodes g) \<longrightarrow> (\<forall>c s. \<not> edge g r c s)"
    "\<forall>r \<in> A. \<forall>c s. edge g r c s \<longrightarrow> keep r \<longrightarrow> keep s"
    and h: "h = compact keep (unlink cf) i g"
  shows "mirrored h A" "r \<in> A \<Longrightarrow> r \<notin> set (nodes h) \<Longrightarrow> \<not> edge h r c s"
    "r \<in> A \<Longrightarrow> keep r \<Longrightarrow> edge h r c s \<longleftrightarrow> edge g r c s"
    "instrs (heap h r) = instrs (heap g r)" "start h = start g" "fin_nd h = fin_nd g"
proof -
  define Q where "Q keep h g \<longleftrightarrow> mirrored h A \<and> (\<forall>r c s. r \<in> A \<longrightarrow> r \<notin> set (nodes h) \<longrightarrow> \<not> edge h r c s)
    \<and> (\<forall>r c s. r \<in> A \<longrightarrow> keep r \<longrightarrow> edge h r c s \<longleftrightarrow> edge g r c s)
    \<and> (\<forall>r. instrs (heap h r) = instrs (heap g r)) \<and> start h = start g \<and> fin_nd h = fin_nd g" for keep h g
  have "Q keep h g"
    using assms(1-5) unfolding h
  proof (induction keep "unlink cf" i g rule: compact.induct)
    case (1 keep i g)
    show ?case
    proof (cases "length (nodes g) \<le> i \<or> keep (nodes g ! i)")
      case True
      show ?thesis
      proof (cases "length (nodes g) \<le> i")
        case len: True
        then have c: "compact keep (unlink cf) i g = g" by (subst compact.simps) simp
        show ?thesis using "1.prems"(1,4) unfolding c Q_def by blast
      next
        case len: False
        then have c: "compact keep (unlink cf) i g = compact keep (unlink cf) (Suc i) g" using True by (subst compact.simps) simp
        show ?thesis unfolding c
          by (rule "1.hyps"(1) [OF len]) (use True len in simp, (fact "1.prems")+)
      qed
    next
      case False
      define p where "p = nodes g ! i"
      define g' where "g' = (unlink cf p g)\<lparr>nodes := butlast ((nodes g)[i := last (nodes g)])\<rparr>"
      have pA: "p \<in> A" using False "1.prems"(2) by (auto simp: p_def)
      have ns: "distinct (nodes g')" "set (nodes g') = set (nodes g) - {p}"
        using butlast_update_last [of i "nodes g"] False "1.prems"(3) by (simp_all add: g'_def p_def)
      have e: "edge g' r c s \<longleftrightarrow> edge (unlink cf p g) r c s" for r c s by (simp add: g'_def edge_def)
      have m: "mirrored g' A" using mirrored_unlink(1) [OF "1.prems"(1) pA, of cf]
        by (simp add: mirrored_def e) (simp add: g'_def)
      have e: "edge g' r c s \<longleftrightarrow> edge g r c s \<and> r \<noteq> p \<and> s \<noteq> p" if "r \<in> A" for r c s
        using edge_unlink [OF "1.prems"(1) pA that] by (simp add: e)
      note np = False [folded p_def, simplified]
      have k: "keep r \<Longrightarrow> r \<in> A \<Longrightarrow> edge g' r c s \<longleftrightarrow> edge g r c s" for r c s
        using e [of r c s] "1.prems"(5) np by blast
      have c: "compact keep (unlink cf) i g = compact keep (unlink cf) i g'"
        using False by (subst compact.simps) (simp add: g'_def p_def Let_def)
      have i: "instrs (heap g' r) = instrs (heap g r)" "start g' = start g" "fin_nd g' = fin_nd g" for r
        by (simp_all add: g'_def)
      have gone: "\<forall>r \<in> A. r \<notin> set (nodes g') \<longrightarrow> (\<forall>c s. \<not> edge g' r c s)"
        using e "1.prems"(4) ns(2) by blast
      have keeps: "\<forall>r \<in> A. \<forall>c s. edge g' r c s \<longrightarrow> keep r \<longrightarrow> keep s"
        using e "1.prems"(5) by blast
      have sub: "set (nodes g') \<subseteq> A" using ns(2) "1.prems"(2) by blast
      from False have len: "\<not> length (nodes g) \<le> i" and nk: "\<not> keep (nodes g ! i)" by auto
      have "Q keep (compact keep (unlink cf) i g') g'"
        by (rule "1.hyps"(2) [OF len nk refl, folded p_def, folded g'_def]) (fact m sub ns(1) gone keeps)+
      then show ?thesis unfolding c Q_def using k i by simp
    qed
  qed
  then show "mirrored h A" "r \<in> A \<Longrightarrow> r \<notin> set (nodes h) \<Longrightarrow> \<not> edge h r c s"
    "r \<in> A \<Longrightarrow> keep r \<Longrightarrow> edge h r c s \<longleftrightarrow> edge g r c s"
    "instrs (heap h r) = instrs (heap g r)" "start h = start g" "fin_nd h = fin_nd g" unfolding Q_def by blast+
qed

text \<open>
  \<open>remove_unreachable\<close> returns, keeps exactly the nodes that the start reaches, and their edges.
\<close>

definition graph_ok :: "cfg \<Rightarrow> bool" where
  "graph_ok g \<longleftrightarrow> distinct (nodes g) \<and> mirrored g (set (nodes g)) \<and> start_nd g \<in> set (nodes g)"

lemma graph_okD:
  assumes "graph_ok g"
  shows "distinct (nodes g)" "mirrored g (set (nodes g))" "start_nd g \<in> set (nodes g)"
    "p \<in> set (nodes g) \<Longrightarrow> step g p q \<Longrightarrow> q \<in> set (nodes g)"
  using assms mirroredD(3) unfolding graph_ok_def step_def by blast+

lemma mirrored_subset:
  assumes "mirrored h A" "B \<subseteq> A" "\<And>r c s. r \<in> A \<Longrightarrow> r \<notin> B \<Longrightarrow> \<not> edge h r c s" "\<And>r c s. r \<in> B \<Longrightarrow> edge h r c s \<Longrightarrow> s \<in> B"
  shows "mirrored h B"
  by (rule mirroredI) (use assms mirroredD [OF assms(1)] in blast)+

lemma remove_unreachable_correct:
  assumes "graph_ok g"
  obtains h where "remove_unreachable cf g = Some h" "graph_ok h"
    "set (nodes h) = {p. reach g (start_nd g) p}"
    "\<And>p b q. p \<in> set (nodes h) \<Longrightarrow> edge h p b q \<longleftrightarrow> edge g p b q"
    "\<And>p. instrs (heap h p) = instrs (heap g p)" "start h = start g" "fin_nd h = fin_nd g"
proof -
  note g = graph_okD [OF assms]
  obtain v where v: "visit g [start_nd g] (\<lambda>_. False) = Some v" "\<And>q. v q \<longleftrightarrow> reach g (start_nd g) q"
    using visit_correct [of "set (nodes g)" g "[start_nd g]" "\<lambda>_. False"] g by (auto simp: frontier_def)
  define h where "h = compact v (unlink cf) 0 g"
  have r: "v r \<Longrightarrow> r \<in> set (nodes g)" for r using reach_closed [of g _ r] v(2) g by blast
  have ns: "distinct (nodes h)" "set (nodes h) = {p. v p}"
    using compact_nodes [of "unlink cf" g 0 v] g(1) r by (auto simp: h_def)
  have vs: "p \<in> set (nodes g) \<Longrightarrow> edge g p b q \<Longrightarrow> v p \<Longrightarrow> v q" for p b q
  proof -
    assume "v p" "edge g p b q"
    then have "reach g (start_nd g) p" "step g p q" by (auto simp: v(2) step_def)
    then show "v q" unfolding v(2) by (rule rtranclp.rtrancl_into_rtrancl)
  qed
  have none: "\<forall>r \<in> set (nodes g). r \<notin> set (nodes g) \<longrightarrow> (\<forall>c s. \<not> edge g r c s)"
    and keep: "\<forall>r \<in> set (nodes g). \<forall>c s. edge g r c s \<longrightarrow> v r \<longrightarrow> v s"
    using vs by blast+
  note c = compact_unlink [OF g(2) order_refl g(1) none keep h_def]
  have e: "v p \<Longrightarrow> edge h p b q \<longleftrightarrow> edge g p b q" for p b q using c(3) r by blast
  have m: "mirrored h (set (nodes h))"
    by (rule mirrored_subset [of h "set (nodes g)"]) (use c(1,2) e vs [OF r] r in \<open>auto simp: ns(2)\<close>)
  have sel: "instrs (heap h p) = instrs (heap g p)" "start h = start g" "fin_nd h = fin_nd g" for p using c(4-6) by blast+
  have "start_nd h = start_nd g" by (simp add: start_nd_def sel)
  then have "graph_ok h" using ns m v(2) by (simp add: graph_ok_def)
  then show thesis
    using that [of h] ns e sel v by (simp add: remove_unreachable_def h_def)
qed

subsection \<open>Loops\<close>

text \<open>The inner loop of \<open>is_in_loop\<close>; \<open>None\<close> is the return of true.\<close>

fun scan :: "nptr \<Rightarrow> nptr list \<Rightarrow> nptr list \<Rightarrow> nptr set \<Rightarrow> (nptr list \<times> nptr set) option" where
  "scan p [] queue visited = Some (queue, visited)"
| "scan p (s # ss) queue visited =
     (if s = p then None
      else if s \<in> visited then scan p ss queue visited
      else scan p ss (queue @ [s]) (insert s visited))"

partial_function (option) search :: "cfg \<Rightarrow> nptr \<Rightarrow> nptr list \<Rightarrow> nptr set \<Rightarrow> bool option" where
  "search g p queue visited = (case queue of
     [] \<Rightarrow> Some False
   | n # queue \<Rightarrow> (case scan p (map fst (succs (heap g n))) queue visited of
       None \<Rightarrow> Some True
     | Some (queue, visited) \<Rightarrow> search g p queue visited))"

declare search.simps [code]

definition is_in_loop :: "cfg \<Rightarrow> nptr \<Rightarrow> bool option" where
  "is_in_loop g p = search g p [p] {}"

fun loopfree_nodes :: "cfg \<Rightarrow> nptr list \<Rightarrow> nptr set option" where
  "loopfree_nodes g [] = Some {}"
| "loopfree_nodes g (p # ps) = do {
     l \<leftarrow> is_in_loop g p;
     nds \<leftarrow> loopfree_nodes g ps;
     Some (if l then nds else insert p nds)
   }"

lemmas search_simps = search.simps [of _ _ "[]", simplified] search.simps [of _ _ "n # queue" for n queue, simplified]

lemma scan_None: "scan p ss queue visited = None \<longleftrightarrow> p \<in> set ss"
  by (induction p ss queue visited rule: scan.induct) auto

lemma scan_Some:
  assumes "scan p ss queue visited = Some (queue', visited')"
  shows "visited' = visited \<union> set ss" "set queue' = set queue \<union> (set ss - visited)"
  using assms by (induction p ss queue visited rule: scan.induct) (auto split: if_splits)

lemma scan_measure:
  assumes "scan p ss queue visited = Some (queue', visited')" "finite A" "set ss \<subseteq> A"
  shows "length queue' + card (A - visited') = length queue + card (A - visited)"
  using assms
proof (induction p ss queue visited rule: scan.induct)
  case (2 p s ss queue visited)
  have "A - insert s visited = A - visited - {s}" by blast
  then have "s \<notin> visited \<Longrightarrow> Suc (card (A - insert s visited)) = card (A - visited)"
    using 2(4,5) card_Suc_Diff1 [of "A - visited" s] by simp
  then show ?case using 2 by (auto split: if_splits)
qed simp

lemma search_correct:
  assumes "finite A" "\<And>p q. p \<in> A \<Longrightarrow> step g p q \<Longrightarrow> q \<in> A"
    and "p \<in> A" "set queue \<subseteq> insert p visited" "visited \<subseteq> A" "p \<notin> visited"
    "\<And>q. q \<in> visited \<Longrightarrow> (step g)\<^sup>+\<^sup>+ p q"
    "\<And>q r. q \<in> insert p visited \<Longrightarrow> q \<notin> set queue \<Longrightarrow> step g q r \<Longrightarrow> r \<in> visited"
  shows "search g p queue visited = Some ((step g)\<^sup>+\<^sup>+ p p)"
  using assms(3-)
proof (induction "length queue + card (A - visited)" arbitrary: queue visited rule: less_induct)
  case less
  note close = less.prems(6)
  show ?case
  proof (cases queue)
    case Nil
    have "(step g)\<^sup>+\<^sup>+ p q \<Longrightarrow> q \<in> visited" for q
      by (induction rule: tranclp_induct) (use close Nil in auto)
    then show ?thesis using less.prems(4) Nil by (auto simp: search_simps)
  next
    case (Cons n rest)
    let ?ss = "map fst (succs (heap g n))"
    have ss: "set ?ss = {q. step g n q}" using set_succ_nodes [of g n] by simp
    have n: "n \<in> insert p visited" using less.prems(2) Cons by simp
    then have reach: "step g n q \<Longrightarrow> (step g)\<^sup>+\<^sup>+ p q" for q
      using less.prems(5) by (auto intro: tranclp.intros)
    show ?thesis
    proof (cases "scan p ?ss rest visited")
      case None
      then have "step g n p" using ss unfolding scan_None by blast
      then have "(step g)\<^sup>+\<^sup>+ p p" by (rule reach)
      then show ?thesis by (simp add: Cons search_simps None)
    next
      case (Some qv)
      obtain queue' visited' where qv: "qv = (queue', visited')" by (cases qv)
      note s = scan_Some [OF Some [unfolded qv], unfolded ss]
      have np: "\<not> step g n p" using Some scan_None [of p ?ss rest visited] ss by simp
      have sA: "{q. step g n q} \<subseteq> A" using assms(2) less.prems(1,3) n by blast
      have "length queue' + card (A - visited') < length queue + card (A - visited)"
        using scan_measure [OF Some [unfolded qv] assms(1)] sA ss by (simp add: Cons)
      moreover have "set queue' \<subseteq> insert p visited'" "visited' \<subseteq> A" "p \<notin> visited'"
        using less.prems sA np by (auto simp: s Cons)
      moreover have "q \<in> visited' \<Longrightarrow> (step g)\<^sup>+\<^sup>+ p q" for q using less.prems(5) reach by (auto simp: s)
      moreover have "r \<in> visited'" if "q \<in> insert p visited'" "q \<notin> set queue'" "step g q r" for q r
        using that close [of q r] by (cases "q = n") (auto simp: s Cons)
      ultimately have "search g p queue' visited' = Some ((step g)\<^sup>+\<^sup>+ p p)"
        using less.hyps [of queue' visited'] less.prems(1) by blast
      then show ?thesis by (simp add: Cons search_simps Some qv)
    qed
  qed
qed

lemma is_in_loop_correct:
  assumes "graph_ok g" "p \<in> set (nodes g)"
  shows "is_in_loop g p = Some ((step g)\<^sup>+\<^sup>+ p p)"
  unfolding is_in_loop_def
  by (rule search_correct [of "set (nodes g)"]) (use assms graph_okD [OF assms(1)] in auto)

lemma loopfree_nodes_correct:
  assumes "graph_ok g" "set ps \<subseteq> set (nodes g)"
  shows "loopfree_nodes g ps = Some {p \<in> set ps. \<not> (step g)\<^sup>+\<^sup>+ p p}"
  using assms(2) by (induction ps) (auto simp: is_in_loop_correct [OF assms(1)])

end
