(* ===== verification/Build.thy ===== *)
theory Build
  imports Traverse "HOL-Library.Product_Lexorder"
begin

text \<open>
  The construction of the graph from a listing (\<open>cfg::build_cfg\<close>): one node for each instruction, the
  edges, the removal of unreachable nodes, the merge of chains of nodes, and the unrolling of loops.

  The listing is parsed by \<open>instr::build_instr\<close>; here it is a list of instructions.  A program runs from
  address 0; \<open>prog_runs\<close> are its runs to the end, \<open>graph_runs\<close> those of a graph, each instruction with the
  flag \<open>branchtrue\<close> that the analysis passes for it.  The construction is shown to keep exactly the runs
  of the listing.
\<close>

subsection \<open>Construction\<close>

definition init_nodes :: "settings \<Rightarrow> instr list \<Rightarrow> cfg option" where
  "init_nodes cf ns =
     (if \<exists>n \<in> set ns. get_id n \<ge> get_id fin then None
      else Some \<lparr>heap = (\<lambda>p. if p < length ns then new_node cf [ns ! p] else new_node cf [fin]),
             next_addr = Suc (length ns), nodes = [0..<Suc (length ns)], start = succ_data_of cf None,
             fin_nd = length ns\<rparr>)"

definition link_nodes :: "settings \<Rightarrow> nptr \<Rightarrow> u32 \<Rightarrow> (u32 \<rightharpoonup> nptr) \<Rightarrow> bool \<Rightarrow> cfg \<Rightarrow> cfg" where
  "link_nodes cf src dst m b g = link cf src (case m dst of Some q \<Rightarrow> q | None \<Rightarrow> fin_nd g) b g"

definition create_edges :: "settings \<Rightarrow> (u32 \<rightharpoonup> nptr) \<Rightarrow> nptr \<Rightarrow> cfg \<Rightarrow> cfg option" where
  "create_edges cf m p g =
     (let n = heap g p in case exit_type n of
        FIN \<Rightarrow> if p \<noteq> fin_nd g then None else Some g
      | BRANCH \<Rightarrow> map_option (\<lambda>t. link_nodes cf p t m True (link_nodes cf p (next_id n) m False g)) (br_id n)
      | JUMP \<Rightarrow> map_option (\<lambda>t. link_nodes cf p t m True g) (br_id n)
      | _ \<Rightarrow> Some (link_nodes cf p (next_id n) m False g))"

fun create_all :: "settings \<Rightarrow> (u32 \<rightharpoonup> nptr) \<Rightarrow> nptr list \<Rightarrow> cfg \<Rightarrow> cfg option" where
  "create_all cf m [] g = Some g"
| "create_all cf m (p # ps) g = Option.bind (create_edges cf m p g) (create_all cf m ps)"

fun address_map :: "cfg \<Rightarrow> nptr list \<Rightarrow> (u32 \<rightharpoonup> nptr) \<Rightarrow> (u32 \<rightharpoonup> nptr) option" where
  "address_map g [] m = Some m"
| "address_map g (p # ps) m =
     (if m (node_id (heap g p)) \<noteq> None then None else address_map g ps (m(node_id (heap g p) \<mapsto> p)))"

text \<open>A node is merged with its only successor if that has no other predecessor.\<close>

definition mergeable :: "cfg \<Rightarrow> (nptr \<Rightarrow> bool) \<Rightarrow> nptr \<Rightarrow> nptr option" where
  "mergeable g deleted p =
     (let n = heap g p in
      if deleted p \<or> exit_type n = JUMP \<or> outdegree n \<noteq> 1 then None
      else let q = fst (hd (succs n)) in if indegree (heap g q) \<noteq> 1 then None else Some q)"

partial_function (option) merge_loop :: "nptr list \<Rightarrow> (nptr \<Rightarrow> bool) \<Rightarrow> cfg \<Rightarrow> ((nptr \<Rightarrow> bool) \<times> cfg) option" where
  "merge_loop ps deleted g = (case ps of
     [] \<Rightarrow> Some (deleted, g)
   | p # rest \<Rightarrow> (case mergeable g deleted p of
       None \<Rightarrow> merge_loop rest deleted g
     | Some q \<Rightarrow> Option.bind (merge_node p q g) (merge_loop ps (deleted(q := True)))))"

declare merge_loop.simps [code]

definition merge_edges :: "cfg \<Rightarrow> cfg option" where
  "merge_edges g = do {
     (deleted, g) \<leftarrow> merge_loop (nodes g) (\<lambda>_. False) g;
     Some (compact (\<lambda>p. \<not> deleted p) (\<lambda>_ g. g) 0 g)
   }"

subsection \<open>Unrolling\<close>

text \<open>
  The stack of the depth first search holds a node and the number of the next edge to follow; \<open>visited\<close>
  counts by address how often an instruction is on the stack, and the copies of a node are kept by
  address and depth.  A node with a loop that is not to be unrolled any further loses its edge.
\<close>

type_synonym copies = "u32 \<times> u64 \<rightharpoonup> nptr"

definition unroll_limit :: "settings \<Rightarrow> u32 \<Rightarrow> u64" where
  "unroll_limit cf a = (case map_of (UNROLL_LIMITS cf) a of Some l \<Rightarrow> l | None \<Rightarrow> UNROLL_LIMIT cf)"

definition copy_of :: "settings \<Rightarrow> nptr \<Rightarrow> u64 \<Rightarrow> copies \<Rightarrow> cfg \<Rightarrow> nptr \<times> copies \<times> cfg" where
  "copy_of cf s d copies g =
     (case copies (node_id (heap g s), d) of
        Some u \<Rightarrow> (u, copies, g)
      | None \<Rightarrow> (let (u, h) = clone cf s d g in (u, copies((node_id (heap g s), d) \<mapsto> u), h)))"

partial_function (option) unroll_loop ::
  "settings \<Rightarrow> nptr set \<Rightarrow> (nptr \<times> nat) list \<Rightarrow> (nptr \<Rightarrow> bool) \<Rightarrow> (u32 \<Rightarrow> u64) \<Rightarrow> copies \<Rightarrow> cfg \<Rightarrow> (copies \<times> cfg) option"
where
  "unroll_loop cf nounroll stack finished visited copies g = (case stack of
     [] \<Rightarrow> Some (copies, g)
   | (nd, i) # rest \<Rightarrow>
       if i < length (succs (heap g nd)) then
         let (s, b) = succs (heap g nd) ! i;
             a = node_id (heap g s);
             depth = max (visited a) (loopdepth (heap g nd));
             l = unroll_limit cf a;
             bounded = (l \<noteq> 0 \<and> s \<notin> nounroll)
         in if bounded \<and> depth \<ge> l then
              Option.bind (unlink_edge cf nd b g) (unroll_loop cf nounroll stack finished visited copies)
            else do {
              (s, copies, g) \<leftarrow>
                (if bounded \<and> depth > loopdepth (heap g s) then
                   let (u, copies, g) = copy_of cf s depth copies g
                   in map_option (\<lambda>g. (u, copies, link cf nd u b g)) (unlink_edge cf nd b g)
                 else Some (s, copies, g));
              if finished s then unroll_loop cf nounroll ((nd, Suc i) # rest) finished visited copies g
              else unroll_loop cf nounroll ((s, 0) # (nd, Suc i) # rest) finished (visited(a := visited a + 1)) copies g
            }
       else unroll_loop cf nounroll rest (finished(nd := True))
              (visited(node_id (heap g nd) := visited (node_id (heap g nd)) - 1)) copies g)"

declare unroll_loop.simps [code]

definition unroll :: "settings \<Rightarrow> cfg \<Rightarrow> cfg option" where
  "unroll cf g = do {
     nounroll \<leftarrow> loopfree_nodes g (nodes g);
     (copies, g) \<leftarrow> unroll_loop cf nounroll [(start_nd g, 0)] (\<lambda>_. False) (\<lambda>_. 0) Map.empty g;
     Some (g\<lparr>nodes := nodes g @ map (\<lambda>k. the (copies k)) (sorted_list_of_set (dom copies))\<rparr>)
   }"

definition build_cfg :: "settings \<Rightarrow> instr list \<Rightarrow> cfg option" where
  "build_cfg cf ns = do {
     g \<leftarrow> init_nodes cf ns;
     m \<leftarrow> address_map g (nodes g) Map.empty;
     s \<leftarrow> m 0;
     g \<leftarrow> create_all cf m (nodes g) (g\<lparr>start := (start g)\<lparr>sd_nd := Some s\<rparr>\<rparr>);
     g \<leftarrow> remove_unreachable cf g;
     g \<leftarrow> merge_edges g;
     if UNROLL_LIMIT cf \<noteq> 0 \<or> UNROLL_LIMITS cf \<noteq> [] then unroll cf g else Some g
   }"

subsection \<open>Runs\<close>

definition fetch :: "instr list \<Rightarrow> u32 \<Rightarrow> instr option" where
  "fetch ns a = find (\<lambda>n. get_id n = a) ns"

definition next_of :: "instr \<Rightarrow> bool \<Rightarrow> u32 option" where
  "next_of n b = (case itype n of
     FIN \<Rightarrow> None
   | BRANCH \<Rightarrow> if b then br_target (operation n) else Some (get_id n + 1)
   | JUMP \<Rightarrow> if b then br_target (operation n) else None
   | _ \<Rightarrow> if b then None else Some (get_id n + 1))"

fun prog_run :: "instr list \<Rightarrow> u32 \<Rightarrow> bool list \<Rightarrow> (instr \<times> bool) list option" where
  "prog_run ns a [] = (if fetch ns a = None then Some [(fin, False)] else None)"
| "prog_run ns a (b # bs) = do {
     n \<leftarrow> fetch ns a;
     a \<leftarrow> next_of n b;
     map_option ((#) (n, b)) (prog_run ns a bs)
   }"

definition prog_runs :: "instr list \<Rightarrow> (instr \<times> bool) list set" where
  "prog_runs ns = {t. \<exists>bs. prog_run ns 0 bs = Some t}"

text \<open>Inside a node an instruction is applied with the flag false; the last one with the flag of the edge.\<close>

definition straight :: "instr list \<Rightarrow> (instr \<times> bool) list" where
  "straight ns = map (\<lambda>n. (n, False)) ns"

definition flagged :: "instr list \<Rightarrow> bool \<Rightarrow> (instr \<times> bool) list" where
  "flagged ns b = straight (butlast ns) @ [(last ns, b)]"

fun graph_run :: "cfg \<Rightarrow> nptr \<Rightarrow> bool list \<Rightarrow> (instr \<times> bool) list option" where
  "graph_run g p [] = (if outdegree (heap g p) = 0 then Some (straight (instrs (heap g p))) else None)"
| "graph_run g p (b # bs) = do {
     q \<leftarrow> sd_nd (succ (heap g p) b);
     map_option ((@) (flagged (instrs (heap g p)) b)) (graph_run g q bs)
   }"

definition graph_runs :: "cfg \<Rightarrow> (instr \<times> bool) list set" where
  "graph_runs g = {t. \<exists>bs. graph_run g (start_nd g) bs = Some t}"

subsection \<open>The graph of the listing\<close>

text \<open>The addresses are distinct and below that of the final instruction, which the listing does not hold.\<close>

definition listing_ok :: "instr list \<Rightarrow> bool" where
  "listing_ok ns \<longleftrightarrow> distinct (map get_id ns) \<and> 0 \<in> get_id ` set ns
     \<and> (\<forall>n \<in> set ns. get_id n < get_id fin \<and> itype n \<noteq> FIN)"

lemma fetch_Some: "distinct (map get_id ns) \<Longrightarrow> fetch ns a = Some n \<longleftrightarrow> n \<in> set ns \<and> get_id n = a"
  unfolding fetch_def by (induction ns) force+

lemma fetch_None: "fetch ns a = None \<longleftrightarrow> a \<notin> get_id ` set ns"
  unfolding fetch_def find_None_iff by blast

lemma br_target_Some: "itype n = BRANCH \<or> itype n = JUMP \<Longrightarrow> \<exists>t. br_target (operation n) = Some t"
  by (cases "operation n") (auto simp: itype_def br_target_def)

lemma next_of_FIN: "itype n = FIN \<longleftrightarrow> next_of n True = None \<and> next_of n False = None"
  using br_target_Some [of n] by (auto simp: next_of_def split: instr_type.splits)

lemma address_map_defined:
  "address_map g ps m \<noteq> None \<longleftrightarrow> distinct (map (\<lambda>p. node_id (heap g p)) ps) \<and> (\<forall>p \<in> set ps. m (node_id (heap g p)) = None)"
proof (induction g ps m rule: address_map.induct)
  case (2 g p ps m)
  let ?a = "node_id (heap g p)"
  have upd: "(m(?a \<mapsto> p)) x = None \<longleftrightarrow> x \<noteq> ?a \<and> m x = None" for x by simp
  show ?case
  proof (cases "m ?a")
    case None
    then have "\<not> m ?a \<noteq> None" by simp
    then show ?thesis using "2.IH" unfolding upd by (auto simp: image_iff simp del: fun_upd_apply)
  qed simp
qed simp

lemma address_map_eq:
  "address_map g ps m = Some m' \<Longrightarrow> m' a = Some q \<longleftrightarrow> m a = Some q \<or> q \<in> set ps \<and> node_id (heap g q) = a"
proof (induction g ps m rule: address_map.induct)
  case (2 g p ps m)
  let ?b = "node_id (heap g p)"
  have f: "m ?b = None" "address_map g ps (m(?b \<mapsto> p)) = Some m'" using "2.prems" by (simp_all split: if_splits)
  have "\<not> m ?b \<noteq> None" using f by simp
  then have "m' a = Some q \<longleftrightarrow> (m(?b \<mapsto> p)) a = Some q \<or> q \<in> set ps \<and> node_id (heap g q) = a"
    using "2.IH" f(2) by blast
  then show ?case using f(1) by (cases "a = ?b") auto
qed simp

text \<open>One node: \<open>next\<close> says where its edges go.\<close>

definition exits :: "nptr \<Rightarrow> (u32 \<rightharpoonup> nptr) \<Rightarrow> instr \<Rightarrow> bool \<Rightarrow> nptr option" where
  "exits e m n b = map_option (\<lambda>a. case m a of Some q \<Rightarrow> q | None \<Rightarrow> e) (next_of n b)"

lemma link_nodes_sel [simp]:
  "nodes (link_nodes cf p a m b g) = nodes g" "start (link_nodes cf p a m b g) = start g"
  "fin_nd (link_nodes cf p a m b g) = fin_nd g" "instrs (heap (link_nodes cf p a m b g) r) = instrs (heap g r)"
  "edge (link_nodes cf p a m b g) r c s
     \<longleftrightarrow> (if r = p \<and> c = b then s = (case m a of Some q \<Rightarrow> q | None \<Rightarrow> fin_nd g) else edge g r c s)"
  by (simp_all add: link_nodes_def) (simp_all add: link_def)

lemma create_edges_correct:
  assumes m: "mirrored g A" and p: "p \<in> A" "instrs (heap g p) = [n]" "\<forall>b q. \<not> edge g p b q"
    and t: "fin_nd g \<in> A" "ran m \<subseteq> A"
  shows "create_edges cf m p g = None \<longleftrightarrow> itype n = FIN \<and> p \<noteq> fin_nd g"
    "create_edges cf m p g = Some h \<Longrightarrow> mirrored h A
       \<and> (\<forall>r c s. edge h r c s \<longleftrightarrow> edge g r c s \<or> r = p \<and> exits (fin_nd g) m n c = Some s)
       \<and> (\<forall>r. instrs (heap h r) = instrs (heap g r)) \<and> nodes h = nodes g \<and> start h = start g \<and> fin_nd h = fin_nd g"
proof -
  note sel = exit_type_def br_id_def next_id_def p(2)
  let ?to = "\<lambda>a. case m a of Some q \<Rightarrow> q | None \<Rightarrow> fin_nd g"
  have to: "?to a \<in> A" for a using t by (auto simp: ran_def split: option.split)
  have l: "mirrored (link_nodes cf p a m b g') A" if "mirrored g' A" "fin_nd g' = fin_nd g" "\<And>q. \<not> edge g' p b q" for a b g'
    unfolding link_nodes_def that(2) by (rule mirrored_link) (use that p(1) to in auto)
  have "exit_type (heap g p) = itype n" "br_id (heap g p) = br_target (operation n)" by (simp_all add: sel)
  then show "create_edges cf m p g = None \<longleftrightarrow> itype n = FIN \<and> p \<noteq> fin_nd g"
    using br_target_Some [of n] by (cases "itype n") (simp_all add: create_edges_def Let_def)
  assume h: "create_edges cf m p g = Some h"
  show "mirrored h A
       \<and> (\<forall>r c s. edge h r c s \<longleftrightarrow> edge g r c s \<or> r = p \<and> exits (fin_nd g) m n c = Some s)
       \<and> (\<forall>r. instrs (heap h r) = instrs (heap g r)) \<and> nodes h = nodes g \<and> start h = start g \<and> fin_nd h = fin_nd g"
  proof (cases "itype n")
    case FIN
    then show ?thesis using h m by (auto simp: create_edges_def sel Let_def exits_def next_of_def split: if_splits)
  next
    case BRANCH
    then obtain a where a: "br_target (operation n) = Some a" using br_target_Some by blast
    then have "h = link_nodes cf p a m True (link_nodes cf p (get_id n + 1) m False g)"
      using h BRANCH by (simp add: create_edges_def sel Let_def)
    moreover have "mirrored (link_nodes cf p a m True (link_nodes cf p (get_id n + 1) m False g)) A"
      by (intro l) (use m p in auto)
    moreover have "exits (fin_nd g) m n c = Some (?to (if c then a else get_id n + 1))" for c
      using a BRANCH by (simp add: exits_def next_of_def)
    ultimately show ?thesis using p(3) by (auto split: option.split)
  next
    case JUMP
    then obtain a where a: "br_target (operation n) = Some a" using br_target_Some by blast
    then have "h = link_nodes cf p a m True g" using h JUMP by (simp add: create_edges_def sel Let_def)
    moreover have "exits (fin_nd g) m n c = (if c then Some (?to a) else None)" for c
      using a JUMP by (simp add: exits_def next_of_def)
    ultimately show ?thesis using p(3) l [OF m refl p(3) [rule_format]] by auto
  qed (use h l [OF m refl p(3) [rule_format]] p(3) in \<open>auto simp: create_edges_def sel Let_def exits_def next_of_def split: if_splits option.splits\<close>)
qed

lemma create_all_correct:
  assumes "mirrored g A" "set ps \<subseteq> A" "distinct ps" "fin_nd g \<in> A" "ran m \<subseteq> A"
    "\<forall>p \<in> A. instrs (heap g p) = [inst p]" "\<forall>p \<in> set ps. \<forall>b q. \<not> edge g p b q"
  shows "create_all cf m ps g = None \<longleftrightarrow> (\<exists>p \<in> set ps. itype (inst p) = FIN \<and> p \<noteq> fin_nd g)"
    "create_all cf m ps g = Some h \<Longrightarrow> mirrored h A
       \<and> (\<forall>r c s. edge h r c s \<longleftrightarrow> edge g r c s \<or> r \<in> set ps \<and> exits (fin_nd g) m (inst r) c = Some s)
       \<and> (\<forall>r. instrs (heap h r) = instrs (heap g r)) \<and> nodes h = nodes g \<and> start h = start g \<and> fin_nd h = fin_nd g"
proof -
  define Q where "Q ps g h \<longleftrightarrow> mirrored h A
       \<and> (\<forall>r c s. edge h r c s \<longleftrightarrow> edge g r c s \<or> r \<in> set ps \<and> exits (fin_nd g) m (inst r) c = Some s)
       \<and> (\<forall>r. instrs (heap h r) = instrs (heap g r)) \<and> nodes h = nodes g \<and> start h = start g \<and> fin_nd h = fin_nd g"
    for ps g h
  have "(create_all cf m ps g = None \<longleftrightarrow> (\<exists>p \<in> set ps. itype (inst p) = FIN \<and> p \<noteq> fin_nd g))
    \<and> (create_all cf m ps g = Some h \<longrightarrow> Q ps g h)"
    using assms
  proof (induction ps arbitrary: g)
    case Nil
    then show ?case by (auto simp: Q_def)
  next
    case (Cons p ps)
    have p: "p \<in> A" "instrs (heap g p) = [inst p]" "\<forall>b q. \<not> edge g p b q" using Cons.prems by auto
    note c = create_edges_correct [OF Cons.prems(1) p Cons.prems(4,5)]
    show ?case
    proof (cases "create_edges cf m p g")
      case None
      then show ?thesis using c(1) [of cf] by auto
    next
      case (Some g')
      note g' = c(2) [OF Some]
      have e: "edge g' r c s \<longleftrightarrow> edge g r c s \<or> r = p \<and> exits (fin_nd g) m (inst p) c = Some s" for r c s using g' by blast
      have eq: "instrs (heap g' r) = instrs (heap g r)" "nodes g' = nodes g" "start g' = start g" "fin_nd g' = fin_nd g" for r
        using g' by blast+
      have IH: "(create_all cf m ps g' = None \<longleftrightarrow> (\<exists>p \<in> set ps. itype (inst p) = FIN \<and> p \<noteq> fin_nd g'))
          \<and> (create_all cf m ps g' = Some h \<longrightarrow> Q ps g' h)"
        by (rule Cons.IH) (use g' Cons.prems eq e in auto)
      have "\<not> (itype (inst p) = FIN \<and> p \<noteq> fin_nd g)" using c(1) [of cf] Some by simp
      moreover have "Q ps g' h \<Longrightarrow> Q (p # ps) g h" unfolding Q_def eq e by (auto 0 3)
      ultimately show ?thesis using IH by (simp add: Some eq) blast
    qed
  qed
  then show "create_all cf m ps g = None \<longleftrightarrow> (\<exists>p \<in> set ps. itype (inst p) = FIN \<and> p \<noteq> fin_nd g)"
    "create_all cf m ps g = Some h \<Longrightarrow> mirrored h A
       \<and> (\<forall>r c s. edge h r c s \<longleftrightarrow> edge g r c s \<or> r \<in> set ps \<and> exits (fin_nd g) m (inst r) c = Some s)
       \<and> (\<forall>r. instrs (heap h r) = instrs (heap g r)) \<and> nodes h = nodes g \<and> start h = start g \<and> fin_nd h = fin_nd g"
    unfolding Q_def by blast+
qed

text \<open>The node at position \<open>i\<close> of the listing holds its instruction; the final node comes after them.\<close>

definition inst_at :: "instr list \<Rightarrow> nptr \<Rightarrow> instr" where
  "inst_at ns p = (if p < length ns then ns ! p else fin)"

lemma instrs_new_node [simp]: "instrs (new_node cf ns) = ns" "preds (new_node cf ns) = []" "sd_nd (succ (new_node cf ns) b) = None"
  by (simp_all add: new_node_def succ_def)

lemma init_nodes_Some:
  assumes "init_nodes cf ns = Some g"
  shows "\<And>p. instrs (heap g p) = [inst_at ns p]" "\<And>p b q. \<not> edge g p b q" "nodes g = [0..<Suc (length ns)]"
    "fin_nd g = length ns" "mirrored g {..length ns}"
  using assms by (auto simp: init_nodes_def inst_at_def edge_def mirrored_def split: if_splits)

lemma init_nodes_None: "init_nodes cf ns = None \<longleftrightarrow> (\<exists>n \<in> set ns. get_id n \<ge> get_id fin)"
  by (simp add: init_nodes_def)

lemma addresses_distinct:
  assumes "\<forall>n \<in> set ns. get_id n < get_id fin"
  shows "distinct (map (\<lambda>p. get_id (inst_at ns p)) [0..<Suc (length ns)]) \<longleftrightarrow> distinct (map get_id ns)"
proof -
  have "map (\<lambda>p. get_id (inst_at ns p)) [0..<Suc (length ns)] = map get_id ns @ [get_id fin]"
    by (rule nth_equalityI) (auto simp: inst_at_def nth_append simp del: upt_Suc)
  then show ?thesis using assms by auto
qed

text \<open>The construction up to the edges succeeds exactly on a listing that is in order.\<close>

definition edges_graph :: "settings \<Rightarrow> instr list \<Rightarrow> cfg option" where
  "edges_graph cf ns = do {
     g \<leftarrow> init_nodes cf ns;
     m \<leftarrow> address_map g (nodes g) Map.empty;
     s \<leftarrow> m 0;
     create_all cf m (nodes g) (g\<lparr>start := (start g)\<lparr>sd_nd := Some s\<rparr>\<rparr>)
   }"

lemma build_cfg_edges_graph:
  "build_cfg cf ns = do {
     g \<leftarrow> edges_graph cf ns;
     g \<leftarrow> remove_unreachable cf g;
     g \<leftarrow> merge_edges g;
     if UNROLL_LIMIT cf \<noteq> 0 \<or> UNROLL_LIMITS cf \<noteq> [] then unroll cf g else Some g
   }"
  by (simp add: build_cfg_def edges_graph_def)

lemma edges_graph_correct:
  assumes g: "init_nodes cf ns = Some g" and m: "address_map g (nodes g) Map.empty = Some m" and s: "m 0 = Some s"
  shows "edges_graph cf ns = None \<longleftrightarrow> (\<exists>n \<in> set ns. itype n = FIN)"
    "edges_graph cf ns = Some h \<Longrightarrow> graph_ok h \<and> (\<forall>p. instrs (heap h p) = [inst_at ns p]) \<and> start_nd h = s
       \<and> fin_nd h = length ns \<and> set (nodes h) = {..length ns}
       \<and> (\<forall>p \<le> length ns. \<forall>c q. edge h p c q \<longleftrightarrow> exits (length ns) m (inst_at ns p) c = Some q)"
proof -
  note i = init_nodes_Some [OF g]
  define g' where "g' = g\<lparr>start := (start g)\<lparr>sd_nd := Some s\<rparr>\<rparr>"
  have ns: "set (nodes g) = {..length ns}" by (auto simp: i(3))
  have m': "m a = Some q \<Longrightarrow> q \<in> {..length ns}" for a q using address_map_eq [OF m, of a q] ns by auto
  have e: "edges_graph cf ns = create_all cf m (nodes g) g'" using g m s by (simp add: edges_graph_def g'_def)
  have fin: "itype (inst_at ns (length ns)) = FIN" by (simp add: inst_at_def fin_def itype_def)
  have c: "mirrored g' {..length ns}" "set (nodes g) \<subseteq> {..length ns}" "distinct (nodes g)" "fin_nd g' \<in> {..length ns}"
    "ran m \<subseteq> {..length ns}"
    using i ns m' by (auto simp: g'_def mirrored_def edge_def ran_def)
  have c': "\<forall>p \<in> {..length ns}. instrs (heap g' p) = [inst_at ns p]" "\<forall>p \<in> set (nodes g). \<forall>b q. \<not> edge g' p b q"
    using i(1,2) by (simp_all add: g'_def edge_def)
  note c = create_all_correct [OF c c']
  have "(\<exists>p \<in> set (nodes g). itype (inst_at ns p) = FIN \<and> p \<noteq> fin_nd g') \<longleftrightarrow> (\<exists>n \<in> set ns. itype n = FIN)"
  proof -
    have "(\<exists>p \<in> {..length ns}. itype (inst_at ns p) = FIN \<and> p \<noteq> length ns)
        \<longleftrightarrow> (\<exists>p. (p \<le> length ns \<and> p \<noteq> length ns) \<and> itype (inst_at ns p) = FIN)" by blast
    also have "\<dots> \<longleftrightarrow> (\<exists>p < length ns. itype (ns ! p) = FIN)"
      unfolding nat_less_le [symmetric] by (simp add: inst_at_def cong: conj_cong)
    also have "\<dots> \<longleftrightarrow> (\<exists>n \<in> set ns. itype n = FIN)" unfolding Bex_def in_set_conv_nth by blast
    finally show ?thesis by (simp add: ns g'_def i(4))
  qed
  then show "edges_graph cf ns = None \<longleftrightarrow> (\<exists>n \<in> set ns. itype n = FIN)" unfolding e c(1) .
  assume "edges_graph cf ns = Some h"
  then have h: "mirrored h {..length ns}"
     "\<And>r c s. edge h r c s \<longleftrightarrow> edge g' r c s \<or> r \<in> set (nodes g) \<and> exits (fin_nd g') m (inst_at ns r) c = Some s"
     "\<And>r. instrs (heap h r) = instrs (heap g' r)" "nodes h = nodes g'" "start h = start g'" "fin_nd h = fin_nd g'"
    using c(2) [of cf h] unfolding e by blast+
  have "start_nd h = s" by (simp add: start_nd_def h(5) g'_def)
  moreover have "edge h p c q \<longleftrightarrow> exits (length ns) m (inst_at ns p) c = Some q" if "p \<le> length ns" for p c q
    using that i(2) by (simp add: h(2) ns) (simp add: g'_def i(4) edge_def)
  moreover have "s \<le> length ns" using m' [OF s] by simp
  moreover have "nodes h = nodes g" "instrs (heap h p) = [inst_at ns p]" "fin_nd h = length ns" for p
    using i by (simp_all add: h g'_def)
  ultimately show "graph_ok h \<and> (\<forall>p. instrs (heap h p) = [inst_at ns p]) \<and> start_nd h = s
       \<and> fin_nd h = length ns \<and> set (nodes h) = {..length ns}
       \<and> (\<forall>p \<le> length ns. \<forall>c q. edge h p c q \<longleftrightarrow> exits (length ns) m (inst_at ns p) c = Some q)"
    using h(1) ns by (simp add: graph_ok_def i(3) del: upt_Suc)
qed

lemma edges_graph_None:
  "edges_graph cf ns \<noteq> None \<longleftrightarrow> listing_ok ns"
proof (cases "init_nodes cf ns")
  case None
  then have "\<not> listing_ok ns" unfolding listing_ok_def init_nodes_None by (meson leD)
  then show ?thesis using None by (simp add: edges_graph_def)
next
  case (Some g)
  note i = init_nodes_Some [OF Some]
  have lt: "\<forall>n \<in> set ns. get_id n < get_id fin" using Some by (auto simp: init_nodes_def split: if_splits)
  have ids: "node_id (heap g p) = get_id (inst_at ns p)" for p by (simp add: node_id_def i(1))
  have d: "address_map g (nodes g) Map.empty \<noteq> None \<longleftrightarrow> distinct (map get_id ns)"
    unfolding address_map_defined ids using addresses_distinct [OF lt] by (simp add: i(3) del: upt_Suc)
  show ?thesis
  proof (cases "address_map g (nodes g) Map.empty")
    case None
    then show ?thesis using d by (auto simp: edges_graph_def Some listing_ok_def)
  next
    case m: (Some m)
    have "0 \<noteq> get_id fin" by (simp add: fin_def)
    then have z: "m 0 \<noteq> None \<longleftrightarrow> 0 \<in> get_id ` set ns"
    proof -
      have "m 0 \<noteq> None \<longleftrightarrow> (\<exists>p \<le> length ns. get_id (inst_at ns p) = 0)"
        using address_map_eq [OF m, of 0] by (auto simp: ids i(3) less_Suc_eq_le simp del: upt_Suc)
      also have "\<dots> \<longleftrightarrow> (\<exists>p < length ns. get_id (ns ! p) = 0)"
        using \<open>0 \<noteq> get_id fin\<close> by (auto simp: inst_at_def le_less)
      also have "\<dots> \<longleftrightarrow> 0 \<in> get_id ` set ns" by (auto simp: in_set_conv_nth image_iff) (metis nth_mem)
      finally show ?thesis .
    qed
    show ?thesis
    proof (cases "m 0")
      case None
      then have "0 \<notin> get_id ` set ns" using z by simp
      then show ?thesis using None by (simp add: edges_graph_def Some m listing_ok_def)
    next
      case s: (Some s)
      then have "0 \<in> get_id ` set ns" using z by simp
      moreover have "edges_graph cf ns \<noteq> None \<longleftrightarrow> (\<forall>n \<in> set ns. itype n \<noteq> FIN)"
        unfolding edges_graph_correct(1) [OF Some m s] by simp
      ultimately show ?thesis using d m lt by (simp add: listing_ok_def)
    qed
  qed
qed

text \<open>Following the edges from the node of an address is running the program from there.\<close>

lemma edges_graph_run:
  assumes "edges_graph cf ns = Some h"
  shows "graph_ok h" "graph_run h (start_nd h) bs = prog_run ns 0 bs"
    "fin_nd h = length ns" "set (nodes h) = {..length ns}" "\<And>p. instrs (heap h p) = [inst_at ns p]"
    "node_id (heap h (start_nd h)) = 0"
    "\<And>p q c. p \<le> length ns \<Longrightarrow> edge h p c q \<Longrightarrow> c = False \<Longrightarrow> node_id (heap h p) < node_id (heap h q)"
    "\<And>p c. p \<le> length ns \<Longrightarrow> (\<exists>q. edge h p c q) \<longleftrightarrow> next_of (inst_at ns p) c \<noteq> None"
proof -
  obtain g m s where gms: "init_nodes cf ns = Some g" "address_map g (nodes g) Map.empty = Some m" "m 0 = Some s"
    using assms by (auto simp: edges_graph_def bind_eq_Some_conv)
  have ok: "listing_ok ns" using assms edges_graph_None [of cf ns] by simp
  note i = init_nodes_Some [OF gms(1)]
  have h: "graph_ok h" "\<And>p. instrs (heap h p) = [inst_at ns p]" "start_nd h = s" "fin_nd h = length ns"
     "set (nodes h) = {..length ns}" "\<And>p c q. p \<le> length ns \<Longrightarrow> edge h p c q \<longleftrightarrow> exits (length ns) m (inst_at ns p) c = Some q"
    using edges_graph_correct(2) [OF gms assms] by blast+
  have m: "m a = Some q \<longleftrightarrow> q \<le> length ns \<and> get_id (inst_at ns q) = a" for a q
    using address_map_eq [OF gms(2), of a q] by (auto simp: node_id_def i(1,3) less_Suc_eq_le simp del: upt_Suc)
  have itf: "itype fin = FIN" by (simp add: fin_def itype_def)
  show "graph_ok h" "fin_nd h = length ns" "set (nodes h) = {..length ns}" "\<And>p. instrs (heap h p) = [inst_at ns p]"
    by (fact h)+
  show "node_id (heap h (start_nd h)) = 0" using gms(3) by (simp add: node_id_def h m)
  show ex: "(\<exists>q. edge h p c q) \<longleftrightarrow> next_of (inst_at ns p) c \<noteq> None" if "p \<le> length ns" for p c
    using that by (auto simp: h(6) exits_def)
  show "node_id (heap h p) < node_id (heap h q)" if p: "p \<le> length ns" "edge h p c q" "c = False" for p q c
  proof -
    have itp: "next_of (inst_at ns p) False \<noteq> None" using ex [OF p(1), of False] p(2,3) by blast
    then have pl: "p < length ns" using p(1) by (cases "p = length ns") (auto simp: inst_at_def next_of_def itf)
    then have "get_id (ns ! p) < get_id fin" using ok by (simp add: listing_ok_def)
    then have lt: "get_id (ns ! p) < get_id (ns ! p) + 1" "get_id (ns ! p) < get_id fin"
      by (auto simp: fin_def word_less_nat_alt unat_word_ariths)
    have "next_of (inst_at ns p) False = Some (get_id (ns ! p) + 1)"
      using itp pl by (auto simp: next_of_def inst_at_def split: instr_type.splits)
    then have "q = (case m (get_id (ns ! p) + 1) of Some q \<Rightarrow> q | None \<Rightarrow> length ns)"
      using p h(6) [OF p(1), of False q] by (simp add: exits_def)
    then have "get_id (inst_at ns q) = get_id (ns ! p) + 1 \<or> get_id (inst_at ns q) = get_id fin"
      using m [of "get_id (ns ! p) + 1" q] by (cases "m (get_id (ns ! p) + 1)") (simp_all add: inst_at_def)
    moreover have "inst_at ns p = ns ! p" using pl by (simp add: inst_at_def)
    ultimately show ?thesis using lt unfolding node_id_def h(2) list.sel by metis
  qed
  let ?to = "\<lambda>a. case m a of Some q \<Rightarrow> q | None \<Rightarrow> length ns"
  have to_None: "?to a = length ns" if "fetch ns a = None" for a
  proof -
    have "q = length ns" if q: "m a = Some q" for q
      using m [of a q] q \<open>fetch ns a = None\<close> by (auto simp: fetch_None inst_at_def split: if_splits)
    then show ?thesis by (auto split: option.split)
  qed
  have to_Some: "?to a < length ns \<and> inst_at ns (?to a) = n" if "fetch ns a = Some n" for a n
  proof -
    have n: "n \<in> set ns" "get_id n = a" using that ok by (simp_all add: fetch_Some listing_ok_def)
    then obtain i where i: "i < length ns" "ns ! i = n" by (auto simp: in_set_conv_nth)
    then have "m a = Some i" using n by (simp add: m inst_at_def)
    then show ?thesis using i by (simp add: inst_at_def)
  qed
  have sd: "sd_nd (succ (heap h p) b) = map_option ?to (next_of (inst_at ns p) b)" if "p \<le> length ns" for p b
    by (rule option_eqI) (use h(6) [OF that, of b] in \<open>simp only: edge_def exits_def\<close>)
  have "graph_run h (?to a) bs = prog_run ns a bs" for a
  proof (induction bs arbitrary: a)
    case Nil
    show ?case
    proof (cases "fetch ns a")
      case None
      have "next_of fin b = None" for b by (simp add: next_of_def itf)
      then have "outdegree (heap h (length ns)) = 0"
        using ex [of "length ns"] by (simp add: outdegree_0 inst_at_def)
      then show ?thesis using to_None [OF None] None by (simp add: h(2) inst_at_def straight_def)
    next
      case (Some n)
      note t = to_Some [OF Some]
      have "itype n \<noteq> FIN" using Some ok by (auto simp: fetch_Some listing_ok_def)
      then have "next_of n True \<noteq> None \<or> next_of n False \<noteq> None" unfolding next_of_FIN by simp
      then have "outdegree (heap h (?to a)) \<noteq> 0" using ex [of "?to a"] t unfolding outdegree_0 by auto
      then show ?thesis using Some by simp
    qed
  next
    case (Cons b bs)
    show ?case
    proof (cases "fetch ns a")
      case None
      have "next_of fin b = None" by (simp add: next_of_def itf)
      then show ?thesis using to_None [OF None] None sd [of "length ns" b] by (simp add: inst_at_def)
    next
      case (Some n)
      note t = to_Some [OF Some]
      have "sd_nd (succ (heap h (?to a)) b) = map_option ?to (next_of n b)" using sd [of "?to a" b] t by simp
      moreover have "flagged (instrs (heap h (?to a))) b = [(n, b)]" using t by (simp add: h(2) flagged_def straight_def)
      moreover have "(@) [(n, b)] = (#) (n, b)" by (simp add: fun_eq_iff)
      ultimately show ?thesis using Some Cons.IH by (cases "next_of n b") auto
    qed
  qed
  then show "graph_run h (start_nd h) bs = prog_run ns 0 bs" by (metis gms(3) h(3) option.simps(5))
qed

subsection \<open>Reachable nodes\<close>

lemma graph_run_cong:
  assumes "p \<in> A" "\<And>p b q. p \<in> A \<Longrightarrow> edge g p b q \<Longrightarrow> q \<in> A"
    "\<And>p b q. p \<in> A \<Longrightarrow> edge h p b q \<longleftrightarrow> edge g p b q" "\<And>p. p \<in> A \<Longrightarrow> instrs (heap h p) = instrs (heap g p)"
  shows "graph_run h p bs = graph_run g p bs"
  using assms(1)
proof (induction bs arbitrary: p)
  case Nil
  then show ?case using assms(3,4) [of p] by (simp add: outdegree_0)
next
  case (Cons b bs)
  have "sd_nd (succ (heap h p) b) = sd_nd (succ (heap g p) b)"
    by (rule option_eqI) (use assms(3) [OF Cons.prems] in \<open>simp add: edge_def\<close>)
  moreover have "sd_nd (succ (heap g p) b) = Some q \<Longrightarrow> graph_run h q bs = graph_run g q bs" for q
    using assms(2) Cons by (simp add: edge_def)
  ultimately show ?case using assms(4) [OF Cons.prems] by (cases "sd_nd (succ (heap g p) b)") simp_all
qed

lemma remove_unreachable_runs:
  assumes "graph_ok g" "remove_unreachable cf g = Some h"
  shows "graph_runs h = graph_runs g"
proof -
  obtain h' where h': "remove_unreachable cf g = Some h'" "graph_ok h'"
    "\<And>p b q. p \<in> set (nodes h') \<Longrightarrow> edge h' p b q \<longleftrightarrow> edge g p b q"
    "\<And>p. instrs (heap h' p) = instrs (heap g p)" "start h' = start g"
    by (rule remove_unreachable_correct [OF assms(1), of cf]) blast
  then have h: "h' = h" using assms(2) by simp
  note g = graph_okD [OF h'(2)]
  have "start_nd h = start_nd g" using h'(5) by (simp add: start_nd_def h)
  moreover have "graph_run h (start_nd h) bs = graph_run g (start_nd h) bs" for bs
  proof (rule graph_run_cong [of _ "set (nodes h)"])
    show "p \<in> set (nodes h) \<Longrightarrow> edge g p b q \<Longrightarrow> q \<in> set (nodes h)" for p b q
      using g(4) [of p q] h'(3) [of p b q] unfolding step_def h by blast
  qed (use h' g in \<open>auto simp: h\<close>)
  ultimately show ?thesis by (simp add: graph_runs_def)
qed

subsection \<open>Merged chains\<close>

text \<open>
  A node that ends in neither a jump nor a branch falls through to an instruction behind it, so that a
  chain of such nodes is not a circle and does not lead back to the start.
\<close>

definition forward :: "cfg \<Rightarrow> nptr set \<Rightarrow> bool" where
  "forward g A \<longleftrightarrow> (\<forall>p \<in> A. instrs (heap g p) \<noteq> [] \<and> (exit_type (heap g p) = JUMP \<or> (\<forall>b. \<exists>q. edge g p b q)
     \<or> (\<forall>q. \<not> edge g p True q) \<and> (\<forall>q. edge g p False q \<longrightarrow> node_id (heap g p) < node_id (heap g q))))"

lemma edges_graph_forward:
  assumes "edges_graph cf ns = Some h"
  shows "forward h (set (nodes h))"
proof -
  note e = edges_graph_run [OF assms]
  have "exit_type (heap h p) = JUMP \<or> (\<forall>b. \<exists>q. edge h p b q)
     \<or> (\<forall>q. \<not> edge h p True q) \<and> (\<forall>q. edge h p False q \<longrightarrow> node_id (heap h p) < node_id (heap h q))"
    if p: "p \<le> length ns" for p
  proof (cases "itype (inst_at ns p) = JUMP \<or> itype (inst_at ns p) = BRANCH")
    case True
    then show ?thesis using br_target_Some [of "inst_at ns p"] e(8) [OF p]
      by (auto simp: exit_type_def e(5) next_of_def)
  next
    case False
    then have "next_of (inst_at ns p) True = None" by (auto simp: next_of_def split: instr_type.split)
    then show ?thesis using e(8) [OF p, of True] e(7) [OF p] by blast
  qed
  then show ?thesis by (simp add: forward_def e)
qed

lemma mergeable_chain:
  assumes "mergeable g deleted p = Some q" "mirrored g A" "forward g A" "p \<in> A"
  shows "chain g p q" "q \<in> A" "node_id (heap g p) < node_id (heap g q)" "\<not> deleted p"
proof -
  have m: "\<not> deleted p" "exit_type (heap g p) \<noteq> JUMP" "length (succs (heap g p)) = 1" "indegree (heap g q) = 1"
    "q = fst (hd (succs (heap g p)))"
    using assms(1) by (auto simp: mergeable_def Let_def outdegree_length split: if_splits)
  obtain b where "succs (heap g p) = [(q, b)]" using m(3,5) by (cases "succs (heap g p)") auto
  then have e: "edge g p c r \<longleftrightarrow> r = q \<and> c = b" for c r using set_succs [of g p] by auto
  then have "\<not> (\<forall>b. \<exists>q. edge g p b q)" by (metis (full_types))
  then have f: "\<not> edge g p True r" "edge g p False r \<Longrightarrow> node_id (heap g p) < node_id (heap g r)" for r
    using assms(3,4) m(2) unfolding forward_def by blast+
  then have b: "b = False" "edge g p False q" using e by (cases b; blast)+
  show q: "q \<in> A" using mirroredD(3) [OF assms(2,4) b(2)] .
  show lt: "node_id (heap g p) < node_id (heap g q)" using f(2) b(2) .
  have "(p, False) \<in> set (preds (heap g q))" using mirroredD(2) [OF assms(2) q] assms(4) b(2) by blast
  then have "preds (heap g q) = [(p, False)]" using m(4) by (cases "preds (heap g q)") (auto simp: indegree_def)
  then show "chain g p q" using lt f(1) b(2) by (auto simp: chain_def)
  show "\<not> deleted p" by (fact m(1))
qed

lemma straight_simps [simp]: "straight [] = []" "straight (ms @ ns) = straight ms @ straight ns"
  by (simp_all add: straight_def)

lemma flagged_False: "ns \<noteq> [] \<Longrightarrow> flagged ns False = straight ns"
  by (cases ns rule: rev_cases) (simp_all add: flagged_def straight_def)

lemma flagged_append: "ns \<noteq> [] \<Longrightarrow> flagged (ms @ ns) b = straight ms @ flagged ns b"
  by (simp add: flagged_def butlast_append)

text \<open>A run that passes the merged node takes one step less.\<close>

lemma merge_node_run:
  assumes mg: "merge_node p q g = Some h" and m: "mirrored g A" and A: "p \<in> A" "q \<in> A" and c: "chain g p q"
    and ne: "\<And>r. r \<in> A \<Longrightarrow> instrs (heap g r) \<noteq> []" and r: "r \<in> A" "r \<noteq> q"
  shows "(\<exists>bs. graph_run g r bs = Some t) \<longleftrightarrow> (\<exists>bs. graph_run h r bs = Some t)"
proof -
  note ms = merge_node_Some [OF mg]
  have e: "sd_nd (succ (heap h r) b) = sd_nd (succ (heap g (if r = p then q else r)) b)" for r b
    by (rule option_eqI) (use ms(6) [of r b] in \<open>simp add: edge_def\<close>)
  have out: "outdegree (heap h r) = outdegree (heap g (if r = p then q else r))" for r
    by (simp add: outdegree_def e [of _ True, simplified succ_def, simplified] e [of _ False, simplified succ_def, simplified])
  have p: "sd_nd (succ (heap g p) b) = (if b then None else Some q)" for b
    by (rule option_eqI) (use c edge_unique [of g p b] in \<open>auto simp: chain_def edge_def\<close>)
  have step: "s \<in> A \<and> s \<noteq> q" if "r \<in> A" "r \<noteq> p" "sd_nd (succ (heap g r) b) = Some s" for r b s
    using mirroredD(2) [OF m, of q r b] mirroredD(3) [OF m, of r b s] that c A by (auto simp: chain_def edge_def)
  have i: "instrs (heap h p) = instrs (heap g p) @ instrs (heap g q)" "instrs (heap g p) \<noteq> []" "instrs (heap g q) \<noteq> []"
    using ms(7) A ne by auto
  have same: "instrs (heap h r) = instrs (heap g r)" if "r \<noteq> p" "r \<noteq> q" for r using ms(7) that by simp
  show ?thesis
  proof
    assume "\<exists>bs. graph_run g r bs = Some t"
    then obtain bs where "graph_run g r bs = Some t" ..
    then show "\<exists>bs. graph_run h r bs = Some t"
      using r
    proof (induction bs arbitrary: r t rule: length_induct)
      case (1 bs)
      show ?case
      proof (cases "r = p")
        case False
        show ?thesis
        proof (cases bs)
          case Nil
          then have "graph_run h r [] = Some t" using 1(2,4) False by (simp add: out same split: if_splits)
          then show ?thesis by blast
        next
          case (Cons b bs1)
          then obtain s t' where s: "sd_nd (succ (heap g r) b) = Some s" "graph_run g s bs1 = Some t'"
              "t = flagged (instrs (heap g r)) b @ t'" using 1(2) by (auto simp: bind_eq_Some_conv)
          have "length bs1 < length bs" by (simp add: Cons)
          then obtain bs' where "graph_run h s bs' = Some t'" using 1(1) step [OF 1(3) False s(1)] s(2) by blast
          then have "graph_run h r (b # bs') = Some t" using s False 1(4) by (simp add: e same)
          then show ?thesis by blast
        qed
      next
        case True
        obtain b bs1 where bs: "bs = b # bs1" using 1(2) True c by (cases bs) (auto simp: outdegree_0 chain_def split: if_splits)
        then obtain t1 where t1: "graph_run g q bs1 = Some t1" "t = straight (instrs (heap g p)) @ t1"
          using 1(2) True by (cases b) (auto simp: p flagged_False i)
        show ?thesis
        proof (cases bs1)
          case Nil
          then have "graph_run h p [] = Some t" using t1 by (simp add: out i split: if_splits)
          then show ?thesis using True by blast
        next
          case (Cons b2 bs2)
          then obtain s t2 where s: "sd_nd (succ (heap g q) b2) = Some s" "graph_run g s bs2 = Some t2"
              "t1 = flagged (instrs (heap g q)) b2 @ t2" using t1(1) by (auto simp: bind_eq_Some_conv)
          have "length bs2 < length bs" by (simp add: bs Cons)
          then obtain bs' where "graph_run h s bs' = Some t2"
            using 1(1) step [OF A(2) ms(1) [symmetric] s(1)] s(2) by blast
          then have "graph_run h p (b2 # bs') = Some t" using s t1(2) by (simp add: e i flagged_append)
          then show ?thesis using True by blast
        qed
      qed
    qed
  next
    assume "\<exists>bs. graph_run h r bs = Some t"
    then obtain bs where "graph_run h r bs = Some t" ..
    then show "\<exists>bs. graph_run g r bs = Some t"
      using r
    proof (induction bs arbitrary: r t)
      case Nil
      show ?case
      proof (cases "r = p")
        case True
        then have "graph_run g p [False] = Some t" using Nil by (simp add: out p i flagged_False split: if_splits)
        then show ?thesis using True by blast
      next
        case False
        then have "graph_run g r [] = Some t" using Nil by (simp add: out same split: if_splits)
        then show ?thesis by blast
      qed
    next
      case (Cons b bs)
      then obtain s t' where s: "sd_nd (succ (heap h r) b) = Some s" "graph_run h s bs = Some t'"
          "t = flagged (instrs (heap h r)) b @ t'" by (auto simp: bind_eq_Some_conv)
      have "s \<in> A \<and> s \<noteq> q" using step [of "if r = p then q else r" b s] s(1) Cons.prems A ms(1) by (simp add: e split: if_splits)
      then obtain bs' where bs': "graph_run g s bs' = Some t'" using Cons.IH s(2) by blast
      show ?case
      proof (cases "r = p")
        case True
        then have "graph_run g p (False # b # bs') = Some t"
          using s bs' by (simp add: e p i flagged_False flagged_append)
        then show ?thesis using True by blast
      next
        case False
        then have "graph_run g r (b # bs') = Some t" using s bs' Cons.prems by (simp add: e same)
        then show ?thesis by blast
      qed
    qed
  qed
qed

lemma forward_merge_node:
  assumes "merge_node p q g = Some h" "mirrored g A" "p \<in> A" "q \<in> A" "chain g p q" "forward g A"
    "node_id (heap g p) < node_id (heap g q)"
  shows "forward h (A - {q})"
proof -
  note ms = merge_node_Some [OF assms(1)]
  have ne: "instrs (heap g p) \<noteq> []" "instrs (heap g q) \<noteq> []" using assms(3,4,6) by (auto simp: forward_def)
  have id: "node_id (heap h r) = node_id (heap g r)" if "r \<noteq> q" for r
    using that ne by (simp add: node_id_def ms(7))
  have ex: "exit_type (heap h r) = exit_type (heap g (if r = p then q else r))" if "r \<noteq> q" for r
    using that ne by (simp add: exit_type_def ms(7))
  have nq: "s \<noteq> q" if "r \<in> A" "edge h r b s" "r \<noteq> q" for r b s
    using that mirroredD(2) [OF assms(2,4), of "if r = p then q else r" b] assms(3-5) ms(1)
    by (auto simp: ms(6) chain_def split: if_splits)
  show ?thesis unfolding forward_def
  proof
    fix r assume r: "r \<in> A - {q}"
    define r' where "r' = (if r = p then q else r)"
    have "r' \<in> A" using r assms(4) by (simp add: r'_def)
    then have f: "exit_type (heap g r') = JUMP \<or> (\<forall>b. \<exists>q. edge g r' b q)
        \<or> (\<forall>q. \<not> edge g r' True q) \<and> (\<forall>q. edge g r' False q \<longrightarrow> node_id (heap g r') < node_id (heap g q))"
      using assms(6) unfolding forward_def by blast
    have lt: "node_id (heap h r) \<le> node_id (heap g r')" using r assms(7) by (auto simp: id r'_def)
    have e: "edge h r b s \<longleftrightarrow> edge g r' b s" for b s by (simp add: ms(6) r'_def)
    have "edge g r' b s \<Longrightarrow> node_id (heap h s) = node_id (heap g s)" for b s using nq [of r b s] r id [of s] e by blast
    then have "(\<forall>q. edge g r' False q \<longrightarrow> node_id (heap g r') < node_id (heap g q))
        \<Longrightarrow> (\<forall>q. edge h r False q \<longrightarrow> node_id (heap h r) < node_id (heap h q))"
      using lt by (metis e order_le_less_trans)
    moreover have "exit_type (heap h r) = exit_type (heap g r')" using ex r by (simp add: r'_def)
    moreover have "instrs (heap h r) \<noteq> []" using r assms(6) ne by (simp add: ms(7) forward_def)
    ultimately show "instrs (heap h r) \<noteq> [] \<and> (exit_type (heap h r) = JUMP \<or> (\<forall>b. \<exists>q. edge h r b q)
        \<or> (\<forall>q. \<not> edge h r True q) \<and> (\<forall>q. edge h r False q \<longrightarrow> node_id (heap h r) < node_id (heap h q)))"
      using f by (metis e)
  qed
qed

definition merge_inv :: "cfg \<Rightarrow> nptr set \<Rightarrow> bool" where
  "merge_inv g A \<longleftrightarrow> mirrored g A \<and> forward g A \<and> start_nd g \<in> A \<and> node_id (heap g (start_nd g)) = 0"

lemma merge_step:
  assumes "merge_inv g A" "mergeable g deleted p = Some q" "p \<in> A"
  obtains h where "merge_node p q g = Some h" "merge_inv h (A - {q})" "q \<in> A" "graph_runs h = graph_runs g"
    "nodes h = nodes g" "start h = start g" "fin_nd h = fin_nd g" "chain g p q" "start_nd g \<noteq> q"
proof -
  have i: "mirrored g A" "forward g A" "start_nd g \<in> A" "node_id (heap g (start_nd g)) = 0"
    using assms(1) by (simp_all add: merge_inv_def)
  note c = mergeable_chain [OF assms(2) i(1,2) assms(3)]
  obtain h where h: "merge_node p q g = Some h" using c(1) by (auto simp: merge_node_def chain_def Let_def)
  note ms = merge_node_Some [OF h]
  have sq: "start_nd g \<noteq> q" using c(3) i(4) by auto
  have s: "start_nd h = start_nd g" by (simp add: start_nd_def ms(3))
  have ne: "\<And>r. r \<in> A \<Longrightarrow> instrs (heap g r) \<noteq> []" using i(2) by (simp add: forward_def)
  have "node_id (heap h (start_nd h)) = 0" using i(3,4) sq ne [OF assms(3)] by (auto simp: s node_id_def ms(7))
  then have "merge_inv h (A - {q})"
    using mirrored_merge_node [OF h i(1) assms(3) c(2,1)] forward_merge_node [OF h i(1) assms(3) c(2,1) i(2) c(3)] i(3) sq
    by (simp add: merge_inv_def s)
  moreover have "graph_runs h = graph_runs g"
    using merge_node_run [OF h i(1) assms(3) c(2,1) ne i(3) sq] by (auto simp: graph_runs_def s)
  ultimately show thesis using that h c(1,2) ms(2-4) sq by blast
qed

text \<open>Whatever a merge of two nodes keeps of the nodes that are left, the loop keeps.\<close>

definition kept_by_merge :: "(cfg \<Rightarrow> nptr set \<Rightarrow> bool) \<Rightarrow> bool" where
  "kept_by_merge P \<longleftrightarrow> (\<forall>g A p q h. P g A \<longrightarrow> mirrored g A \<longrightarrow> chain g p q \<longrightarrow> p \<in> A \<longrightarrow> q \<in> A \<longrightarrow> start_nd g \<noteq> q \<longrightarrow>
       merge_node p q g = Some h \<longrightarrow> P h (A - {q}))
     \<and> (\<forall>g A ns. P g A \<longrightarrow> P (g\<lparr>nodes := ns\<rparr>) A)"

lemma kept_by_mergeD:
  assumes "kept_by_merge P"
  shows "P g A \<Longrightarrow> mirrored g A \<Longrightarrow> chain g p q \<Longrightarrow> p \<in> A \<Longrightarrow> q \<in> A \<Longrightarrow> start_nd g \<noteq> q \<Longrightarrow>
       merge_node p q g = Some h \<Longrightarrow> P h (A - {q})"
    "P g A \<Longrightarrow> P (g\<lparr>nodes := ns\<rparr>) A"
  using assms unfolding kept_by_merge_def by blast+

lemma merge_loop_correct:
  assumes "finite N" "kept_by_merge P" "set ps \<subseteq> N" "merge_inv g {p \<in> N. \<not> deleted p}" "P g {p \<in> N. \<not> deleted p}"
  shows "\<exists>d h. merge_loop ps deleted g = Some (d, h) \<and> merge_inv h {p \<in> N. \<not> d p} \<and> graph_runs h = graph_runs g
    \<and> nodes h = nodes g \<and> start h = start g \<and> fin_nd h = fin_nd g \<and> P h {p \<in> N. \<not> d p}"
  using assms(3-5)
proof (induction "(ps, deleted)" arbitrary: ps deleted g rule: wf_induct_rule
    [OF wf_measures [of "[\<lambda>(ps, deleted). card {p \<in> N. \<not> deleted p}, \<lambda>(ps, deleted). length ps]"]])
  case 1
  show ?case
  proof (cases ps)
    case Nil
    then show ?thesis using 1(3,4) by (simp add: merge_loop.simps)
  next
    case (Cons p rest)
    show ?thesis
    proof (cases "mergeable g deleted p")
      case None
      have "\<exists>d h. merge_loop rest deleted g = Some (d, h) \<and> merge_inv h {p \<in> N. \<not> d p} \<and> graph_runs h = graph_runs g
          \<and> nodes h = nodes g \<and> start h = start g \<and> fin_nd h = fin_nd g \<and> P h {p \<in> N. \<not> d p}"
        using 1(2-4) by (intro 1(1)) (auto simp: Cons)
      then show ?thesis by (subst merge_loop.simps) (simp add: Cons None)
    next
      case (Some q)
      have "\<not> deleted p" using Some by (auto simp: mergeable_def Let_def split: if_splits)
      then have p: "p \<in> {p \<in> N. \<not> deleted p}" using 1(2) Cons by auto
      obtain g' where g': "merge_node p q g = Some g'" "merge_inv g' ({p \<in> N. \<not> deleted p} - {q})"
        "q \<in> {p \<in> N. \<not> deleted p}" "graph_runs g' = graph_runs g" "nodes g' = nodes g" "start g' = start g" "fin_nd g' = fin_nd g" "chain g p q" "start_nd g \<noteq> q"
        by (rule merge_step [OF 1(3) Some p])
      have "P g' ({p \<in> N. \<not> deleted p} - {q})"
        by (rule kept_by_mergeD(1) [OF assms(2) 1(4) _ g'(8) p g'(3,9,1)]) (use 1(3) in \<open>simp add: merge_inv_def\<close>)
      have A: "{p \<in> N. \<not> deleted p} - {q} = {p \<in> N. \<not> (deleted(q := True)) p}" by auto
      have "card {p \<in> N. \<not> (deleted(q := True)) p} < card {p \<in> N. \<not> deleted p}"
        using g'(3) card_Diff1_less [of "{p \<in> N. \<not> deleted p}" q] assms(1) by (simp only: A [symmetric]) simp
      then have "\<exists>d h. merge_loop ps (deleted(q := True)) g' = Some (d, h) \<and> merge_inv h {p \<in> N. \<not> d p}
          \<and> graph_runs h = graph_runs g' \<and> nodes h = nodes g' \<and> start h = start g' \<and> fin_nd h = fin_nd g' \<and> P h {p \<in> N. \<not> d p}"
        using 1(2) g'(2) \<open>P g' _\<close> unfolding A by (intro 1(1)) auto
      then show ?thesis by (subst merge_loop.simps) (simp add: Cons Some g')
    qed
  qed
qed

lemma compact_id: "compact keep (\<lambda>_ g. g) i g = g\<lparr>nodes := nodes (compact keep (\<lambda>_ g. g) i g)\<rparr>"
proof (induction keep "\<lambda>_ :: nptr. \<lambda>g :: cfg. g" i g rule: compact.induct)
  case (1 keep i g)
  consider "length (nodes g) \<le> i" | "\<not> length (nodes g) \<le> i" "keep (nodes g ! i)" | "\<not> length (nodes g) \<le> i" "\<not> keep (nodes g ! i)"
    by blast
  then show ?case
  proof cases
    case 1
    then show ?thesis by (simp add: compact.simps [of _ _ i g])
  next
    case 2
    then show ?thesis using "1.hyps"(1) [OF 2] by (simp add: compact.simps [of _ _ i g])
  next
    case 3
    then show ?thesis using "1.hyps"(2) [OF 3 refl] by (simp add: compact.simps [of _ _ i g] Let_def)
  qed
qed

text \<open>\<open>merge_edges\<close> returns and keeps the runs.\<close>

lemma merge_edges_correct:
  assumes "graph_ok g" "forward g (set (nodes g))" "node_id (heap g (start_nd g)) = 0"
    and P: "kept_by_merge P" "P g (set (nodes g))"
  obtains h where "P h (set (nodes h))" "merge_edges g = Some h" "graph_ok h" "merge_inv h (set (nodes h))" "graph_runs h = graph_runs g"
    "set (nodes h) \<subseteq> set (nodes g)" "start h = start g" "fin_nd h = fin_nd g"
proof -
  note g = graph_okD [OF assms(1)]
  have "merge_inv g {p \<in> set (nodes g). \<not> False}" using assms g by (simp add: merge_inv_def)
  then obtain d h where h: "merge_loop (nodes g) (\<lambda>_. False) g = Some (d, h)" "merge_inv h {p \<in> set (nodes g). \<not> d p}"
    "graph_runs h = graph_runs g" "nodes h = nodes g" "start h = start g" "fin_nd h = fin_nd g"
    "P h {p \<in> set (nodes g). \<not> d p}"
    using merge_loop_correct [OF finite_set P(1) order_refl, of g "nodes g" "\<lambda>_. False"] P(2) by auto
  define k where "k = compact (\<lambda>p. \<not> d p) (\<lambda>_ g. g) 0 h"
  have ns: "distinct (nodes k)" "set (nodes k) = {p \<in> set (nodes g). \<not> d p}"
    unfolding k_def
    using compact_nodes [of "\<lambda>_ g. g" h 0 "\<lambda>p. \<not> d p"] g(1) by (simp_all add: h(4))
  have k: "heap k = heap h" "start k = start h" "fin_nd k = fin_nd h" "P k (set (nodes k))"
  proof -
    obtain ms where ms: "k = h\<lparr>nodes := ms\<rparr>" using compact_id [of "\<lambda>p. \<not> d p" 0 h] unfolding k_def by blast
    then show "heap k = heap h" "start k = start h" "fin_nd k = fin_nd h" by simp_all
    have "P k {p \<in> set (nodes g). \<not> d p}" unfolding ms by (rule kept_by_mergeD(2) [OF P(1) h(7)])
    then show "P k (set (nodes k))" by (simp add: ns(2))
  qed
  have e: "edge k = edge h" "start_nd k = start_nd h" by (simp_all add: fun_eq_iff edge_def start_nd_def k)
  have "graph_run k p bs = graph_run h p bs" for p bs
    by (induction bs arbitrary: p) (simp_all add: k)
  then have "graph_runs k = graph_runs g" using h(3) by (simp add: graph_runs_def e)
  moreover have i: "merge_inv k (set (nodes k))" using h(2) unfolding merge_inv_def mirrored_def forward_def ns(2) e k .
  moreover have "graph_ok k" using i ns(1) by (simp add: graph_ok_def merge_inv_def)
  moreover have "merge_edges g = Some k" by (simp add: merge_edges_def h(1) k_def)
  ultimately show thesis using that [of k] ns(2) k(2-4) h(5,6) by (metis (no_types, lifting) mem_Collect_eq subsetI)
qed

subsection \<open>The whole construction\<close>

lemma build_cfg_loops:
  assumes "UNROLL_LIMIT cf = 0" "UNROLL_LIMITS cf = []"
  shows "build_cfg cf ns = None \<longleftrightarrow> \<not> listing_ok ns"
    "build_cfg cf ns = Some g \<Longrightarrow> graph_ok g \<and> forward g (set (nodes g)) \<and> graph_runs g = prog_runs ns"
proof -
  have "\<exists>g. build_cfg cf ns = Some g \<and> graph_ok g \<and> forward g (set (nodes g)) \<and> graph_runs g = prog_runs ns"
    if "listing_ok ns"
  proof -
    have "edges_graph cf ns \<noteq> None" using \<open>listing_ok ns\<close> edges_graph_None by simp
    then obtain g where g: "edges_graph cf ns = Some g" by blast
    note e = edges_graph_run [OF g]
    obtain h where h: "remove_unreachable cf g = Some h" "graph_ok h" "set (nodes h) = {p. reach g (start_nd g) p}"
      "\<And>p b q. p \<in> set (nodes h) \<Longrightarrow> edge h p b q \<longleftrightarrow> edge g p b q" "\<And>p. instrs (heap h p) = instrs (heap g p)" "start h = start g"
      using remove_unreachable_correct [OF e(1), of cf] by metis
    have sub: "set (nodes h) \<subseteq> set (nodes g)"
      using reach_closed [of g "start_nd g" _ "set (nodes g)"] graph_okD(3,4) [OF e(1)] unfolding h(3) by blast
    have "forward h (set (nodes h))"
      using edges_graph_forward [OF g] sub h(4,5) by (auto simp: forward_def exit_type_def node_id_def)
    moreover have "node_id (heap h (start_nd h)) = 0" using e(6) h(5,6) by (simp add: node_id_def start_nd_def)
    ultimately obtain k where k: "merge_edges h = Some k" "graph_ok k" "merge_inv k (set (nodes k))" "graph_runs k = graph_runs h"
      using merge_edges_correct [OF h(2), of "\<lambda>_ _. True"] unfolding kept_by_merge_def by metis
    have "graph_runs h = prog_runs ns"
      using remove_unreachable_runs [OF e(1) h(1)] e(2) by (simp add: graph_runs_def prog_runs_def)
    then show ?thesis using k assms by (simp add: build_cfg_edges_graph g h(1) merge_inv_def)
  qed
  moreover have "\<not> listing_ok ns \<Longrightarrow> build_cfg cf ns = None"
    using edges_graph_None [of cf ns] by (auto simp: build_cfg_edges_graph)
  ultimately show "build_cfg cf ns = None \<longleftrightarrow> \<not> listing_ok ns"
    "build_cfg cf ns = Some g \<Longrightarrow> graph_ok g \<and> forward g (set (nodes g)) \<and> graph_runs g = prog_runs ns"
    by (cases "listing_ok ns"; fastforce)+
qed

end
