(* ===== verification/Topo.thy ===== *)
theory Topo
  imports Traverse
begin

text \<open>
  \<open>cfg::topo_sort\<close>: a node is taken once all its predecessors are, counted by the edges that lead to
  it.  The nodes that are not taken are appended in the order of their addresses.  The sort always
  returns.  If nothing leads back to the start node, the order is shown to put every node after all its
  predecessors, and the sort to report an error exactly when a loop leads to the final node.
\<close>

subsection \<open>The sort\<close>

definition topo_push :: "cfg \<Rightarrow> nptr \<Rightarrow> nptr list \<times> (nptr \<Rightarrow> nat) \<Rightarrow> nptr list \<times> (nptr \<Rightarrow> nat)" where
  "topo_push g q sv = (case sv of (stack, visited) \<Rightarrow>
     let visited = visited(q := visited q + 1)
     in (if visited q = indegree (heap g q) then q # stack else stack, visited))"

partial_function (option) topo_loop ::
  "cfg \<Rightarrow> nptr list \<Rightarrow> (nptr \<Rightarrow> nat) \<Rightarrow> nptr list \<Rightarrow> nptr list option" where
  "topo_loop g stack visited out = (case stack of
     [] \<Rightarrow> Some out
   | p # stack \<Rightarrow>
       let (stack, visited) = fold (topo_push g) (map fst (succs (heap g p))) (stack, visited)
       in topo_loop g stack visited (out @ [p]))"

declare topo_loop.simps [code]

text \<open>\<open>None\<close> is a loop that does not end; \<open>Not_loop_free\<close> is the \<open>errx\<close>.\<close>

datatype topo_error = Not_loop_free

definition topo_sort :: "cfg \<Rightarrow> (topo_error + cfg) option" where
  "topo_sort g = do {
     out \<leftarrow> topo_loop g [start_nd g] (\<lambda>_. 0) [];
     let r = set (nodes g) - set out;
     Some (if fin_nd g \<in> r then Inl Not_loop_free else Inr (g\<lparr>nodes := out @ sorted_list_of_set r\<rparr>))
   }"

lemmas topo_loop_simps =
  topo_loop.simps [of _ "[]", simplified] topo_loop.simps [of _ "p # stack" for p stack, simplified]

subsection \<open>One node\<close>

lemma topo_push_eq:
  "topo_push g q (stack, visited) =
     (if Suc (visited q) = indegree (heap g q) then q # stack else stack, visited(q := Suc (visited q)))"
  by (simp add: topo_push_def Let_def)

lemma fold_visited:
  "fold (topo_push g) qs (stack, visited) = (stack', visited') \<Longrightarrow> visited' q = visited q + count_list qs q"
  by (induction qs arbitrary: stack visited) (auto simp: topo_push_eq)

lemma fold_stack:
  "fold (topo_push g) qs (stack, visited) = (stack', visited') \<Longrightarrow>
     set stack' = set stack \<union> {q. visited q < indegree (heap g q) \<and> indegree (heap g q) \<le> visited' q}"
proof (induction qs arbitrary: stack visited)
  case (Cons x qs)
  let ?st = "if Suc (visited x) = indegree (heap g x) then x # stack else stack"
  have f: "fold (topo_push g) qs (?st, visited(x := Suc (visited x))) = (stack', visited')"
    using Cons.prems by (simp add: topo_push_eq)
  have "Suc (visited x) \<le> visited' x" using fold_visited [OF f, of x] by simp
  then have "q \<in> set ?st \<or> (visited(x := Suc (visited x))) q < indegree (heap g q) \<and> indegree (heap g q) \<le> visited' q
      \<longleftrightarrow> q \<in> set stack \<or> visited q < indegree (heap g q) \<and> indegree (heap g q) \<le> visited' q" for q
    by (cases "q = x") auto
  then show ?case unfolding Cons.IH [OF f] by blast
qed auto

lemma fold_distinct:
  "fold (topo_push g) qs (stack, visited) = (stack', visited') \<Longrightarrow> distinct stack \<Longrightarrow>
     \<forall>q \<in> set stack. indegree (heap g q) \<le> visited q \<Longrightarrow> distinct stack'"
proof (induction qs arbitrary: stack visited)
  case (Cons x qs)
  show ?case
    by (rule Cons.IH [OF Cons.prems(1) [simplified, unfolded topo_push_eq]]) (use Cons.prems(2,3) in auto)
qed simp

lemma fold_measure:
  assumes "finite A" "set qs \<subseteq> A" "fold (topo_push g) qs (stack, visited) = (stack', visited')"
  shows "length stack' + card {q \<in> A. visited' q < indegree (heap g q)}
    = length stack + card {q \<in> A. visited q < indegree (heap g q)}"
  using assms(2,3)
proof (induction qs arbitrary: stack visited)
  case (Cons x qs)
  let ?n = "\<lambda>q. indegree (heap g q)" and ?v = "visited(x := Suc (visited x))"
  have c: "card {q \<in> A. visited q < ?n q} = card {q \<in> A. ?v q < ?n q} + (if Suc (visited x) = ?n x then 1 else 0)"
  proof (cases "Suc (visited x) = ?n x")
    case True
    then have "{q \<in> A. visited q < ?n q} = insert x {q \<in> A. ?v q < ?n q}" using Cons.prems(1) by auto
    moreover have "x \<notin> {q \<in> A. ?v q < ?n q}" using True by simp
    ultimately show ?thesis using True assms(1) by simp
  next
    case False
    then have "{q \<in> A. visited q < ?n q} = {q \<in> A. ?v q < ?n q}" by auto
    then show ?thesis using False by simp
  qed
  show ?case
    using Cons.IH [OF _ Cons.prems(2) [simplified, unfolded topo_push_eq]] Cons.prems(1) c by (simp split: if_splits)
qed simp

text \<open>The edges from \<open>p\<close> to \<open>q\<close> are counted alike at both ends.\<close>

lemma count_edges:
  assumes "mirrored g A" "p \<in> A" "q \<in> A"
  shows "count_list (map fst (succs (heap g p))) q = length (filter (\<lambda>r. fst r = p) (preds (heap g q)))"
proof -
  have "count_list (map fst (succs (heap g p))) q = card ({b. edge g p b q})"
  proof -
    have "count_list (map fst xs) q = length (filter (\<lambda>r. fst r = q) xs)" for xs :: "(nptr \<times> bool) list"
      by (induction xs) auto
    moreover have "length (filter (\<lambda>r. fst r = q) (succs (heap g p))) = card (snd ` {r \<in> set (succs (heap g p)). fst r = q})"
      using distinct_card [of "filter (\<lambda>r. fst r = q) (succs (heap g p))"] distinct_succs
      by (simp add: card_image inj_on_def prod_eq_iff)
    moreover have "snd ` {r \<in> set (succs (heap g p)). fst r = q} = {b. edge g p b q}" by (force simp: set_succs)
    ultimately show ?thesis by simp
  qed
  also have "\<dots> = card (snd ` {r \<in> set (preds (heap g q)). fst r = p})"
    using mirroredD(2) [OF assms(1,3), of p] assms(2) by (intro arg_cong [of _ _ card]) force
  also have "\<dots> = length (filter (\<lambda>r. fst r = p) (preds (heap g q)))"
    using distinct_card [of "filter (\<lambda>r. fst r = p) (preds (heap g q))"] mirroredD(1) [OF assms(1,3)]
    by (simp add: card_image inj_on_def prod_eq_iff)
  finally show ?thesis .
qed

subsection \<open>The order\<close>

text \<open>Every node comes after all its predecessors.\<close>

definition topological :: "cfg \<Rightarrow> nptr list \<Rightarrow> bool" where
  "topological g ps \<longleftrightarrow> (\<forall>i < length ps. \<forall>r \<in> set (preds (heap g (ps ! i))). fst r \<in> set (take i ps))"

lemma topological_Nil [simp]: "topological g []"
  by (simp add: topological_def)

lemma topological_snoc [simp]:
  "topological g (ps @ [p]) \<longleftrightarrow> topological g ps \<and> (\<forall>r \<in> set (preds (heap g p)). fst r \<in> set ps)"
  by (auto simp: topological_def nth_append less_Suc_eq)

definition topo_inv :: "cfg \<Rightarrow> nptr set \<Rightarrow> nptr list \<Rightarrow> nptr list \<Rightarrow> (nptr \<Rightarrow> nat) \<Rightarrow> bool" where
  "topo_inv g A out stack visited \<longleftrightarrow>
     distinct (out @ stack) \<and> set (out @ stack) \<subseteq> A \<and> topological g out
     \<and> (\<forall>q \<in> A. visited q = length (filter (\<lambda>r. fst r \<in> set out) (preds (heap g q))))
     \<and> (\<forall>q \<in> A. q \<in> set (out @ stack)
          \<longleftrightarrow> q = start_nd g \<or> 0 < indegree (heap g q) \<and> indegree (heap g q) \<le> visited q)"

lemma filter_all: "length xs \<le> length (filter P xs) \<Longrightarrow> x \<in> set xs \<Longrightarrow> P x"
  by (metis filter_id_conv filter_True length_filter_less not_le)

lemma topo_step:
  assumes m: "mirrored g A" and s: "preds (heap g (start_nd g)) = []"
    and inv: "topo_inv g A out (p # rest) visited"
    and f: "fold (topo_push g) (map fst (succs (heap g p))) (rest, visited) = (stack', visited')"
  shows "topo_inv g A (out @ [p]) stack' visited'"
proof -
  let ?n = "\<lambda>q. indegree (heap g q)"
  have i: "distinct (out @ p # rest)" "set (out @ p # rest) \<subseteq> A" "topological g out"
    "\<And>q. q \<in> A \<Longrightarrow> visited q = length (filter (\<lambda>r. fst r \<in> set out) (preds (heap g q)))"
    "\<And>q. q \<in> A \<Longrightarrow> q \<in> set (out @ p # rest) \<longleftrightarrow> q = start_nd g \<or> 0 < ?n q \<and> ?n q \<le> visited q"
    using inv unfolding topo_inv_def by blast+
  have p: "p \<in> A" "p \<notin> set out" using i(1,2) by auto
  have n0: "?n (start_nd g) = 0" by (simp add: indegree_def s)
  have sub: "set (map fst (succs (heap g p))) \<subseteq> A" using mirroredD(3) [OF m p(1)] by (auto simp: set_succs)
  have v': "visited' q = visited q + length (filter (\<lambda>r. fst r = p) (preds (heap g q)))" if "q \<in> A" for q
    using fold_visited [OF f, of q] count_edges [OF m p(1) that] by simp
  have v'': "visited' q = visited q" if "q \<notin> A" for q
  proof -
    have "q \<notin> set (map fst (succs (heap g p)))" using sub that by blast
    then have "count_list (map fst (succs (heap g p))) q = 0" by (rule count_notin)
    then show ?thesis using fold_visited [OF f, of q] by simp
  qed
  have sum: "length (filter (\<lambda>r. fst r \<in> set out) xs) + length (filter (\<lambda>r. fst r = p) xs)
      = length (filter (\<lambda>r. fst r \<in> set (out @ [p])) xs)" for xs :: "(nptr \<times> bool) list"
    using p(2) by (induction xs) auto
  have st: "q \<in> set stack' \<longleftrightarrow> q \<in> set rest \<or> q \<in> A \<and> visited q < ?n q \<and> ?n q \<le> visited' q" for q
    using fold_stack [OF f] v'' [of q] by (cases "q \<in> A") auto
  have new: "q \<notin> set (out @ p # rest)" if "q \<in> A" "visited q < ?n q" for q
    using i(5) [OF that(1)] that(2) n0 by auto
  have le: "?n q \<le> visited q" if "q \<in> set (out @ p # rest)" for q
  proof -
    have "q \<in> A" using i(2) that by blast
    then show ?thesis using i(5) [of q] that n0 by auto
  qed
  have "distinct stack'"
    by (rule fold_distinct [OF f]) (use i(1) le in auto)
  then have "distinct ((out @ [p]) @ stack')" using i(1) new st by auto
  moreover have "set ((out @ [p]) @ stack') \<subseteq> A" using i(2) st by auto
  moreover have "topological g (out @ [p])"
  proof -
    have "fst r \<in> set out" if "r \<in> set (preds (heap g p))" for r
      using filter_all [of "preds (heap g p)" "\<lambda>r. fst r \<in> set out" r] le [of p] i(4) [OF p(1)] that
      by (simp add: indegree_def)
    then show ?thesis using i(3) by simp
  qed
  moreover have "visited' q = length (filter (\<lambda>r. fst r \<in> set (out @ [p])) (preds (heap g q)))" if "q \<in> A" for q
    using v' [OF that] i(4) [OF that] sum by presburger
  moreover have "q \<in> set ((out @ [p]) @ stack') \<longleftrightarrow> q = start_nd g \<or> 0 < ?n q \<and> ?n q \<le> visited' q" if "q \<in> A" for q
  proof -
    have "q \<in> set ((out @ [p]) @ stack') \<longleftrightarrow> q \<in> set (out @ p # rest) \<or> visited q < ?n q \<and> ?n q \<le> visited' q"
      using st [of q] that by auto
    then show ?thesis using i(5) [OF that] v' [OF that] by auto
  qed
  ultimately show ?thesis unfolding topo_inv_def by blast
qed

lemma topo_loop_ends:
  assumes m: "mirrored g A" and fin: "finite A" and "set stack \<subseteq> A"
  shows "\<exists>out'. topo_loop g stack visited out = Some out'"
  using assms(3)
proof (induction "length stack + card {q \<in> A. visited q < indegree (heap g q)}" arbitrary: out stack visited rule: less_induct)
  case less
  show ?case
  proof (cases stack)
    case (Cons p rest)
    have sub: "set (map fst (succs (heap g p))) \<subseteq> A" using mirroredD(3) [OF m, of p] less.prems by (auto simp: Cons set_succs)
    obtain stack' visited' where f: "fold (topo_push g) (map fst (succs (heap g p))) (rest, visited) = (stack', visited')"
      by fastforce
    have "q \<in> A" if "q \<in> set stack'" for q
    proof (cases "q \<in> set (map fst (succs (heap g p)))")
      case False
      then have "count_list (map fst (succs (heap g p))) q = 0" by (rule count_notin)
      then have "visited' q = visited q" using fold_visited [OF f, of q] by simp
      then show ?thesis using fold_stack [OF f] that less.prems by (auto simp: Cons)
    qed (use sub in blast)
    moreover have "length stack' + card {q \<in> A. visited' q < indegree (heap g q)}
        < length stack + card {q \<in> A. visited q < indegree (heap g q)}"
      using fold_measure [OF fin sub f] by (simp add: Cons)
    ultimately have "\<exists>out'. topo_loop g stack' visited' (out @ [p]) = Some out'" by (intro less.hyps) auto
    then show ?thesis by (simp add: Cons topo_loop_simps f)
  qed (auto simp: topo_loop_simps)
qed

text \<open>The sort returns for every well-formed graph.\<close>

lemma topo_sort_ends: "graph_ok g \<Longrightarrow> \<exists>r. topo_sort g = Some r"
  using topo_loop_ends [of g "set (nodes g)" "[start_nd g]" "\<lambda>_. 0" "[]"] graph_okD(2,3) [of g]
  by (auto simp: topo_sort_def Let_def)

lemma topo_loop_total:
  assumes m: "mirrored g A" and s: "preds (heap g (start_nd g)) = []" and fin: "finite A"
    and "topo_inv g A out stack visited"
  shows "\<exists>out' visited'. topo_loop g stack visited out = Some out' \<and> topo_inv g A out' [] visited'"
  using assms(4)
proof (induction "length stack + card {q \<in> A. visited q < indegree (heap g q)}" arbitrary: out stack visited rule: less_induct)
  case less
  show ?case
  proof (cases stack)
    case (Cons p rest)
    have pA: "p \<in> A" using less.prems by (simp add: topo_inv_def Cons)
    then have sub: "set (map fst (succs (heap g p))) \<subseteq> A" using mirroredD(3) [OF m] by (auto simp: set_succs)
    obtain stack' visited' where f: "fold (topo_push g) (map fst (succs (heap g p))) (rest, visited) = (stack', visited')"
      by fastforce
    have "length stack' + card {q \<in> A. visited' q < indegree (heap g q)}
        < length stack + card {q \<in> A. visited q < indegree (heap g q)}"
      using fold_measure [OF fin sub f] by (simp add: Cons)
    from less.hyps [OF this topo_step [OF m s less.prems [unfolded Cons] f]]
    show ?thesis by (simp add: Cons topo_loop_simps f)
  qed (use less.prems in \<open>auto simp: topo_loop_simps\<close>)
qed

lemma topo_loop_start:
  assumes "graph_ok g" "preds (heap g (start_nd g)) = []"
  obtains out visited where "topo_loop g [start_nd g] (\<lambda>_. 0) [] = Some out" "topo_inv g (set (nodes g)) out [] visited"
proof -
  note g = graph_okD [OF assms(1)]
  have "topo_inv g (set (nodes g)) [] [start_nd g] (\<lambda>_. 0)" using g(3) by (auto simp: topo_inv_def)
  then show thesis using topo_loop_total [OF g(2) assms(2)] that by blast
qed

lemma topo_invD:
  assumes "topo_inv g A out [] visited"
  shows "distinct out" "set out \<subseteq> A" "topological g out"
    "q \<in> A \<Longrightarrow> q \<noteq> start_nd g \<Longrightarrow> 0 < indegree (heap g q) \<Longrightarrow> \<forall>r \<in> set (preds (heap g q)). fst r \<in> set out \<Longrightarrow> q \<in> set out"
proof -
  assume a: "q \<in> A" "0 < indegree (heap g q)" "\<forall>r \<in> set (preds (heap g q)). fst r \<in> set out"
  then have "filter (\<lambda>r. fst r \<in> set out) (preds (heap g q)) = preds (heap g q)" by (intro filter_True) simp
  then show "q \<in> set out" using assms a by (simp add: topo_inv_def indegree_def)
qed (use assms in \<open>auto simp: topo_inv_def\<close>)

subsection \<open>Loops are found\<close>

lemma mem_preds:
  assumes "graph_ok g" "q \<in> set (nodes g)"
  shows "(\<exists>b. (p, b) \<in> set (preds (heap g q))) \<longleftrightarrow> p \<in> set (nodes g) \<and> step g p q"
  using mirroredD(2) [OF graph_okD(2) [OF assms(1)] assms(2)] by (auto simp: step_def)

text \<open>Going back from a node that was not taken, through nodes that were not taken, ends in a loop.\<close>

lemma loop_before:
  assumes g: "graph_ok g" and inv: "topo_inv g (set (nodes g)) out [] visited"
    and reached: "\<forall>q \<in> set (nodes g). q \<noteq> start_nd g \<longrightarrow> (\<exists>p \<in> set (nodes g). step g p q)"
    and s: "start_nd g \<in> set out" and q: "q \<in> set (nodes g)" "q \<notin> set out"
  shows "\<exists>p \<in> set (nodes g). (step g)\<^sup>+\<^sup>+ p p \<and> reach g p q"
proof (rule ccontr)
  assume no: "\<not> ?thesis"
  define R where "R = {p \<in> set (nodes g) - set out. reach g p q}"
  define E where "E = {(p, r). p \<in> R \<and> r \<in> R \<and> step g p r}"
  have "(p, r) \<in> E\<^sup>+ \<Longrightarrow> (step g)\<^sup>+\<^sup>+ p r \<and> p \<in> R" for p r
    by (induction rule: trancl_induct) (auto simp: E_def intro: tranclp.intros)
  then have "acyclic E" using no by (auto simp: acyclic_def R_def)
  moreover have "finite E" by (rule finite_subset [of _ "set (nodes g) \<times> set (nodes g)"]) (auto simp: E_def R_def)
  ultimately have "wf E" by (rule finite_acyclic_wf [rotated])
  moreover have "q \<in> R" using q by (simp add: R_def)
  ultimately obtain r where r: "r \<in> R" "\<And>p. (p, r) \<in> E \<Longrightarrow> p \<notin> R" by (rule wfE_min) blast
  have rn: "r \<in> set (nodes g)" "r \<notin> set out" "reach g r q" "r \<noteq> start_nd g" using r(1) s by (auto simp: R_def)
  obtain p0 where "p0 \<in> set (nodes g)" "step g p0 r" using reached rn by blast
  then have "0 < indegree (heap g r)" using mem_preds [OF g rn(1)] by (fastforce simp: indegree_def)
  then obtain x where x: "x \<in> set (preds (heap g r))" "fst x \<notin> set out"
    using topo_invD(4) [OF inv rn(1,4)] rn(2) by blast
  then have "fst x \<in> set (nodes g)" "step g (fst x) r" using mem_preds [OF g rn(1), of "fst x"] by (metis prod.collapse)+
  moreover from this rn(3) have "reach g (fst x) q" by (metis converse_rtranclp_into_rtranclp)
  ultimately have "fst x \<in> R" "(fst x, r) \<in> E" using x(2) r(1) by (auto simp: R_def E_def)
  then show False using r(2) by blast
qed

text \<open>A node of a loop is never taken, nor is one behind it.\<close>

lemma topological_step:
  assumes "topological g out" "q \<in> set out" "graph_ok g" "set out \<subseteq> set (nodes g)" "p \<in> set (nodes g)" "step g p q"
  obtains i j where "j < i" "i < length out" "out ! i = q" "out ! j = p"
proof -
  obtain i where i: "i < length out" "out ! i = q" using assms(2) by (auto simp: in_set_conv_nth)
  obtain b where "(p, b) \<in> set (preds (heap g q))" using mem_preds [OF assms(3), of q p] assms(2,4,5,6) by blast
  then have "p \<in> set (take i out)" using assms(1) i unfolding topological_def by force
  then show thesis using that i by (auto simp: in_set_conv_nth)
qed

lemma loop_not_taken:
  assumes "topological g out" "distinct out" "graph_ok g" "set out \<subseteq> set (nodes g)"
    and "(step g)\<^sup>+\<^sup>+ p q" "p \<in> set (nodes g)" "q \<in> set out"
  shows "\<exists>i j. j < i \<and> i < length out \<and> out ! i = q \<and> out ! j = p"
  using assms(5,7)
proof (induction rule: tranclp_induct)
  case (base q)
  then show ?case using topological_step [OF assms(1) _ assms(3,4,6)] by metis
next
  case (step q r)
  have "q \<in> set (nodes g)"
    using step.hyps(1) by (induction rule: tranclp_induct) (use assms(6) graph_okD(4) [OF assms(3)] in blast)+
  then obtain i j where ij: "j < i" "i < length out" "out ! i = r" "out ! j = q"
    using topological_step [OF assms(1) step.prems assms(3,4) _ step.hyps(2)] by metis
  then have "q \<in> set out" by (metis dual_order.strict_trans nth_mem)
  then obtain i' j' where "j' < i'" "i' < length out" "out ! i' = q" "out ! j' = p" using step.IH by blast
  moreover from this ij have "i' = j" using assms(2) by (metis nth_eq_iff_index_eq order.strict_trans)
  ultimately show ?case using ij by (metis order.strict_trans)
qed

text \<open>
  The sort returns a permutation of the nodes that begins with a topological order, or an error, and
  this exactly if a loop leads to the final node.
\<close>

lemma topo_sort_Some:
  assumes "graph_ok g" "preds (heap g (start_nd g)) = []" "topo_sort g = Some (Inr h)"
  obtains out rest where "h = g\<lparr>nodes := out @ rest\<rparr>" "distinct (out @ rest)" "set (out @ rest) = set (nodes g)"
    "topological g out" "start_nd g \<in> set out" "fin_nd g \<in> set (nodes g) \<longrightarrow> fin_nd g \<in> set out"
    "(\<forall>q \<in> set (nodes g). q \<noteq> start_nd g \<longrightarrow> (\<exists>p \<in> set (nodes g). step g p q)) \<longrightarrow>
       (\<forall>p \<in> set (nodes g). \<not> (step g)\<^sup>+\<^sup>+ p p) \<longrightarrow> rest = []"
proof -
  obtain out visited where out: "topo_loop g [start_nd g] (\<lambda>_. 0) [] = Some out"
    and inv: "topo_inv g (set (nodes g)) out [] visited"
    by (rule topo_loop_start [OF assms(1,2)])
  define rest where "rest = sorted_list_of_set (set (nodes g) - set out)"
  have so: "start_nd g \<in> set out" using inv graph_okD(3) [OF assms(1)] by (auto simp: topo_inv_def)
  have "rest = []" if con: "\<forall>q \<in> set (nodes g). q \<noteq> start_nd g \<longrightarrow> (\<exists>p \<in> set (nodes g). step g p q)"
      and acyc: "\<forall>p \<in> set (nodes g). \<not> (step g)\<^sup>+\<^sup>+ p p"
  proof -
    have "set (nodes g) - set out = {}" using loop_before [OF assms(1) inv con so] acyc by blast
    then show ?thesis by (simp add: rest_def)
  qed
  moreover have "h = g\<lparr>nodes := out @ rest\<rparr>" "fin_nd g \<in> set (nodes g) \<longrightarrow> fin_nd g \<in> set out"
    using assms(3) out by (auto simp: topo_sort_def Let_def rest_def split: if_splits)
  moreover have "distinct (out @ rest)" "set (out @ rest) = set (nodes g)"
    using topo_invD(1,2) [OF inv] by (auto simp: rest_def)
  ultimately show thesis using that [of out rest] topo_invD(3) [OF inv] so by blast
qed

lemma topo_sort_error:
  assumes g: "graph_ok g" and s: "preds (heap g (start_nd g)) = []"
    and reached: "\<And>q. q \<in> set (nodes g) \<Longrightarrow> reach g (start_nd g) q"
  shows "topo_sort g = Some (Inl Not_loop_free) \<longleftrightarrow>
    fin_nd g \<in> set (nodes g) \<and> (\<exists>p \<in> set (nodes g). (step g)\<^sup>+\<^sup>+ p p \<and> reach g p (fin_nd g))"
proof -
  obtain out visited where out: "topo_loop g [start_nd g] (\<lambda>_. 0) [] = Some out"
    and inv: "topo_inv g (set (nodes g)) out [] visited"
    by (rule topo_loop_start [OF g s])
  note t = topo_invD [OF inv]
  have so: "start_nd g \<in> set out" using inv graph_okD(3) [OF g] by (auto simp: topo_inv_def)
  have before: "\<exists>p \<in> set (nodes g). step g p q" if q: "q \<in> set (nodes g)" "q \<noteq> start_nd g" for q
  proof -
    have "(step g)\<^sup>*\<^sup>* (start_nd g) q" using reached q(1) by blast
    then obtain p where "reach g (start_nd g) p" "step g p q" using q(2) by (metis rtranclp.cases)
    moreover from this have "p \<in> set (nodes g)" using reach_closed graph_okD(3,4) [OF g] by metis
    ultimately show ?thesis by blast
  qed
  then have "\<forall>q \<in> set (nodes g). q \<noteq> start_nd g \<longrightarrow> (\<exists>p \<in> set (nodes g). step g p q)" by blast
  then have behind: "fin_nd g \<in> set (nodes g) \<Longrightarrow> fin_nd g \<notin> set out \<Longrightarrow> \<exists>p \<in> set (nodes g). (step g)\<^sup>+\<^sup>+ p p \<and> reach g p (fin_nd g)"
    by (rule loop_before [OF g inv _ so])
  have "\<not> (\<exists>p \<in> set (nodes g). (step g)\<^sup>+\<^sup>+ p p \<and> reach g p (fin_nd g))" if f: "fin_nd g \<in> set out"
  proof
    assume "\<exists>p \<in> set (nodes g). (step g)\<^sup>+\<^sup>+ p p \<and> reach g p (fin_nd g)"
    then obtain p where p: "p \<in> set (nodes g)" "(step g)\<^sup>+\<^sup>+ p p" "reach g p (fin_nd g)" by blast
    then have "(step g)\<^sup>+\<^sup>+ p (fin_nd g)" by (metis tranclp_rtranclp_tranclp)
    then obtain i j where "j < i" "i < length out" "out ! j = p"
      using loop_not_taken [OF t(3,1) g t(2) _ p(1) f] by metis
    then have "p \<in> set out" by (metis nth_mem order.strict_trans)
    then show False using loop_not_taken [OF t(3,1) g t(2) p(2,1)] t(1) by (metis nat_neq_iff nth_eq_iff_index_eq order.strict_trans)
  qed
  then show ?thesis using behind by (auto simp: topo_sort_def out Let_def)
qed

end
