(* ===== verification/Overestimate.thy ===== *)
theory Overestimate
  imports Topo
begin

text \<open>
  \<open>cfg::overestimate_cycles\<close> and \<open>cfg::underestimate_packetrate\<close>: each edge gets the instructions of its
  target with the information that every path to them hands on, and the largest sum of cycles of a path
  to the final node is computed in the order of the sort.  The sum is shown to bound the cycles that any
  execution along a path of the graph needs.
\<close>

subsection \<open>Propagation of the information\<close>

text \<open>Along the instructions of an edge.  The vector is not empty; \<open>begin()+1\<close> would be out of it.\<close>

fun relax :: "instr_data list \<Rightarrow> instr_data list option" where
  "relax [] = None"
| "relax [x] = Some [x]"
| "relax ((n, i) # (m, j) # xs) = do {
     k \<leftarrow> info_apply n False i;
     ys \<leftarrow> relax ((m, k) # xs);
     Some ((n, i) # ys)
   }"

definition ins :: "cfg \<Rightarrow> nptr \<Rightarrow> bool \<Rightarrow> instr_data list" where
  "ins g p b = sd_instructions (succ (heap g p) b)"

definition set_ins :: "nptr \<Rightarrow> bool \<Rightarrow> instr_data list \<Rightarrow> cfg \<Rightarrow> cfg" where
  "set_ins p b xs = upd p (\<lambda>n. set_succ b ((succ n b)\<lparr>sd_instructions := xs\<rparr>) n)"

text \<open>\<open>front.i = front.i.merge(l.i.apply(*l.n))\<close>\<close>

definition meet_front :: "instr_data \<Rightarrow> instr_data list \<Rightarrow> instr_data list option" where
  "meet_front l xs = (case xs of
     [] \<Rightarrow> None
   | (m, j) # ys \<Rightarrow> map_option (\<lambda>k. (m, info_merge j k) # ys) (info_apply (fst l) False (snd l)))"

definition meet_edge :: "(cfg \<Rightarrow> instr_data list) \<Rightarrow> nptr \<Rightarrow> bool \<Rightarrow> cfg \<Rightarrow> cfg option" where
  "meet_edge src q c g = map_option (\<lambda>xs. set_ins q c xs g) (meet_front (last (src g)) (ins g q c))"

definition fill_start :: "cfg \<Rightarrow> cfg" where
  "fill_start g = g\<lparr>start := (start g)\<lparr>sd_instructions :=
     sd_instructions (start g) @ map (\<lambda>n. (n, Info 0 0)) (instrs (heap g (start_nd g)))\<rparr>\<rparr>"

text \<open>The loops over the nodes and their edges; the edges themselves do not change meanwhile.\<close>

definition edge_list :: "cfg \<Rightarrow> (nptr \<times> bool) list" where
  "edge_list g = concat (map (\<lambda>p. map (\<lambda>(q, b). (p, b)) (succs (heap g p))) (nodes g))"

definition fill_edge :: "nptr \<times> bool \<Rightarrow> cfg \<Rightarrow> cfg" where
  "fill_edge e g = (case e of (p, b) \<Rightarrow>
     set_ins p b (ins g p b @ map (\<lambda>n. (n, info_max)) (instrs (heap g (the (sd_nd (succ (heap g p) b)))))) g)"

definition relax_start :: "cfg \<Rightarrow> cfg option" where
  "relax_start g = do {
     xs \<leftarrow> relax (sd_instructions (start g));
     let g = g\<lparr>start := (start g)\<lparr>sd_instructions := xs\<rparr>\<rparr>;
     each (\<lambda>(s, c). meet_edge (\<lambda>g. sd_instructions (start g)) (start_nd g) c) (succs (heap g (start_nd g))) g
   }"

definition relax_edge :: "nptr \<times> bool \<Rightarrow> cfg \<Rightarrow> cfg option" where
  "relax_edge e g = (case e of (p, b) \<Rightarrow> do {
     q \<leftarrow> sd_nd (succ (heap g p) b);
     xs \<leftarrow> relax (ins g p b);
     each (\<lambda>(s, c). meet_edge (\<lambda>g. ins g p b) q c) (succs (heap g q)) (set_ins p b xs g)
   })"

text \<open>The error of the sort ends the program.\<close>

definition overestimate_cycles :: "cfg \<Rightarrow> cfg option" where
  "overestimate_cycles g = do {
     r \<leftarrow> topo_sort g;
     g \<leftarrow> (case r of Inl _ \<Rightarrow> None | Inr g \<Rightarrow> Some g);
     let g = fold fill_edge (edge_list g) (fill_start g);
     g \<leftarrow> relax_start g;
     each relax_edge (edge_list g) g
   }"

subsection \<open>What the steps change\<close>

text \<open>The graph apart from the information.\<close>

definition same :: "cfg \<Rightarrow> cfg \<Rightarrow> bool" where
  "same h g \<longleftrightarrow> nodes h = nodes g \<and> fin_nd h = fin_nd g \<and> sd_nd (start h) = sd_nd (start g)
     \<and> (\<forall>p. instrs (heap h p) = instrs (heap g p) \<and> preds (heap h p) = preds (heap g p)
          \<and> (\<forall>b. sd_nd (succ (heap h p) b) = sd_nd (succ (heap g p) b)))
     \<and> map fst (sd_instructions (start h)) = map fst (sd_instructions (start g))
     \<and> (\<forall>p b. map fst (ins h p b) = map fst (ins g p b))"

lemma ins_set_ins [simp]: "ins (set_ins p b xs g) r c = (if r = p \<and> c = b then xs else ins g r c)"
  by (auto simp: ins_def set_ins_def)

lemma set_ins_sel [simp]: "nodes (set_ins p b xs g) = nodes g" "fin_nd (set_ins p b xs g) = fin_nd g"
    "start (set_ins p b xs g) = start g" "instrs (heap (set_ins p b xs g) r) = instrs (heap g r)"
    "preds (heap (set_ins p b xs g) r) = preds (heap g r)"
    "sd_nd (succ (heap (set_ins p b xs g) r) c) = sd_nd (succ (heap g r) c)"
  by (auto simp: set_ins_def)

lemma same_refl [simp]: "same g g"
  by (simp add: same_def)

lemma same_trans: "same h g \<Longrightarrow> same g f \<Longrightarrow> same h f"
  by (simp add: same_def)

lemma sameD:
  assumes "same h g"
  shows "nodes h = nodes g" "fin_nd h = fin_nd g" "start_nd h = start_nd g" "edge h = edge g" "edge_list h = edge_list g"
    "instrs (heap h p) = instrs (heap g p)" "map fst (ins h p b) = map fst (ins g p b)"
    "map fst (sd_instructions (start h)) = map fst (sd_instructions (start g))" "succs (heap h p) = succs (heap g p)"
proof -
  have st: "sd_nd (succ (heap h p) b) = sd_nd (succ (heap g p) b)" for p b using assms unfolding same_def by blast
  have s: "succs (heap h p) = succs (heap g p)" for p
    using st [of p True] st [of p False] by (simp add: succs_def succ_def)
  then show "succs (heap h p) = succs (heap g p)" .
  have "nodes h = nodes g" using assms by (simp add: same_def)
  then show "edge_list h = edge_list g" by (simp add: edge_list_def s)
  show "edge h = edge g" by (simp add: fun_eq_iff edge_def st)
qed (use assms in \<open>simp_all add: same_def start_nd_def\<close>)

lemma same_set_ins: "map fst xs = map fst (ins g p b) \<Longrightarrow> same (set_ins p b xs g) g"
  by (auto simp: same_def)

lemma relax_fst: "relax xs = Some ys \<Longrightarrow> map fst ys = map fst xs \<and> hd ys = hd xs \<and> relax ys = Some ys"
proof (induction xs arbitrary: ys rule: relax.induct)
  case (3 n i m j xs)
  then obtain k zs where k: "info_apply n False i = Some k" "relax ((m, k) # xs) = Some zs" "ys = (n, i) # zs"
    by (auto simp: bind_eq_Some_conv)
  then have "map fst zs = m # map fst xs" "hd zs = (m, k)" "relax zs = Some zs" using "3.IH" by auto
  then show ?case using k by (cases zs) auto
qed auto

lemma relax_total: "xs \<noteq> [] \<Longrightarrow> \<exists>ys. relax xs = Some ys"
proof (induction xs rule: relax.induct)
  case (3 n i m j xs)
  then show ?case using info_apply_total [of n False i] by fastforce
qed auto

text \<open>The information before the first instruction, and what the last one hands on.\<close>

definition front :: "instr_data list \<Rightarrow> info" where
  "front xs = snd (hd xs)"

definition handed :: "instr_data \<Rightarrow> info" where
  "handed l = the (info_apply (fst l) False (snd l))"

lemma info_apply_handed: "info_apply (fst l) False (snd l) = Some (handed l)"
  using info_apply_total [of "fst l" False "snd l"] by (auto simp: handed_def)

lemma meet_edge_eq:
  assumes "ins g q c \<noteq> []"
  shows "meet_edge src q c g = Some (set_ins q c
     ((fst (hd (ins g q c)), inf (front (ins g q c)) (handed (last (src g)))) # tl (ins g q c)) g)"
  using assms
  by (cases "ins g q c") (auto simp: meet_edge_def meet_front_def info_apply_handed front_def inf_info_def)

text \<open>The source of the information is not among the edges that are updated.\<close>

definition steady :: "(cfg \<Rightarrow> instr_data list) \<Rightarrow> nptr \<Rightarrow> cfg \<Rightarrow> instr_data \<Rightarrow> bool" where
  "steady src q g l \<longleftrightarrow> (\<forall>h. start h = start g \<longrightarrow> (\<forall>r d. r \<noteq> q \<longrightarrow> ins h r d = ins g r d) \<longrightarrow> last (src h) = l)"

lemma each_meet:
  assumes "\<forall>(s, c) \<in> set ss. ins g q c \<noteq> []"
  obtains h where "each (\<lambda>(s, c). meet_edge src q c) ss g = Some h" "same h g" "start h = start g"
    "\<And>r d. r \<noteq> q \<Longrightarrow> ins h r d = ins g r d" "\<And>r d. tl (ins h r d) = tl (ins g r d)"
    "\<And>r d. front (ins h r d) \<le> front (ins g r d)"
    "\<And>l s c. steady src q g l \<Longrightarrow> (s, c) \<in> set ss \<Longrightarrow> front (ins h q c) \<le> handed l"
proof -
  have "\<exists>h. each (\<lambda>(s, c). meet_edge src q c) ss g = Some h \<and> same h g \<and> start h = start g
     \<and> (\<forall>r d. r \<noteq> q \<longrightarrow> ins h r d = ins g r d) \<and> (\<forall>r d. tl (ins h r d) = tl (ins g r d))
     \<and> (\<forall>r d. front (ins h r d) \<le> front (ins g r d))
     \<and> (\<forall>l s c. steady src q g l \<longrightarrow> (s, c) \<in> set ss \<longrightarrow> front (ins h q c) \<le> handed l)"
    using assms
  proof (induction ss arbitrary: g)
    case (Cons x ss)
    obtain s c where x: "x = (s, c)" by fastforce
    have ne: "ins g q c \<noteq> []" using Cons.prems x by auto
    define g1 where "g1 = set_ins q c ((fst (hd (ins g q c)), inf (front (ins g q c)) (handed (last (src g)))) # tl (ins g q c)) g"
    have m: "meet_edge src q c g = Some g1" using meet_edge_eq [OF ne] by (simp add: g1_def)
    have s1: "same g1 g" unfolding g1_def by (rule same_set_ins) (use ne in \<open>cases "ins g q c"; auto\<close>)
    have i1: "start g1 = start g" "r \<noteq> q \<Longrightarrow> ins g1 r d = ins g r d" "tl (ins g1 r d) = tl (ins g r d)"
      "front (ins g1 r d) \<le> front (ins g r d)" "front (ins g1 q c) \<le> handed (last (src g))" for r d
      by (auto simp: g1_def front_def)
    have "\<forall>(s, c) \<in> set ss. ins g1 q c \<noteq> []" using Cons.prems by (auto simp: g1_def)
    from Cons.IH [OF this] obtain h where h: "each (\<lambda>(s, c). meet_edge src q c) ss g1 = Some h" "same h g1" "start h = start g1"
      "\<And>r d. r \<noteq> q \<Longrightarrow> ins h r d = ins g1 r d" "\<And>r d. tl (ins h r d) = tl (ins g1 r d)"
      "\<And>r d. front (ins h r d) \<le> front (ins g1 r d)"
      and l: "\<And>l s c. steady src q g1 l \<Longrightarrow> (s, c) \<in> set ss \<Longrightarrow> front (ins h q c) \<le> handed l" by blast
    have "each (\<lambda>(s, c). meet_edge src q c) (x # ss) g = Some h" by (simp add: x m h(1))
    moreover have "same h g" using same_trans [OF h(2) s1] .
    moreover have "front (ins h r d) \<le> front (ins g r d)" for r d using h(6) i1(4) order_trans by blast
    moreover have "front (ins h q c') \<le> handed l"
      if src: "steady src q g l" and mem: "(s', c') \<in> set (x # ss)" for l s' c'
    proof (cases "(s', c') = x")
      case True
      have "last (src g) = l" using src by (simp add: steady_def)
      then show ?thesis using i1(5) h(6) [of q c] True x order_trans by auto
    next
      case False
      have "steady src q g1 l" using src i1(1,2) by (simp add: steady_def)
      then show ?thesis using l False mem by fastforce
    qed
    moreover have "start h = start g" "r \<noteq> q \<Longrightarrow> ins h r d = ins g r d" "tl (ins h r d) = tl (ins g r d)" for r d
      using h(3-5) i1(1-3) by simp_all
    ultimately show ?case by blast
  qed auto
  then show thesis using that by blast
qed

lemma relax_edge_ok:
  assumes e: "edge g p b q" and ne: "ins g p b \<noteq> []" "\<And>s c. edge g q c s \<Longrightarrow> ins g q c \<noteq> []"
  obtains h where "relax_edge (p, b) g = Some h" "same h g" "start h = start g"
    "\<And>r d. (r, d) \<noteq> (p, b) \<Longrightarrow> r \<noteq> q \<Longrightarrow> ins h r d = ins g r d" "\<And>r d. front (ins h r d) \<le> front (ins g r d)"
    "q \<noteq> p \<Longrightarrow> relax (ins h p b) = Some (ins h p b)"
    "\<And>s c. q \<noteq> p \<Longrightarrow> edge g q c s \<Longrightarrow> front (ins h q c) \<le> handed (last (ins h p b))"
proof -
  obtain xs where xs: "relax (ins g p b) = Some xs" using relax_total [OF ne(1)] by blast
  note rx = relax_fst [OF xs]
  define g1 where "g1 = set_ins p b xs g"
  have g1: "same g1 g" "start g1 = start g" "succs (heap g1 q) = succs (heap g q)"
    using rx by (auto simp: g1_def same_set_ins sameD(9))
  have "xs \<noteq> []" using rx ne(1) by (cases xs) auto
  then have "\<forall>(s, c) \<in> set (succs (heap g1 q)). ins g1 q c \<noteq> []" using ne(2) by (auto simp: g1(3)) (auto simp: g1_def split: if_splits)
  from each_meet [OF this, of "\<lambda>g. ins g p b"] obtain h where
    h: "each (\<lambda>(s, c). meet_edge (\<lambda>g. ins g p b) q c) (succs (heap g1 q)) g1 = Some h" "same h g1" "start h = start g1"
    "\<And>r d. r \<noteq> q \<Longrightarrow> ins h r d = ins g1 r d" "\<And>r d. front (ins h r d) \<le> front (ins g1 r d)"
    "\<And>l s c. steady (\<lambda>g. ins g p b) q g1 l \<Longrightarrow> (s, c) \<in> set (succs (heap g1 q)) \<Longrightarrow> front (ins h q c) \<le> handed l"
    by metis
  have "sd_nd (succ (heap g p) b) = Some q" using e by (simp add: edge_def)
  then have "relax_edge (p, b) g = Some h" using h(1) xs by (simp add: relax_edge_def g1_def [symmetric] g1(3))
  moreover have "same h g" using same_trans [OF h(2) g1(1)] .
  moreover have "front (ins g1 r d) \<le> front (ins g r d)" for r d using rx by (simp add: g1_def front_def)
  then have "front (ins h r d) \<le> front (ins g r d)" for r d using h(5) order_trans by blast
  moreover have "(r, d) \<noteq> (p, b) \<Longrightarrow> r \<noteq> q \<Longrightarrow> ins h r d = ins g r d" for r d using h(4) by (auto simp: g1_def)
  moreover have p: "q \<noteq> p \<Longrightarrow> ins h p b = xs" using h(4) by (auto simp: g1_def)
  moreover have "front (ins h q c) \<le> handed (last (ins h p b))" if "q \<noteq> p" "edge g q c s" for s c
  proof (rule h(6))
    show "steady (\<lambda>g. ins g p b) q g1 (last (ins h p b))" using that(1) p by (auto simp: steady_def g1_def)
    show "(s, c) \<in> set (succs (heap g1 q))" using that(2) by (simp add: g1(3))
  qed
  ultimately show thesis using that rx h(3) g1(2) by simp
qed

text \<open>
  What holds when the edges of \<open>D\<close> have been processed, about the nodes \<open>W\<close> that were sorted: along
  an edge, and from an edge to the next, no information grows.
\<close>

definition labelled :: "cfg \<Rightarrow> bool" where
  "labelled g \<longleftrightarrow> (\<forall>p \<in> set (nodes g). \<forall>b q. edge g p b q \<longrightarrow> ins g p b \<noteq> [] \<and> q \<in> set (nodes g))"

definition settled :: "cfg \<Rightarrow> nptr set \<Rightarrow> (nptr \<times> bool) set \<Rightarrow> bool" where
  "settled g W D \<longleftrightarrow>
     relax (sd_instructions (start g)) = Some (sd_instructions (start g))
     \<and> (\<forall>c s. edge g (start_nd g) c s \<longrightarrow> front (ins g (start_nd g) c) \<le> handed (last (sd_instructions (start g))))
     \<and> (\<forall>(p, b) \<in> D. p \<in> W \<longrightarrow> relax (ins g p b) = Some (ins g p b)
          \<and> (\<forall>q c s. edge g p b q \<longrightarrow> q \<in> W \<longrightarrow> edge g q c s \<longrightarrow> front (ins g q c) \<le> handed (last (ins g p b))))"

lemma settled_step:
  assumes l: "labelled g" and s: "settled g W D" and p: "p \<in> set (nodes g)" "edge g p b q" "(p, b) \<notin> D"
    and o: "p \<in> W \<Longrightarrow> q \<in> W \<Longrightarrow> q \<noteq> p \<and> q \<notin> fst ` D" "p \<notin> W \<Longrightarrow> q \<notin> W"
  obtains h where "relax_edge (p, b) g = Some h" "same h g" "labelled h" "settled h W (insert (p, b) D)"
proof -
  obtain h where h: "relax_edge (p, b) g = Some h" "same h g" "start h = start g"
    "\<And>r d. (r, d) \<noteq> (p, b) \<Longrightarrow> r \<noteq> q \<Longrightarrow> ins h r d = ins g r d" "\<And>r d. front (ins h r d) \<le> front (ins g r d)"
    "q \<noteq> p \<Longrightarrow> relax (ins h p b) = Some (ins h p b)"
    "\<And>s c. q \<noteq> p \<Longrightarrow> edge g q c s \<Longrightarrow> front (ins h q c) \<le> handed (last (ins h p b))"
  proof (rule relax_edge_ok [OF p(2)])
    show "ins g p b \<noteq> []" using l p(1,2) unfolding labelled_def by blast
    show "ins g q c \<noteq> []" if "edge g q c s" for s c using l p(1,2) that unfolding labelled_def by blast
  qed blast
  note m = sameD [OF h(2)]
  have "ins h r d = [] \<longleftrightarrow> ins g r d = []" for r d using m(7) [of r d] by (metis map_is_Nil_conv)
  then have "labelled h" using l by (simp add: labelled_def m)
  moreover have "settled h W (insert (p, b) D)"
    unfolding settled_def m(3,4) h(3)
  proof (intro conjI allI impI ballI)
    show "relax (sd_instructions (start g)) = Some (sd_instructions (start g))" using s by (simp add: settled_def)
    show "front (ins h (start_nd g) c) \<le> handed (last (sd_instructions (start g)))" if "edge g (start_nd g) c r" for c r
      using s h(5) [of "start_nd g" c] that order_trans unfolding settled_def by blast
    fix e assume e: "e \<in> insert (p, b) D"
    obtain p' b' where e': "e = (p', b')" by fastforce
    show "case e of (p, b) \<Rightarrow> p \<in> W \<longrightarrow> relax (ins h p b) = Some (ins h p b)
          \<and> (\<forall>q c s. edge g p b q \<longrightarrow> q \<in> W \<longrightarrow> edge g q c s \<longrightarrow> front (ins h q c) \<le> handed (last (ins h p b)))"
    proof (cases "e = (p, b)")
      case True
      have "p \<in> W \<Longrightarrow> q \<noteq> p" using o(1) by blast
      then show ?thesis unfolding True split using h(6,7) edge_unique [OF p(2)] by blast
    next
      case False
      then have D: "(p', b') \<in> D" using e e' by blast
      have same: "ins h p' b' = ins g p' b'" if "p' \<in> W"
      proof (rule h(4))
        show "(p', b') \<noteq> (p, b)" using D p(3) by blast
        have "p' \<in> fst ` D" using D by force
        then show "p' \<noteq> q" using o that by blast
      qed
      show ?thesis unfolding e' split
      proof (intro impI conjI allI)
        assume W: "p' \<in> W"
        have old: "relax (ins g p' b') = Some (ins g p' b')
          \<and> (\<forall>q c s. edge g p' b' q \<longrightarrow> q \<in> W \<longrightarrow> edge g q c s \<longrightarrow> front (ins g q c) \<le> handed (last (ins g p' b')))"
          using s D W unfolding settled_def by blast
        show "relax (ins h p' b') = Some (ins h p' b')" using old same [OF W] by simp
        show "front (ins h r c) \<le> handed (last (ins h p' b'))" if "edge g p' b' r" "r \<in> W" "edge g r c t" for r c t
          using old that h(5) [of r c] order_trans unfolding same [OF W] by blast
      qed
    qed
  qed
  ultimately show thesis using that h(1,2) by blast
qed

lemma settled_edges:
  assumes "labelled g" "settled g W D" "p \<in> set (nodes g)" "\<forall>e \<in> set es. fst e = p \<and> (\<exists>q. edge g p (snd e) q)"
    "distinct es" "set es \<inter> D = {}" "\<forall>b q. edge g p b q \<longrightarrow> (p \<in> W \<longrightarrow> q \<in> W \<longrightarrow> q \<noteq> p \<and> q \<notin> fst ` D) \<and> (p \<notin> W \<longrightarrow> q \<notin> W)"
  shows "\<exists>h. each relax_edge es g = Some h \<and> same h g \<and> labelled h \<and> settled h W (D \<union> set es)"
  using assms
proof (induction es arbitrary: g D)
  case (Cons e es)
  obtain b q where e: "e = (p, b)" "edge g p b q" using Cons.prems(4) by (cases e) auto
  obtain g1 where g1: "relax_edge (p, b) g = Some g1" "same g1 g" "labelled g1" "settled g1 W (insert (p, b) D)"
    by (rule settled_step [OF Cons.prems(1,2,3) e(2)]) (use Cons.prems(6,7) e in auto)
  note m = sameD [OF g1(2)]
  have "\<exists>h. each relax_edge es g1 = Some h \<and> same h g1 \<and> labelled h \<and> settled h W (insert (p, b) D \<union> set es)"
    by (rule Cons.IH [OF g1(3,4)]) (use Cons.prems e in \<open>auto simp: m\<close>)
  then show ?case using g1(1) same_trans [OF _ g1(2)] by (auto simp: e)
qed auto

definition edges_of :: "cfg \<Rightarrow> nptr \<Rightarrow> (nptr \<times> bool) list" where
  "edges_of g p = map (\<lambda>(q, b). (p, b)) (succs (heap g p))"

lemma set_edges_of: "set (edges_of g p) = {(p', b). p' = p \<and> (\<exists>q. edge g p b q)}"
  by (auto simp: edges_of_def image_iff)

lemma distinct_edges_of: "distinct (edges_of g p)"
  unfolding edges_of_def distinct_map
proof
  show "inj_on (\<lambda>(q, b). (p, b)) (set (succs (heap g p)))" by (auto simp: inj_on_def dest: edge_unique)
qed (rule distinct_succs)

lemma edge_list_eq: "edge_list g = concat (map (edges_of g) (nodes g))"
  by (simp add: edge_list_def edges_of_def [abs_def])

lemma settled_nodes:
  assumes "labelled g" "settled g W D" "fst ` D \<subseteq> set us" "set us \<inter> set vs = {}" "distinct vs" "set vs \<subseteq> set (nodes g)"
    "\<forall>p b q. edge g p b q \<longrightarrow> (p \<in> W \<longrightarrow> q \<in> W \<longrightarrow> (\<forall>xs ys. us @ vs = xs @ p # ys \<longrightarrow> q \<in> set ys)) \<and> (p \<in> set vs \<longrightarrow> p \<notin> W \<longrightarrow> q \<notin> W)"
  shows "\<exists>h. each relax_edge (concat (map (edges_of g) vs)) g = Some h \<and> same h g \<and> labelled h
    \<and> settled h W (D \<union> set (concat (map (edges_of g) vs)))"
  using assms
proof (induction vs arbitrary: g D us)
  case (Cons p vs)
  have ord: "q \<in> set vs" if "edge g p b q" "p \<in> W" "q \<in> W" for b q
    using Cons.prems(7) that by blast
  have pu: "p \<notin> set us" "p \<notin> set vs" "set us \<inter> set vs = {}" using Cons.prems(4,5) by auto
  have o: "\<forall>b q. edge g p b q \<longrightarrow> (p \<in> W \<longrightarrow> q \<in> W \<longrightarrow> q \<noteq> p \<and> q \<notin> fst ` D) \<and> (p \<notin> W \<longrightarrow> q \<notin> W)"
  proof (intro allI impI conjI)
    fix b q assume e: "edge g p b q"
    { assume "p \<in> W" "q \<in> W"
      then have "q \<in> set vs" using ord e by blast
      then show "q \<noteq> p" "q \<notin> fst ` D" using pu Cons.prems(3) by blast+ }
    show "q \<notin> W" if "p \<notin> W" using Cons.prems(7) e that by auto
  qed
  have "set (edges_of g p) \<inter> D = {}" using pu Cons.prems(3) by (force simp: set_edges_of)
  then obtain g1 where g1: "each relax_edge (edges_of g p) g = Some g1" "same g1 g" "labelled g1" "settled g1 W (D \<union> set (edges_of g p))"
  proof -
    have "p \<in> set (nodes g)" "\<forall>e \<in> set (edges_of g p). fst e = p \<and> (\<exists>q. edge g p (snd e) q)"
      using Cons.prems(6) by (auto simp: set_edges_of)
    from settled_edges [OF Cons.prems(1,2) this distinct_edges_of \<open>set (edges_of g p) \<inter> D = {}\<close> o] that show thesis by blast
  qed
  note m = sameD [OF g1(2)]
  have eo: "edges_of g1 = edges_of g" by (simp add: fun_eq_iff edges_of_def m)
  have "\<exists>h. each relax_edge (concat (map (edges_of g1) vs)) g1 = Some h \<and> same h g1 \<and> labelled h
      \<and> settled h W ((D \<union> set (edges_of g p)) \<union> set (concat (map (edges_of g1) vs)))"
  proof (rule Cons.IH [OF g1(3,4), of "us @ [p]"])
    show "fst ` (D \<union> set (edges_of g p)) \<subseteq> set (us @ [p])" using Cons.prems(3) by (auto simp: set_edges_of)
    show "\<forall>p' b q. edge g1 p' b q \<longrightarrow> (p' \<in> W \<longrightarrow> q \<in> W \<longrightarrow> (\<forall>xs ys. (us @ [p]) @ vs = xs @ p' # ys \<longrightarrow> q \<in> set ys))
        \<and> (p' \<in> set vs \<longrightarrow> p' \<notin> W \<longrightarrow> q \<notin> W)" using Cons.prems(7) by (simp add: m)
  qed (use Cons.prems pu in \<open>auto simp: m\<close>)
  then obtain h where h: "each relax_edge (concat (map (edges_of g) vs)) g1 = Some h" "same h g1" "labelled h"
      "settled h W (D \<union> set (edges_of g p) \<union> set (concat (map (edges_of g) vs)))" unfolding eo by blast
  then show ?case using g1(1) same_trans [OF h(2) g1(2)] by (simp add: each_append Un_assoc)
qed auto

subsection \<open>The result of the propagation\<close>

text \<open>No edge carries instructions yet.\<close>

definition unlabelled :: "cfg \<Rightarrow> bool" where
  "unlabelled g \<longleftrightarrow> sd_instructions (start g) = [] \<and> (\<forall>p b. ins g p b = []) \<and> (\<forall>p \<in> set (nodes g). instrs (heap g p) \<noteq> [])"

lemma fill_edge_eq:
  "fill_edge (p, b) g = set_ins p b (ins g p b @ map (\<lambda>n. (n, info_max)) (instrs (heap g (the (sd_nd (succ (heap g p) b)))))) g"
  by (simp add: fill_edge_def)

lemma fill_edges:
  assumes "distinct es"
  shows "ins (fold fill_edge es g) p b
      = (if (p, b) \<in> set es then ins g p b @ map (\<lambda>n. (n, info_max)) (instrs (heap g (the (sd_nd (succ (heap g p) b))))) else ins g p b)"
    "nodes (fold fill_edge es g) = nodes g" "fin_nd (fold fill_edge es g) = fin_nd g" "start (fold fill_edge es g) = start g"
    "instrs (heap (fold fill_edge es g) p) = instrs (heap g p)" "preds (heap (fold fill_edge es g) p) = preds (heap g p)"
    "sd_nd (succ (heap (fold fill_edge es g) p) b) = sd_nd (succ (heap g p) b)"
proof -
  have 1: "ins (fold fill_edge es g) p b
      = (if (p, b) \<in> set es then ins g p b @ map (\<lambda>n. (n, info_max)) (instrs (heap g (the (sd_nd (succ (heap g p) b))))) else ins g p b)
    \<and> nodes (fold fill_edge es g) = nodes g \<and> fin_nd (fold fill_edge es g) = fin_nd g \<and> start (fold fill_edge es g) = start g
    \<and> instrs (heap (fold fill_edge es g) p) = instrs (heap g p) \<and> preds (heap (fold fill_edge es g) p) = preds (heap g p)
    \<and> sd_nd (succ (heap (fold fill_edge es g) p) b) = sd_nd (succ (heap g p) b)"
    using assms
  proof (induction es arbitrary: g)
    case (Cons e es)
    obtain q c where e: "e = (q, c)" by fastforce
    show ?case using Cons.prems by (simp add: Cons.IH e fill_edge_eq)
  qed simp
  then show "ins (fold fill_edge es g) p b
      = (if (p, b) \<in> set es then ins g p b @ map (\<lambda>n. (n, info_max)) (instrs (heap g (the (sd_nd (succ (heap g p) b))))) else ins g p b)"
    "nodes (fold fill_edge es g) = nodes g" "fin_nd (fold fill_edge es g) = fin_nd g" "start (fold fill_edge es g) = start g"
    "instrs (heap (fold fill_edge es g) p) = instrs (heap g p)" "preds (heap (fold fill_edge es g) p) = preds (heap g p)"
    "sd_nd (succ (heap (fold fill_edge es g) p) b) = sd_nd (succ (heap g p) b)"
    by blast+
qed

lemma distinct_edge_list:
  assumes "distinct (nodes g)"
  shows "distinct (edge_list g)"
proof -
  have "distinct ps \<Longrightarrow> distinct (concat (map (edges_of g) ps))" for ps
    by (induction ps) (auto simp: distinct_edges_of set_edges_of)
  then show ?thesis using assms by (simp add: edge_list_eq)
qed

text \<open>The instructions of the start.\<close>

lemma labelled_same: "same h g \<Longrightarrow> labelled g \<Longrightarrow> labelled h"
proof -
  assume s: "same h g" and l: "labelled g"
  have "ins h p b = [] \<longleftrightarrow> ins g p b = []" for p b using sameD(7) [OF s, of p b] by (metis map_is_Nil_conv)
  then show "labelled h" using l by (simp add: labelled_def sameD [OF s])
qed

lemma relax_start_ok:
  assumes "labelled g" "sd_instructions (start g) \<noteq> []" "start_nd g \<in> set (nodes g)"
  obtains h where "relax_start g = Some h" "same h g" "labelled h" "settled h W {}"
    "hd (sd_instructions (start h)) = hd (sd_instructions (start g))"
proof -
  obtain xs where xs: "relax (sd_instructions (start g)) = Some xs" using relax_total [OF assms(2)] by blast
  note rx = relax_fst [OF xs]
  define g1 where "g1 = g\<lparr>start := (start g)\<lparr>sd_instructions := xs\<rparr>\<rparr>"
  have s1: "same g1 g" using rx by (simp add: same_def g1_def ins_def)
  have e1: "heap g1 = heap g" "ins g1 = ins g" "sd_instructions (start g1) = xs" "start_nd g1 = start_nd g"
    by (simp_all add: g1_def fun_eq_iff ins_def start_nd_def)
  have "\<forall>(s, c) \<in> set (succs (heap g1 (start_nd g))). ins g1 (start_nd g) c \<noteq> []"
    using assms(1,3) by (auto simp: labelled_def e1)
  from each_meet [OF this, of "\<lambda>g. sd_instructions (start g)"] obtain h where
    h: "each (\<lambda>(s, c). meet_edge (\<lambda>g. sd_instructions (start g)) (start_nd g) c) (succs (heap g1 (start_nd g))) g1 = Some h"
      "same h g1" "start h = start g1"
    and st: "\<And>l s c. steady (\<lambda>g. sd_instructions (start g)) (start_nd g) g1 l \<Longrightarrow> (s, c) \<in> set (succs (heap g1 (start_nd g)))
        \<Longrightarrow> front (ins h (start_nd g) c) \<le> handed l" by metis
  have s: "same h g" using same_trans [OF h(2) s1] .
  have "relax_start g = Some h"
    using h(1) by (simp add: relax_start_def xs g1_def [symmetric] Let_def e1)
  moreover have "front (ins h (start_nd g) c) \<le> handed (last xs)" if "edge g (start_nd g) c s" for c s
    by (rule st [of "last xs" s]) (use that in \<open>auto simp: steady_def e1\<close>)
  then have "settled h W {}" using rx by (simp add: settled_def h(3) e1 sameD [OF s])
  moreover have "hd (sd_instructions (start h)) = hd (sd_instructions (start g))" using rx by (simp add: h(3) e1)
  ultimately show thesis using that s labelled_same [OF s assms(1)] by blast
qed

text \<open>The sorted nodes: the target of an edge between them comes later, and no edge leads back to them.\<close>

definition sorted_nodes :: "cfg \<Rightarrow> nptr list \<Rightarrow> nptr list \<Rightarrow> bool" where
  "sorted_nodes g out rest \<longleftrightarrow> (\<forall>p b q. edge g p b q \<longrightarrow>
     (p \<in> set out \<longrightarrow> q \<in> set out \<longrightarrow> (\<forall>xs ys. out @ rest = xs @ p # ys \<longrightarrow> q \<in> set ys)) \<and> (p \<in> set rest \<longrightarrow> q \<notin> set out))"

lemma topological_sorted:
  assumes "topological g out" "graph_ok g" "distinct (out @ rest)" "set (out @ rest) = set (nodes g)"
  shows "sorted_nodes g out rest"
  unfolding sorted_nodes_def
proof (intro allI impI conjI)
  fix p b q assume e: "edge g p b q"
  then have "step g p q" by (auto simp: step_def)
  then have bef: "\<exists>i j. j < i \<and> i < length out \<and> out ! i = q \<and> out ! j = p" if "q \<in> set out" "p \<in> set (nodes g)"
    using topological_step [OF assms(1) that(1) assms(2) _ that(2)] assms(4) by (metis Un_iff set_append subsetI)
  { fix xs ys assume pq: "p \<in> set out" "q \<in> set out" and split: "out @ rest = xs @ p # ys"
    have "p \<in> set (nodes g)" using pq(1) assms(4) by auto
    then obtain i j where ij: "j < i" "i < length out" "out ! i = q" "out ! j = p" using bef pq(2) by blast
    have "(xs @ p # ys) ! j = p" using ij split by (metis nth_append order.strict_trans)
    moreover have "j < length (xs @ p # ys)" using ij split by (metis length_append order.strict_trans trans_less_add1)
    moreover have "distinct (xs @ p # ys)" using assms(3) split by metis
    ultimately have "j = length xs" by (metis length_append length_Cons nth_append_length nth_eq_iff_index_eq add_Suc_right less_add_Suc1)
    moreover have "(xs @ p # ys) ! i = q" "i < length (xs @ p # ys)"
      using ij split by (metis nth_append) (metis ij(2) split length_append trans_less_add1)
    ultimately have "ys ! (i - Suc j) = q" "i - Suc j < length ys" using ij(1) by (auto simp: nth_append nth_Cons')
    then show "q \<in> set ys" by (metis nth_mem) }
  show "q \<notin> set out" if "p \<in> set rest"
  proof
    assume "q \<in> set out"
    moreover have "p \<in> set (nodes g)" using that assms(4) by auto
    ultimately obtain i j where "j < i" "i < length out" "out ! j = p" using bef by blast
    then have "p \<in> set out" by (metis nth_mem order.strict_trans)
    then show False using that assms(3) by auto
  qed
qed

text \<open>The edges after their vectors have been filled.\<close>

lemma filled:
  assumes "graph_ok g" "unlabelled g" "gt = g\<lparr>nodes := ns\<rparr>" "distinct ns" "set ns = set (nodes g)"
  defines "h \<equiv> fold fill_edge (edge_list gt) (fill_start gt)"
  shows "edge h = edge g" "nodes h = ns" "fin_nd h = fin_nd g" "start_nd h = start_nd g" "edges_of h = edges_of gt"
    "sd_instructions (start h) = map (\<lambda>n. (n, Info 0 0)) (instrs (heap g (start_nd g)))" "labelled h"
    "p \<in> set ns \<Longrightarrow> edge g p b q \<Longrightarrow> map fst (ins h p b) = instrs (heap g q)"
    "(\<forall>q. \<not> edge g p b q) \<Longrightarrow> ins h p b = []" "instrs (heap h p) = instrs (heap g p)" "preds (heap h p) = preds (heap g p)"
    "sd_nd (start h) = sd_nd (start g)"
proof -
  let ?s = "fill_start gt"
  have s: "heap ?s = heap g" "nodes ?s = ns" "fin_nd ?s = fin_nd g" "start_nd ?s = start_nd g" "ins ?s = ins g"
    "sd_instructions (start ?s) = map (\<lambda>n. (n, Info 0 0)) (instrs (heap g (start_nd g)))"
    using assms(2,3) by (simp_all add: fill_start_def start_nd_def ins_def unlabelled_def fun_eq_iff)
  have "distinct (edge_list gt)" using distinct_edge_list [of gt] assms(3,4) by simp
  note f = fill_edges [OF this, of ?s, folded h_def]
  have sd: "sd_nd (succ (heap h p) b) = sd_nd (succ (heap g p) b)" for p b by (simp add: f(7) s)
  show e: "edge h = edge g" by (simp add: fun_eq_iff edge_def sd)
  have "succs (heap h p) = succs (heap g p)" for p
    using sd [of p True] sd [of p False] by (simp add: succs_def succ_def)
  then show "edges_of h = edges_of gt" by (simp add: edges_of_def [abs_def] assms(3))
  show ns: "nodes h = ns" "fin_nd h = fin_nd g" by (simp_all add: f s)
  show "start_nd h = start_nd g" "sd_instructions (start h) = map (\<lambda>n. (n, Info 0 0)) (instrs (heap g (start_nd g)))"
    using s(4,6) by (simp_all add: start_nd_def f(4))
  have i: "ins h p b = map (\<lambda>n. (n, info_max)) (instrs (heap g q))" if "p \<in> set ns" "edge g p b q" for p b q
  proof -
    have "(p, b) \<in> set (edge_list gt)" using that by (auto simp: edge_list_eq set_edges_of assms(3) edge_def)
    moreover have "sd_nd (succ (heap g p) b) = Some q" using that(2) by (simp add: edge_def)
    ultimately show ?thesis using assms(2) by (simp add: f(1) s unlabelled_def)
  qed
  show "p \<in> set ns \<Longrightarrow> edge g p b q \<Longrightarrow> map fst (ins h p b) = instrs (heap g q)" by (simp add: i comp_def)
  show "instrs (heap h p) = instrs (heap g p)" "preds (heap h p) = preds (heap g p)" by (simp_all add: f s)
  show "sd_nd (start h) = sd_nd (start g)" by (simp add: f(4) fill_start_def assms(3))
  show "ins h p b = []" if none: "\<forall>q. \<not> edge g p b q"
  proof -
    have "(p, b) \<notin> set (edge_list gt)" using none by (auto simp: edge_list_eq set_edges_of assms(3) edge_def)
    then show ?thesis using assms(2) by (simp add: f(1) s unlabelled_def)
  qed
  show "labelled h" unfolding labelled_def ns e
  proof (intro ballI allI impI)
    fix p b q assume p: "p \<in> set ns" "edge g p b q"
    then have "q \<in> set ns" using graph_okD(4) [OF assms(1), of p q] assms(5) by (auto simp: step_def)
    then show "ins h p b \<noteq> [] \<and> q \<in> set ns" using i [OF p] assms(2,5) by (simp add: unlabelled_def)
  qed
qed

lemma meet_edge_start: "meet_edge src q c g = Some h \<Longrightarrow> start h = start g"
  by (auto simp: meet_edge_def)

lemma relax_edge_start: "relax_edge e g = Some h \<Longrightarrow> start h = start g"
  by (cases e) (auto simp: relax_edge_def bind_eq_Some_conv dest!: each_keeps [where P = start] intro: meet_edge_start)

text \<open>
  The propagation returns.  For every edge between the nodes \<open>W\<close> that were sorted the information is
  settled, and before the first instruction nothing is known.
\<close>

definition annotated :: "cfg \<Rightarrow> cfg \<Rightarrow> nptr set \<Rightarrow> bool" where
  "annotated g h W \<longleftrightarrow> settled h W {(p, b). p \<in> set (nodes g) \<and> (\<exists>q. edge g p b q)}
     \<and> map fst (sd_instructions (start h)) = instrs (heap g (start_nd g))
     \<and> front (sd_instructions (start h)) = Info 0 0
     \<and> (\<forall>p \<in> set (nodes g). \<forall>b q. edge g p b q \<longrightarrow> map fst (ins h p b) = instrs (heap g q))
     \<and> (\<forall>p b. (\<forall>q. \<not> edge g p b q) \<longrightarrow> ins h p b = [])
     \<and> (\<forall>p. instrs (heap h p) = instrs (heap g p) \<and> preds (heap h p) = preds (heap g p))
     \<and> sd_nd (start h) = sd_nd (start g)"

lemma overestimate_correct:
  assumes g: "graph_ok g" "preds (heap g (start_nd g)) = []" and u: "unlabelled g" and t: "topo_sort g = Some (Inr gt)"
  obtains h out rest where "overestimate_cycles g = Some h" "nodes h = nodes gt" "nodes gt = out @ rest"
    "edge h = edge g" "fin_nd h = fin_nd g" "start_nd h = start_nd g" "annotated g h (set out)"
    "start_nd g \<in> set out" "fin_nd g \<in> set (nodes g) \<longrightarrow> fin_nd g \<in> set out" "distinct (out @ rest)"
    "set (out @ rest) = set (nodes g)" "sorted_nodes g out rest"
    "(\<forall>q \<in> set (nodes g). q \<noteq> start_nd g \<longrightarrow> (\<exists>p \<in> set (nodes g). step g p q)) \<longrightarrow>
       (\<forall>p \<in> set (nodes g). \<not> (step g)\<^sup>+\<^sup>+ p p) \<longrightarrow> rest = []"
proof -
  obtain out rest where o: "gt = g\<lparr>nodes := out @ rest\<rparr>" "distinct (out @ rest)" "set (out @ rest) = set (nodes g)"
    "topological g out" "start_nd g \<in> set out" "fin_nd g \<in> set (nodes g) \<longrightarrow> fin_nd g \<in> set out"
    "(\<forall>q \<in> set (nodes g). q \<noteq> start_nd g \<longrightarrow> (\<exists>p \<in> set (nodes g). step g p q)) \<longrightarrow>
       (\<forall>p \<in> set (nodes g). \<not> (step g)\<^sup>+\<^sup>+ p p) \<longrightarrow> rest = []"
    by (rule topo_sort_Some [OF g t])
  have srt: "sorted_nodes g out rest" by (rule topological_sorted [OF o(4) g(1) o(2,3)])
  define g2 where "g2 = fold fill_edge (edge_list gt) (fill_start gt)"
  note f = filled [OF g(1) u o(1,2,3), folded g2_def]
  have sn: "start_nd g \<in> set (nodes g)" by (rule graph_okD(3) [OF g(1)])
  have ne: "instrs (heap g (start_nd g)) \<noteq> []" using u sn by (simp add: unlabelled_def)
  obtain g4 where g4: "relax_start g2 = Some g4" "same g4 g2" "labelled g4" "settled g4 (set out) {}"
    "hd (sd_instructions (start g4)) = hd (sd_instructions (start g2))"
    by (rule relax_start_ok [OF f(7), where W = "set out"]) (use f(2,4,6) sn ne o(3) in auto)
  note m4 = sameD [OF g4(2), unfolded f(1-4)]
  have e4: "edges_of g4 = edges_of gt" using f(5) by (simp add: edges_of_def [abs_def] m4(9))
  have "\<exists>h. each relax_edge (concat (map (edges_of g4) (out @ rest))) g4 = Some h \<and> same h g4 \<and> labelled h
      \<and> settled h (set out) ({} \<union> set (concat (map (edges_of g4) (out @ rest))))"
    by (rule settled_nodes [OF g4(3,4), of "[]"]) (use srt o(2) in \<open>auto simp: m4(1,4) sorted_nodes_def\<close>)
  then obtain h where h: "each relax_edge (edge_list gt) g4 = Some h" "same h g4" "settled h (set out) (set (edge_list gt))"
    using o(1) by (auto simp: e4 edge_list_eq)
  note mh = sameD [OF h(2), unfolded m4]
  have "edge_list g2 = edge_list gt" "edge_list g4 = edge_list gt" using f(2,5) o(1) m4(1) e4 by (simp_all add: edge_list_eq)
  then have oc: "overestimate_cycles g = Some h"
    using t g4(1) h(1) by (simp add: overestimate_cycles_def g2_def [symmetric] Let_def)
  have ann: "annotated g h (set out)"
    unfolding annotated_def
  proof (intro conjI ballI allI impI)
    have "set (edge_list gt) = {(p, b). p \<in> set (nodes g) \<and> (\<exists>q. edge g p b q)}"
      using o(3) by (auto simp: edge_list_eq set_edges_of o(1) edge_def)
    then show "settled h (set out) {(p, b). p \<in> set (nodes g) \<and> (\<exists>q. edge g p b q)}" using h(3) by simp
    show "map fst (sd_instructions (start h)) = instrs (heap g (start_nd g))" using mh(8) f(6) m4(8) by (simp add: comp_def)
    show "map fst (ins h p b) = instrs (heap g q)" if "p \<in> set (nodes g)" "edge g p b q" for p b q
    proof -
      have "p \<in> set (out @ rest)" using that(1) o(3) by simp
      then show ?thesis using mh(7) [of p b] m4(7) [of p b] f(8) [OF _ that(2)] by simp
    qed
    show "ins h p b = []" if "\<forall>q. \<not> edge g p b q" for p b
      using mh(7) [of p b] m4(7) [of p b] f(9) [OF that] by simp
    show "instrs (heap h p) = instrs (heap g p)" "preds (heap h p) = preds (heap g p)" for p
      using mh(6) [of p] m4(6) [of p] f(10,11) [of p] h(2) g4(2) by (simp_all add: same_def)
    show "sd_nd (start h) = sd_nd (start g)" using h(2) g4(2) f(12) by (simp add: same_def)
    have "start h = start g4" by (rule each_keeps [OF h(1) relax_edge_start])
    then show "front (sd_instructions (start h)) = Info 0 0"
      using g4(5) ne by (cases "instrs (heap g (start_nd g))") (simp_all add: front_def f(6))
  qed
  have ns: "nodes h = nodes gt" "nodes gt = out @ rest" using mh(1) o(1) by simp_all
  show thesis by (rule that [OF oc ns mh(4,2,3) ann o(5,6,2,3) srt o(7)])
qed

end
