(* ===== verification/Bound.thy ===== *)
theory Bound
  imports Overestimate Exec
begin

text \<open>
  The paths of \<open>class cfg::path\<close> that only count cycles, the state an analysis starts with, and the
  bound that \<open>cfg::underestimate_packetrate\<close> computes before any path is looked at.

  The bound is the largest sum of cycles that is found by keeping one path for each node.  The cost of
  the last instruction of a node depends on the edge that leads to the node, so that the path that is
  kept need not be the most expensive one.  How far the bound can be off is what is shown here.
\<close>

subsection \<open>The initial state\<close>

definition initial_state :: "settings \<Rightarrow> exec" where
  "initial_state cf =
     (let packetsize = Bvvariable 14 ''packetsize'';
          packet = Avar 32 8 ''packet''; ctx = Avar 32 32 ''ctx''; stack = Avar 32 32 ''stack''; maps = Avar 32 8 ''map'';
          p_packet = Pointer packet (bvconstant 32 0); p_ctx = Pointer ctx (bvconstant 32 0);
          p_stack = Pointer stack (bvconstant 32 0); p_map = Pointer_base maps 8 (bvconstant 32 0)
      in make_exec (COST_FIRMWARE cf) (DRAM_COST_FIRMWARE cf)
           [update_cells packet [], update_cells stack [], update_cells maps [],
            update_cells ctx [(0, bvextend 18 packetsize),
              (2, bvadd p_packet (bvconstant 32 (ucast (PACKET_HEADROOM cf))))],
            Reg (location (R_gpr (Gpr (CHR ''A'') 22))) p_stack,
            Reg (location (R_gpr (Gpr (CHR ''B'') 23))) p_map,
            Reg (local_csr_location (ActLMAddr ! 0)) p_stack,
            Reg (local_csr_location (ActLMAddr ! 1)) p_ctx]
           (Some ''packetsize'') (MIN_PACKETSIZE cf) (MTU cf) [])"

subsection \<open>Paths that count cycles\<close>

text \<open>\<open>path::impossible\<close> with its base class \<open>withstate<state::perf>\<close>; of the state only the two sums are used.\<close>

record impossible =
  ip_s :: succ_data
  ip_min :: u32
  ip_state :: exec
  ip_count :: u64

definition make_impossible :: "succ_data \<Rightarrow> u32 \<Rightarrow> exec \<Rightarrow> u64 \<Rightarrow> impossible option" where
  "make_impossible s m st c =
     (if sd_instructions s = [] then None
      else map_option (\<lambda>st. \<lparr>ip_s = s, ip_min = max (sd_min_packetsize s) m, ip_state = st, ip_count = c\<rparr>)
        (each (\<lambda>(n, i). perf_apply n i False) (butlast (sd_instructions s)) st))"

definition extendi :: "cfg \<Rightarrow> impossible \<Rightarrow> bool \<Rightarrow> impossible option" where
  "extendi g p b = do {
     let (n, i) = last (sd_instructions (ip_s p));
     st \<leftarrow> perf_apply n i b (ip_state p);
     q \<leftarrow> sd_nd (ip_s p);
     make_impossible (succ (heap g q) b) (ip_min p) st (ip_count p)
   }"

definition path_cycles :: "impossible \<Rightarrow> u32" where
  "path_cycles p = summaxcycles (ip_state p)"

text \<open>\<open>max_cycles(branchtrue)\<close>: with the last instruction and those of the next edge.\<close>

fun sum_cycles :: "instr_data list \<Rightarrow> u32 option" where
  "sum_cycles [] = Some 0"
| "sum_cycles ((n, i) # xs) = do { c \<leftarrow> perf_cycles n i False; map_option ((+) c) (sum_cycles xs) }"

definition path_cycles_to :: "cfg \<Rightarrow> impossible \<Rightarrow> bool \<Rightarrow> u32 option" where
  "path_cycles_to g p b = do {
     let (n, i) = last (sd_instructions (ip_s p));
     c \<leftarrow> perf_cycles n i b;
     q \<leftarrow> sd_nd (ip_s p);
     let xs = sd_instructions (succ (heap g q) b);
     if xs = [] then None else map_option (\<lambda>d. path_cycles p + c + d) (sum_cycles (butlast xs))
   }"

subsection \<open>The bound\<close>

type_synonym best = "nptr \<rightharpoonup> impossible"

definition improve :: "nptr \<Rightarrow> impossible \<Rightarrow> best \<Rightarrow> best" where
  "improve q n m = (case m q of
     None \<Rightarrow> m(q \<mapsto> n)
   | Some e \<Rightarrow> if path_cycles e < path_cycles n then m(q \<mapsto> n) else m)"

definition extend_node :: "cfg \<Rightarrow> nptr \<Rightarrow> best \<Rightarrow> best option" where
  "extend_node g x m =
     each (\<lambda>(q, b) m'. do { p \<leftarrow> m x; n \<leftarrow> extendi g p b; Some (improve q n m') }) (succs (heap g x)) m"

definition underestimate_packetrate :: "settings \<Rightarrow> cfg \<Rightarrow> u32 option" where
  "underestimate_packetrate cf g = do {
     p \<leftarrow> make_impossible (start g) (MIN_PACKETSIZE cf) (initial_state cf) 1;
     m \<leftarrow> each (extend_node g) (nodes g) [start_nd g \<mapsto> p];
     Some (case m (fin_nd g) of None \<Rightarrow> 0 | Some p \<Rightarrow> path_cycles p)
   }"

text \<open>All the paths: \<open>walk\<close> extends along the edges that are chosen.\<close>

fun walk :: "cfg \<Rightarrow> impossible \<Rightarrow> bool list \<Rightarrow> impossible option" where
  "walk g p [] = Some p"
| "walk g p (b # bs) = Option.bind (extendi g p b) (\<lambda>n. walk g n bs)"

subsection \<open>Sums without overflow\<close>

text \<open>The cycles of an instruction with its information, and those of the instructions before the last.\<close>

definition cyc :: "instr_data \<Rightarrow> bool \<Rightarrow> nat" where
  "cyc x b = unat (the (perf_cycles (fst x) (snd x) b))"

definition base :: "instr_data list \<Rightarrow> nat" where
  "base xs = sum_list (map (\<lambda>x. cyc x False) (butlast xs))"

lemma cyc_le: "cyc x b \<le> 25"
  using perf_cycles_total [of "fst x" "snd x" b] by (auto simp: cyc_def word_le_nat_alt)

lemma sum_cyc_le: "sum_list (map (\<lambda>x. cyc x False) xs) \<le> 25 * length xs"
  by (induction xs) (use cyc_le in \<open>auto intro: add_mono\<close>)

lemma base_le: "base xs \<le> 25 * (length xs - 1)"
  using sum_cyc_le [of "butlast xs"] by (simp add: base_def)

lemma perf_apply_cyc:
  assumes "dram_cycles (fst x) \<noteq> None" "unat (summaxcycles s) + 25 < 2 ^ 32"
  shows "\<exists>t. perf_apply (fst x) (snd x) b s = Some t \<and> unat (summaxcycles t) = unat (summaxcycles s) + cyc x b"
proof -
  obtain c r where "perf_cycles (fst x) (snd x) b = Some c" "c \<le> 25" "dram_cycles (fst x) = Some r"
    using perf_cycles_total [of "fst x" "snd x" b] assms(1) by auto
  then show ?thesis using assms(2)
    by (auto simp: perf_apply_def cyc_def unat_word_ariths word_le_nat_alt)
qed

lemma each_perf_apply:
  assumes "\<forall>x \<in> set xs. dram_cycles (fst x) \<noteq> None" "unat (summaxcycles s) + 25 * length xs < 2 ^ 32"
  shows "\<exists>t. each (\<lambda>(n, i). perf_apply n i False) xs s = Some t
    \<and> unat (summaxcycles t) = unat (summaxcycles s) + sum_list (map (\<lambda>x. cyc x False) xs)"
  using assms
proof (induction xs arbitrary: s)
  case (Cons x xs)
  have dr: "dram_cycles (fst x) \<noteq> None" "\<forall>x \<in> set xs. dram_cycles (fst x) \<noteq> None" using Cons.prems(1) by simp_all
  have "unat (summaxcycles s) + 25 < 2 ^ 32" using Cons.prems(2) by simp
  from perf_apply_cyc [OF dr(1) this, of False] obtain t where
    t: "perf_apply (fst x) (snd x) False s = Some t" "unat (summaxcycles t) = unat (summaxcycles s) + cyc x False" by blast
  then have "unat (summaxcycles t) + 25 * length xs < 2 ^ 32" using Cons.prems(2) cyc_le [of x False] by simp
  from Cons.IH [OF dr(2) this] show ?case using t by (auto simp: case_prod_beta)
qed simp

lemma make_impossible_ok:
  assumes "sd_instructions s \<noteq> []" "\<forall>x \<in> set (sd_instructions s). dram_cycles (fst x) \<noteq> None"
    "unat (summaxcycles st) + 25 * (length (sd_instructions s) - 1) < 2 ^ 32"
  shows "\<exists>p. make_impossible s m st c = Some p \<and> ip_s p = s
    \<and> unat (path_cycles p) = unat (summaxcycles st) + base (sd_instructions s)"
proof -
  have "\<forall>x \<in> set (butlast (sd_instructions s)). dram_cycles (fst x) \<noteq> None" using assms(2) in_set_butlastD by fast
  from each_perf_apply [OF this, of st] obtain t where
    "each (\<lambda>(n, i). perf_apply n i False) (butlast (sd_instructions s)) st = Some t"
    "unat (summaxcycles t) = unat (summaxcycles st) + base (sd_instructions s)"
    using assms(3) by (auto simp: base_def)
  then show ?thesis using assms(1) by (simp add: make_impossible_def path_cycles_def)
qed

lemma extendi_ok:
  assumes s: "sd_instructions (ip_s p) \<noteq> []" "\<forall>x \<in> set (sd_instructions (ip_s p)). dram_cycles (fst x) \<noteq> None"
    and q: "sd_nd (ip_s p) = Some q" "ins g q b \<noteq> []" "\<forall>x \<in> set (ins g q b). dram_cycles (fst x) \<noteq> None"
    and small: "unat (path_cycles p) + 25 * length (ins g q b) < 2 ^ 32"
  shows "\<exists>n. extendi g p b = Some n \<and> ip_s n = succ (heap g q) b
    \<and> unat (path_cycles n) = unat (path_cycles p) + cyc (last (sd_instructions (ip_s p))) b + base (ins g q b)"
proof -
  let ?l = "last (sd_instructions (ip_s p))"
  have len: "1 \<le> length (ins g q b)" using q(2) by (cases "ins g q b") simp_all
  have "dram_cycles (fst ?l) \<noteq> None" using s last_in_set by blast
  moreover have "unat (summaxcycles (ip_state p)) + 25 < 2 ^ 32" using small len unfolding path_cycles_def by linarith
  ultimately obtain t where t: "perf_apply (fst ?l) (snd ?l) b (ip_state p) = Some t"
      "unat (summaxcycles t) = unat (path_cycles p) + cyc ?l b"
    using perf_apply_cyc unfolding path_cycles_def by blast
  have "unat (summaxcycles t) + 25 * (length (ins g q b) - 1) < 2 ^ 32"
    using t(2) small len cyc_le [of ?l b] by linarith
  from make_impossible_ok [OF _ _ this [unfolded ins_def], of "ip_min p" "ip_count p"] obtain n where
    "make_impossible (succ (heap g q) b) (ip_min p) t (ip_count p) = Some n" "ip_s n = succ (heap g q) b"
    "unat (path_cycles n) = unat (summaxcycles t) + base (ins g q b)"
    using q(2,3) by (auto simp: ins_def)
  then show ?thesis using t q(1) by (simp add: extendi_def case_prod_beta)
qed

subsection \<open>A graph that is ready\<close>

text \<open>
  What the construction, the sort and the propagation provide: the nodes are in topological order, each
  edge carries the instructions of its target, and no path is so long that its sum of cycles wraps.
\<close>

definition ready :: "settings \<Rightarrow> cfg \<Rightarrow> bool" where
  "ready cf g \<longleftrightarrow> graph_ok g \<and> preds (heap g (start_nd g)) = [] \<and> sd_nd (start g) = Some (start_nd g)
     \<and> map fst (sd_instructions (start g)) = instrs (heap g (start_nd g))
     \<and> (\<forall>p \<in> set (nodes g). \<forall>b q. edge g p b q \<longrightarrow> map fst (ins g p b) = instrs (heap g q)
          \<and> (\<forall>xs ys. nodes g = xs @ p # ys \<longrightarrow> q \<in> set ys))
     \<and> (\<forall>p \<in> set (nodes g). \<forall>b. (\<forall>q. \<not> edge g p b q) \<longrightarrow> ins g p b = [])
     \<and> (\<forall>p \<in> set (nodes g). instrs (heap g p) \<noteq> [] \<and> (\<forall>n \<in> set (instrs (heap g p)). dram_cycles n \<noteq> None))
     \<and> unat (COST_FIRMWARE cf) + 25 * sum_list (map (\<lambda>p. length (instrs (heap g p))) (nodes g)) < 2 ^ 32"

text \<open>The most that a path to \<open>q\<close> can cost, by the nodes before it.\<close>

definition cap :: "settings \<Rightarrow> cfg \<Rightarrow> nptr \<Rightarrow> nat" where
  "cap cf g q = unat (COST_FIRMWARE cf) + 25 * sum_list (map (\<lambda>p. length (instrs (heap g p))) (takeWhile (\<lambda>y. y \<noteq> q) (nodes g)))
     + 25 * (length (instrs (heap g q)) - 1)"

text \<open>A path to \<open>q\<close>: its last part is the start or an edge to \<open>q\<close>.\<close>

definition path_to :: "settings \<Rightarrow> cfg \<Rightarrow> impossible \<Rightarrow> nptr \<Rightarrow> bool" where
  "path_to cf g p q \<longleftrightarrow> q \<in> set (nodes g) \<and> sd_nd (ip_s p) = Some q
     \<and> (q = start_nd g \<and> ip_s p = start g \<or> (\<exists>r \<in> set (nodes g). \<exists>b. edge g r b q \<and> ip_s p = succ (heap g r) b))
     \<and> map fst (sd_instructions (ip_s p)) = instrs (heap g q) \<and> unat (path_cycles p) \<le> cap cf g q"

lemma readyD:
  assumes "ready cf g"
  shows "distinct (nodes g)" "start_nd g \<in> set (nodes g)" "sd_nd (start g) = Some (start_nd g)"
    "map fst (sd_instructions (start g)) = instrs (heap g (start_nd g))"
    "p \<in> set (nodes g) \<Longrightarrow> edge g p b q \<Longrightarrow> map fst (ins g p b) = instrs (heap g q)"
    "p \<in> set (nodes g) \<Longrightarrow> edge g p b q \<Longrightarrow> nodes g = xs @ p # ys \<Longrightarrow> q \<in> set ys"
    "p \<in> set (nodes g) \<Longrightarrow> instrs (heap g p) \<noteq> []"
    "p \<in> set (nodes g) \<Longrightarrow> n \<in> set (instrs (heap g p)) \<Longrightarrow> dram_cycles n \<noteq> None"
    "unat (COST_FIRMWARE cf) + 25 * sum_list (map (\<lambda>p. length (instrs (heap g p))) (nodes g)) < 2 ^ 32"
    "p \<in> set (nodes g) \<Longrightarrow> (\<And>q. \<not> edge g p b q) \<Longrightarrow> ins g p b = []"
  using assms unfolding ready_def graph_ok_def by blast+

lemma takeWhile_ready:
  assumes "ready cf g" "nodes g = xs @ p # ys"
  shows "takeWhile (\<lambda>y. y \<noteq> p) (nodes g) = xs"
    "edge g p b q \<Longrightarrow> takeWhile (\<lambda>y. y \<noteq> q) (nodes g) = xs @ p # takeWhile (\<lambda>y. y \<noteq> q) ys"
proof -
  note r = readyD [OF assms(1)]
  have d: "p \<notin> set xs" "p \<notin> set ys" "set xs \<inter> set ys = {}" "distinct ys" using r(1) assms(2) by auto
  show "takeWhile (\<lambda>y. y \<noteq> p) (nodes g) = xs" using d(1) by (auto simp: assms(2) takeWhile_append)
  assume "edge g p b q"
  then have "q \<in> set ys" using r(6) [of p b q xs ys] assms(2) by simp
  then have "q \<notin> set xs" "q \<noteq> p" using d by auto
  then show "takeWhile (\<lambda>y. y \<noteq> q) (nodes g) = xs @ p # takeWhile (\<lambda>y. y \<noteq> q) ys"
    by (auto simp: assms(2) takeWhile_append)
qed

lemma cap_total:
  assumes "ready cf g" "q \<in> set (nodes g)"
  shows "cap cf g q + 25 \<le> unat (COST_FIRMWARE cf) + 25 * sum_list (map (\<lambda>p. length (instrs (heap g p))) (nodes g))"
proof -
  obtain xs ys where n: "nodes g = xs @ q # ys" using assms(2) by (metis split_list)
  have "1 \<le> length (instrs (heap g q))" using readyD(7) [OF assms] by (cases "instrs (heap g q)") simp_all
  then show ?thesis unfolding cap_def takeWhile_ready(1) [OF assms(1) n] by (simp add: n)
qed

lemma cap_edge:
  assumes "ready cf g" "p \<in> set (nodes g)" "edge g p b q"
  shows "cap cf g p + 25 + 25 * (length (instrs (heap g q)) - 1) \<le> cap cf g q" "q \<in> set (nodes g)"
proof -
  obtain xs ys where n: "nodes g = xs @ p # ys" using assms(2) by (metis split_list)
  show "q \<in> set (nodes g)" using readyD(6) [OF assms n] n by simp
  have "1 \<le> length (instrs (heap g p))" using readyD(7) [OF assms(1,2)] by (cases "instrs (heap g p)") simp_all
  then show "cap cf g p + 25 + 25 * (length (instrs (heap g q)) - 1) \<le> cap cf g q"
    unfolding cap_def takeWhile_ready(1) [OF assms(1) n] takeWhile_ready(2) [OF assms(1) n assms(3)] by simp
qed

lemma path_to_start:
  assumes "ready cf g"
  obtains p where "make_impossible (start g) (MIN_PACKETSIZE cf) (initial_state cf) 1 = Some p" "path_to cf g p (start_nd g)"
    "ip_s p = start g" "unat (path_cycles p) = unat (COST_FIRMWARE cf) + base (sd_instructions (start g))"
proof -
  note r = readyD [OF assms]
  have s: "summaxcycles (initial_state cf) = COST_FIRMWARE cf" by (simp add: initial_state_def Let_def make_exec_def)
  have len: "length (sd_instructions (start g)) = length (instrs (heap g (start_nd g)))" using r(4) by (metis length_map)
  have ne: "sd_instructions (start g) \<noteq> []" using len r(7) [OF r(2)] by (metis length_0_conv)
  have dr: "\<forall>x \<in> set (sd_instructions (start g)). dram_cycles (fst x) \<noteq> None"
    using r(4) r(8) [OF r(2)] by (metis image_eqI set_map)
  have c: "unat (COST_FIRMWARE cf) + 25 * (length (sd_instructions (start g)) - 1) \<le> cap cf g (start_nd g)"
    by (simp add: cap_def len)
  then have "unat (summaxcycles (initial_state cf)) + 25 * (length (sd_instructions (start g)) - 1) < 2 ^ 32"
    using cap_total [OF assms r(2)] r(9) by (simp add: s)
  from make_impossible_ok [OF ne dr this] obtain p where
    p: "make_impossible (start g) (MIN_PACKETSIZE cf) (initial_state cf) 1 = Some p" "ip_s p = start g"
      "unat (path_cycles p) = unat (COST_FIRMWARE cf) + base (sd_instructions (start g))" unfolding s by blast
  have "unat (path_cycles p) \<le> cap cf g (start_nd g)" using c p(3) base_le [of "sd_instructions (start g)"] by linarith
  then show thesis using that p r(2,3,4) by (simp add: path_to_def)
qed

lemma path_to_extend:
  assumes r: "ready cf g" and p: "path_to cf g p q" and e: "edge g q b t"
  obtains n where "extendi g p b = Some n" "path_to cf g n t" "ip_s n = succ (heap g q) b"
    "unat (path_cycles n) = unat (path_cycles p) + cyc (last (sd_instructions (ip_s p))) b + base (ins g q b)"
proof -
  note rd = readyD [OF r]
  have q: "q \<in> set (nodes g)" "sd_nd (ip_s p) = Some q" "map fst (sd_instructions (ip_s p)) = instrs (heap g q)"
    "unat (path_cycles p) \<le> cap cf g q" using p by (simp_all add: path_to_def)
  note ce = cap_edge [OF r q(1) e]
  have lab: "map fst (ins g q b) = instrs (heap g t)" by (rule rd(5) [OF q(1) e])
  have len: "length (ins g q b) = length (instrs (heap g t))" using lab by (metis length_map)
  have ne: "sd_instructions (ip_s p) \<noteq> []" "ins g q b \<noteq> []"
    using q(3) lab rd(7) [OF q(1)] rd(7) [OF ce(2)] by (metis map_is_Nil_conv)+
  have dr: "\<forall>x \<in> set (sd_instructions (ip_s p)). dram_cycles (fst x) \<noteq> None" "\<forall>x \<in> set (ins g q b). dram_cycles (fst x) \<noteq> None"
    using q(3) lab rd(8) [OF q(1)] rd(8) [OF ce(2)] by (metis image_eqI set_map)+
  have "1 \<le> length (ins g q b)" using ne(2) by (cases "ins g q b") simp_all
  then have "unat (path_cycles p) + 25 * length (ins g q b) < 2 ^ 32"
    using q(4) ce(1) cap_total [OF r ce(2)] rd(9) len by linarith
  from extendi_ok [OF ne(1) dr(1) q(2) ne(2) dr(2) this] obtain n where
    n: "extendi g p b = Some n" "ip_s n = succ (heap g q) b"
      "unat (path_cycles n) = unat (path_cycles p) + cyc (last (sd_instructions (ip_s p))) b + base (ins g q b)" by blast
  have "unat (path_cycles n) \<le> cap cf g t"
    using n(3) q(4) ce(1) base_le [of "ins g q b"] cyc_le [of "last (sd_instructions (ip_s p))" b] len by linarith
  moreover have "\<exists>r \<in> set (nodes g). \<exists>c. edge g r c t \<and> ip_s n = succ (heap g r) c" using q(1) e n(2) by blast
  ultimately have "path_to cf g n t" using n(2) lab ce(2) e unfolding path_to_def by (simp add: ins_def edge_def)
  then show thesis using that n by blast
qed

subsection \<open>How far the last instruction of a node can be off\<close>

definition slack :: "instr \<Rightarrow> nat" where
  "slack n = (if itype n = BRANCH then 1 else if itype n = MEM \<and> waits n then 22 else 0)"

lemma cyc_slack: "fst x = fst y \<Longrightarrow> cyc x b \<le> cyc y b + slack (fst y)"
  by (rule perf_cycles_cases [of "fst y"]) (auto simp: cyc_def slack_def unat_sub_if' word_le_nat_alt)

text \<open>Where a single edge leads to a node, there is nothing to be off.\<close>

definition slack_at :: "cfg \<Rightarrow> nptr \<Rightarrow> nat" where
  "slack_at g q = (if indegree (heap g q) \<le> 1 then 0 else slack (last (instrs (heap g q))))"

lemma path_to_slack:
  assumes r: "ready cf g" and p: "path_to cf g p q" and e: "path_to cf g e q"
  shows "cyc (last (sd_instructions (ip_s p))) b \<le> cyc (last (sd_instructions (ip_s e))) b + slack_at g q"
proof (cases "indegree (heap g q) \<le> 1")
  case False
  have n: "instrs (heap g q) \<noteq> []" using p readyD(7) [OF r] by (simp add: path_to_def)
  have l: "fst (last (sd_instructions (ip_s x))) = last (instrs (heap g q))" if "path_to cf g x q" for x
    using that n by (metis last_map map_is_Nil_conv path_to_def)
  show ?thesis using cyc_slack [of "last (sd_instructions (ip_s p))" "last (sd_instructions (ip_s e))" b] l [OF p] l [OF e] False
    by (simp add: slack_at_def)
next
  case True
  have g: "graph_ok g" "preds (heap g (start_nd g)) = []" using r by (simp_all add: ready_def)
  have q: "q \<in> set (nodes g)" using p by (simp add: path_to_def)
  note m = mirroredD(2) [OF graph_okD(2) [OF g(1)] q]
  have one: "(c, d) = (c', d')" if "edge g c d q" "edge g c' d' q" "c \<in> set (nodes g)" "c' \<in> set (nodes g)" for c d c' d'
  proof -
    have "{(c, d), (c', d')} \<subseteq> set (preds (heap g q))" using that m by auto
    then show ?thesis using True by (cases "preds (heap g q)") (auto simp: indegree_def)
  qed
  have none: "\<not> edge g c d q" if "q = start_nd g" "c \<in> set (nodes g)" for c d
    using m [of c d] that g(2) by simp
  have "ip_s p = ip_s e"
  proof (cases "q = start_nd g")
    case True
    then show ?thesis using p e none unfolding path_to_def by auto
  next
    case False
    then obtain c d c' d' where "c \<in> set (nodes g)" "edge g c d q" "ip_s p = succ (heap g c) d"
      "c' \<in> set (nodes g)" "edge g c' d' q" "ip_s e = succ (heap g c') d'"
      using p e unfolding path_to_def by auto
    then show ?thesis using one [of c d c' d'] by simp
  qed
  then show ?thesis by simp
qed

subsection \<open>The loop over the nodes\<close>

lemma improve_ge:
  "\<exists>f. improve q n m q = Some f \<and> path_cycles n \<le> path_cycles f"
  "m r = Some e \<Longrightarrow> \<exists>f. improve q n m r = Some f \<and> path_cycles e \<le> path_cycles f"
  "r \<noteq> q \<Longrightarrow> improve q n m r = m r"
  "improve q n m r = Some f \<Longrightarrow> m r = Some f \<or> r = q \<and> f = n"
  by (auto simp: improve_def not_less split: option.splits if_splits)

lemma extend_node_ok:
  assumes p: "m x = Some p" and ext: "\<And>b q. edge g x b q \<Longrightarrow> \<exists>n. extendi g p b = Some n"
  obtains m' where "extend_node g x m = Some m'"
    "\<And>r e. m r = Some e \<Longrightarrow> \<exists>f. m' r = Some f \<and> path_cycles e \<le> path_cycles f"
    "\<And>r. (\<forall>b. \<not> edge g x b r) \<Longrightarrow> m' r = m r"
    "\<And>b q. edge g x b q \<Longrightarrow> \<exists>n f. extendi g p b = Some n \<and> m' q = Some f \<and> path_cycles n \<le> path_cycles f"
    "\<And>r f. m' r = Some f \<Longrightarrow> m r = Some f \<or> (\<exists>b. edge g x b r \<and> extendi g p b = Some f)"
proof -
  let ?f = "\<lambda>(q, b) m'. do { p \<leftarrow> m x; n \<leftarrow> extendi g p b; Some (improve q n m') }"
  define P where "P ss k m' \<longleftrightarrow> each ?f ss k = Some m'
      \<and> (\<forall>r e. k r = Some e \<longrightarrow> (\<exists>f. m' r = Some f \<and> path_cycles e \<le> path_cycles f))
      \<and> (\<forall>r. r \<notin> fst ` set ss \<longrightarrow> m' r = k r)
      \<and> (\<forall>q b. (q, b) \<in> set ss \<longrightarrow> (\<exists>n f. extendi g p b = Some n \<and> m' q = Some f \<and> path_cycles n \<le> path_cycles f))
      \<and> (\<forall>r f. m' r = Some f \<longrightarrow> k r = Some f \<or> (\<exists>b. (r, b) \<in> set ss \<and> extendi g p b = Some f))" for ss k m'
  have "\<exists>m'. P ss k m'" if "\<forall>(q, b) \<in> set ss. edge g x b q" for ss k
    using that
  proof (induction ss arbitrary: k)
    case Nil
    have "P [] k k" by (simp add: P_def)
    then show ?case by blast
  next
    case (Cons s ss)
    obtain q b where s: "s = (q, b)" by fastforce
    have "edge g x b q" using Cons.prems s by simp
    then obtain n where n: "extendi g p b = Some n" using ext by blast
    obtain m' where "P ss (improve q n k) m'" using Cons.IH [of "improve q n k"] Cons.prems by auto
    then have m': "each ?f ss (improve q n k) = Some m'"
      "\<And>r e. improve q n k r = Some e \<Longrightarrow> \<exists>f. m' r = Some f \<and> path_cycles e \<le> path_cycles f"
      "\<And>r. r \<notin> fst ` set ss \<Longrightarrow> m' r = improve q n k r"
      "\<And>q b. (q, b) \<in> set ss \<Longrightarrow> \<exists>n f. extendi g p b = Some n \<and> m' q = Some f \<and> path_cycles n \<le> path_cycles f"
      "\<And>r f. m' r = Some f \<Longrightarrow> improve q n k r = Some f \<or> (\<exists>b. (r, b) \<in> set ss \<and> extendi g p b = Some f)"
      unfolding P_def by blast+
    have "each ?f (s # ss) k = Some m'" using m'(1) by (simp add: s p n)
    moreover have "\<exists>f. m' r = Some f \<and> path_cycles e \<le> path_cycles f" if "k r = Some e" for r e
      using improve_ge(2) [of k r e q n] that m'(2) order_trans by blast
    moreover have "m' r = k r" if "r \<notin> fst ` set (s # ss)" for r
      using that m'(3) [of r] improve_ge(3) [of r q n k] by (simp add: s)
    moreover have "\<exists>n f. extendi g p b' = Some n \<and> m' q' = Some f \<and> path_cycles n \<le> path_cycles f"
      if "(q', b') \<in> set (s # ss)" for q' b'
    proof (cases "(q', b') = (q, b)")
      case True
      have "\<exists>f. m' q = Some f \<and> path_cycles n \<le> path_cycles f" using improve_ge(1) [of q n k] m'(2) order_trans by blast
      then show ?thesis using n True by blast
    next
      case False
      then have "(q', b') \<in> set ss" using that s by auto
      then show ?thesis by (rule m'(4))
    qed
    moreover have "k r = Some f \<or> (\<exists>b. (r, b) \<in> set (s # ss) \<and> extendi g p b = Some f)" if "m' r = Some f" for r f
      using m'(5) [OF that] improve_ge(4) [of q n k r f] n s by auto
    ultimately have "P (s # ss) k m'" unfolding P_def by blast
    then show ?case by blast
  qed
  moreover have "\<forall>(q, b) \<in> set (succs (heap g x)). edge g x b q" by auto
  ultimately obtain m' where "P (succs (heap g x)) m m'" by blast
  then have m': "each ?f (succs (heap g x)) m = Some m'"
      "\<And>r e. m r = Some e \<Longrightarrow> \<exists>f. m' r = Some f \<and> path_cycles e \<le> path_cycles f"
      "\<And>r. r \<notin> fst ` set (succs (heap g x)) \<Longrightarrow> m' r = m r"
      "\<And>q b. (q, b) \<in> set (succs (heap g x)) \<Longrightarrow> \<exists>n f. extendi g p b = Some n \<and> m' q = Some f \<and> path_cycles n \<le> path_cycles f"
      "\<And>r f. m' r = Some f \<Longrightarrow> m r = Some f \<or> (\<exists>b. (r, b) \<in> set (succs (heap g x)) \<and> extendi g p b = Some f)"
    unfolding P_def by blast+
  show thesis
  proof (rule that [OF _ m'(2)])
    show "extend_node g x m = Some m'" using m'(1) by (simp add: extend_node_def)
    show "m' r = m r" if "\<forall>b. \<not> edge g x b r" for r
    proof (rule m'(3))
      show "r \<notin> fst ` set (succs (heap g x))" using that by (auto simp: set_succs)
    qed
  qed (use m'(4,5) in auto)
qed

text \<open>Every node but the start is the target of an edge.\<close>

definition connected :: "cfg \<Rightarrow> bool" where
  "connected g \<longleftrightarrow> (\<forall>q \<in> set (nodes g). q = start_nd g \<or> (\<exists>p \<in> set (nodes g). step g p q))"

text \<open>
  After the nodes \<open>us\<close>: what is kept are paths, and the path kept for the target of an edge is not
  cheaper than the extension of the path kept for its source.
\<close>

definition best_inv :: "settings \<Rightarrow> cfg \<Rightarrow> impossible \<Rightarrow> nptr list \<Rightarrow> best \<Rightarrow> bool" where
  "best_inv cf g p0 us m \<longleftrightarrow>
     (\<forall>q e. m q = Some e \<longrightarrow> path_to cf g e q \<and> (\<exists>bs. walk g p0 bs = Some e))
     \<and> (\<exists>e. m (start_nd g) = Some e \<and> path_cycles p0 \<le> path_cycles e)
     \<and> (\<forall>x \<in> set us. \<forall>b q. edge g x b q \<longrightarrow> (\<exists>e n f. m x = Some e \<and> extendi g e b = Some n \<and> m q = Some f \<and> path_cycles n \<le> path_cycles f))"

lemma walk_snoc: "walk g p (bs @ [b]) = Option.bind (walk g p bs) (\<lambda>e. extendi g e b)"
proof (induction bs arbitrary: p)
  case (Cons c bs)
  then show ?case by (cases "extendi g p c") simp_all
qed (cases "extendi g p b"; simp)

lemma best_step:
  assumes r: "ready cf g" and n: "nodes g = us @ x # vs" and c: "connected g" and i: "best_inv cf g p0 us m"
  obtains m' where "extend_node g x m = Some m'" "best_inv cf g p0 (us @ [x]) m'"
proof -
  have xn: "x \<in> set (nodes g)" using n by simp
  have ord: "edge g y b q \<Longrightarrow> nodes g = xs @ y # ys \<Longrightarrow> q \<in> set ys" for y b q xs ys using readyD(6) [OF r, of y b q xs ys] by simp
  have d: "distinct (us @ x # vs)" using readyD(1) [OF r] n by simp
  obtain p where p: "m x = Some p"
  proof (cases "x = start_nd g")
    case True
    then show ?thesis using i that unfolding best_inv_def by blast
  next
    case False
    then obtain y b where y: "y \<in> set (nodes g)" "edge g y b x" using c xn by (auto simp: connected_def step_def)
    have "y \<notin> set (x # vs)"
    proof
      assume "y \<in> set (x # vs)"
      then obtain xs ys where "x # vs = xs @ y # ys" by (metis split_list)
      then have "x \<in> set ys" "x # vs = xs @ y # ys" using ord [OF y(2), of "us @ xs" ys] n by simp_all
      then show False using d by (cases xs) auto
    qed
    then have "y \<in> set us" using y(1) n by auto
    then show ?thesis using i y(2) that unfolding best_inv_def by blast
  qed
  have px: "path_to cf g p x" "\<exists>bs. walk g p0 bs = Some p" using i p unfolding best_inv_def by blast+
  have ext: "\<exists>n. extendi g p b = Some n" if "edge g x b q" for b q using path_to_extend [OF r px(1) that] by blast
  obtain m' where m': "extend_node g x m = Some m'"
    "\<And>r e. m r = Some e \<Longrightarrow> \<exists>f. m' r = Some f \<and> path_cycles e \<le> path_cycles f"
    "\<And>r. (\<forall>b. \<not> edge g x b r) \<Longrightarrow> m' r = m r"
    "\<And>b q. edge g x b q \<Longrightarrow> \<exists>n f. extendi g p b = Some n \<and> m' q = Some f \<and> path_cycles n \<le> path_cycles f"
    "\<And>r f. m' r = Some f \<Longrightarrow> m r = Some f \<or> (\<exists>b. edge g x b r \<and> extendi g p b = Some f)"
    by (rule extend_node_ok [where m = m and x = x and g = g and p = p]) (use p ext in blast)+
  have late: "edge g x b q \<Longrightarrow> q \<in> set vs" for b q using ord n by blast
  have keep: "m' y = m y" if "y \<in> set (us @ [x])" for y
    using m'(3) [of y] late d that by auto
  have "best_inv cf g p0 (us @ [x]) m'"
    unfolding best_inv_def
  proof (intro conjI allI impI ballI)
    fix q e assume "m' q = Some e"
    then consider "m q = Some e" | b where "edge g x b q" "extendi g p b = Some e" using m'(5) by blast
    then have "path_to cf g e q \<and> (\<exists>bs. walk g p0 bs = Some e)"
    proof cases
      case 1
      then show ?thesis using i unfolding best_inv_def by blast
    next
      case 2
      obtain bs where "walk g p0 bs = Some p" using px(2) by blast
      then have "walk g p0 (bs @ [b]) = Some e" using 2(2) by (simp add: walk_snoc)
      moreover have "path_to cf g e q" using path_to_extend [OF r px(1) 2(1)] 2(2) by (metis option.inject)
      ultimately show ?thesis by blast
    qed
    then show "path_to cf g e q" "\<exists>bs. walk g p0 bs = Some e" by blast+
  next
    obtain e where "m (start_nd g) = Some e" "path_cycles p0 \<le> path_cycles e" using i unfolding best_inv_def by blast
    then show "\<exists>e. m' (start_nd g) = Some e \<and> path_cycles p0 \<le> path_cycles e" using m'(2) order_trans by blast
  next
    fix y b q assume y: "y \<in> set (us @ [x])" "edge g y b q"
    show "\<exists>e n f. m' y = Some e \<and> extendi g e b = Some n \<and> m' q = Some f \<and> path_cycles n \<le> path_cycles f"
    proof (cases "y = x")
      case True
      then show ?thesis using keep [OF y(1)] m'(4) [of b q] y(2) p by auto
    next
      case False
      then have "y \<in> set us" using y(1) by simp
      then obtain e n f where "m y = Some e" "extendi g e b = Some n" "m q = Some f" "path_cycles n \<le> path_cycles f"
        using i y(2) unfolding best_inv_def by blast
      then show ?thesis using keep [OF y(1)] m'(2) [of q f] order_trans by metis
    qed
  qed
  then show thesis using that m'(1) by blast
qed

lemma best_loop:
  assumes r: "ready cf g" and c: "connected g" and i: "best_inv cf g p0 us m" and n: "nodes g = us @ vs"
  shows "\<exists>m'. each (extend_node g) vs m = Some m' \<and> best_inv cf g p0 (us @ vs) m'"
  using i n
proof (induction vs arbitrary: us m)
  case (Cons x vs)
  obtain m1 where "extend_node g x m = Some m1" "best_inv cf g p0 (us @ [x]) m1"
    by (rule best_step [OF r Cons.prems(2) c Cons.prems(1)])
  then show ?case using Cons.IH [of "us @ [x]" m1] Cons.prems(2) by simp
qed simp

subsection \<open>All paths\<close>

text \<open>The slack that a path has passed, at the nodes that it has left.\<close>

fun slack_sum :: "cfg \<Rightarrow> nptr \<Rightarrow> bool list \<Rightarrow> nat" where
  "slack_sum g q [] = 0"
| "slack_sum g q (b # bs) = slack_at g q + (case sd_nd (succ (heap g q) b) of Some t \<Rightarrow> slack_sum g t bs | None \<Rightarrow> 0)"

text \<open>Every path is bounded by the one that is kept, up to that slack.\<close>

lemma walk_bound:
  assumes r: "ready cf g" and i: "best_inv cf g p0 (nodes g) m"
    and e: "m q = Some e" and p: "path_to cf g p q" and le: "unat (path_cycles p) \<le> unat (path_cycles e) + k"
    and w: "walk g p bs = Some p'" and t: "sd_nd (ip_s p') = Some t"
  shows "\<exists>f. m t = Some f \<and> path_to cf g p' t \<and> unat (path_cycles p') \<le> unat (path_cycles f) + k + slack_sum g q bs"
  using e p le w
proof (induction bs arbitrary: q e p k)
  case Nil
  then have "p' = p" "t = q" using t by (auto simp: path_to_def)
  then show ?case using Nil by auto
next
  case (Cons b bs)
  obtain n where n: "extendi g p b = Some n" "walk g n bs = Some p'" using Cons.prems(4) by (auto simp: bind_eq_Some_conv)
  have q: "q \<in> set (nodes g)" "sd_nd (ip_s p) = Some q" using Cons.prems(2) by (simp_all add: path_to_def)
  have "ins g q b \<noteq> []"
    using n(1) q(2) by (auto simp: extendi_def make_impossible_def bind_eq_Some_conv ins_def split: if_splits prod.splits)
  then obtain s where s: "edge g q b s" using readyD(10) [OF r q(1)] by blast
  obtain n' where "extendi g p b = Some n'" "path_to cf g n' s"
    "unat (path_cycles n') = unat (path_cycles p) + cyc (last (sd_instructions (ip_s p))) b + base (ins g q b)"
    by (rule path_to_extend [OF r Cons.prems(2) s])
  then have np: "path_to cf g n s"
    "unat (path_cycles n) = unat (path_cycles p) + cyc (last (sd_instructions (ip_s p))) b + base (ins g q b)" using n(1) by simp_all
  obtain n2 f where f: "extendi g e b = Some n2" "m s = Some f" "path_cycles n2 \<le> path_cycles f"
    using i q(1) s Cons.prems(1) unfolding best_inv_def by fastforce
  have ep: "path_to cf g e q" using i Cons.prems(1) unfolding best_inv_def by blast
  obtain n2' where "extendi g e b = Some n2'"
    "unat (path_cycles n2') = unat (path_cycles e) + cyc (last (sd_instructions (ip_s e))) b + base (ins g q b)"
    by (rule path_to_extend [OF r ep s])
  then have "unat (path_cycles n2) = unat (path_cycles e) + cyc (last (sd_instructions (ip_s e))) b + base (ins g q b)" using f(1) by simp
  then have "unat (path_cycles n) \<le> unat (path_cycles f) + (k + slack_at g q)"
    using np(2) Cons.prems(3) path_to_slack [OF r Cons.prems(2) ep, of b] f(3) by (simp add: word_le_nat_alt)
  from Cons.IH [OF f(2) np(1) this n(2)]
  have "\<exists>f. m t = Some f \<and> path_to cf g p' t \<and> unat (path_cycles p') \<le> unat (path_cycles f) + (k + slack_at g q) + slack_sum g s bs" .
  moreover have "slack_sum g q (b # bs) = slack_at g q + slack_sum g s bs" using s by (simp add: edge_def)
  ultimately show ?case by (simp add: add.assoc)
qed

text \<open>
  The bound is computed, it is the cost of some path, and every path to the final node costs at most
  the slack that it passed more.
\<close>

lemma underestimate_correct:
  assumes r: "ready cf g" and c: "connected g" and f: "fin_nd g \<in> set (nodes g)"
  obtains m p0 where "underestimate_packetrate cf g = Some m"
    "make_impossible (start g) (MIN_PACKETSIZE cf) (initial_state cf) 1 = Some p0" "path_to cf g p0 (start_nd g)" "ip_s p0 = start g"
    "\<exists>bs p. walk g p0 bs = Some p \<and> path_to cf g p (fin_nd g) \<and> path_cycles p = m"
    "\<And>bs p. walk g p0 bs = Some p \<Longrightarrow> sd_nd (ip_s p) = Some (fin_nd g) \<Longrightarrow>
       unat (path_cycles p) \<le> unat m + slack_sum g (start_nd g) bs"
proof -
  obtain p0 where p0: "make_impossible (start g) (MIN_PACKETSIZE cf) (initial_state cf) 1 = Some p0"
    "path_to cf g p0 (start_nd g)" "ip_s p0 = start g" by (rule path_to_start [OF r]) blast
  have "walk g p0 [] = Some p0" by simp
  then have "best_inv cf g p0 [] [start_nd g \<mapsto> p0]"
    using p0(2) unfolding best_inv_def by (auto simp del: walk.simps)
  then obtain m where m: "each (extend_node g) (nodes g) [start_nd g \<mapsto> p0] = Some m" "best_inv cf g p0 (nodes g) m"
    using best_loop [OF r c, of p0 "[]" _ "nodes g"] by auto
  obtain e where e: "m (fin_nd g) = Some e"
  proof (cases "fin_nd g = start_nd g")
    case True
    then show ?thesis using m(2) that unfolding best_inv_def by auto
  next
    case False
    then obtain p b where "p \<in> set (nodes g)" "edge g p b (fin_nd g)" using c f by (auto simp: connected_def step_def)
    then show ?thesis using m(2) that unfolding best_inv_def by blast
  qed
  have u: "underestimate_packetrate cf g = Some (path_cycles e)" using p0(1) m(1) e by (simp add: underestimate_packetrate_def)
  moreover have "\<exists>bs p. walk g p0 bs = Some p \<and> path_to cf g p (fin_nd g) \<and> path_cycles p = path_cycles e"
    using m(2) e unfolding best_inv_def by blast
  moreover have "unat (path_cycles p) \<le> unat (path_cycles e) + slack_sum g (start_nd g) bs"
    if w: "walk g p0 bs = Some p" "sd_nd (ip_s p) = Some (fin_nd g)" for bs p
  proof -
    obtain s where s: "m (start_nd g) = Some s" "path_cycles p0 \<le> path_cycles s" using m(2) unfolding best_inv_def by blast
    then have "unat (path_cycles p0) \<le> unat (path_cycles s) + 0" by (simp add: word_le_nat_alt)
    from walk_bound [OF r m(2) s(1) p0(2) this w] e show ?thesis by auto
  qed
  ultimately show thesis using that p0 by blast
qed

subsection \<open>Executions\<close>

fun follow :: "cfg \<Rightarrow> nptr \<Rightarrow> bool list \<Rightarrow> nptr option" where
  "follow g q [] = Some q"
| "follow g q (b # bs) = Option.bind (sd_nd (succ (heap g q) b)) (\<lambda>s. follow g s bs)"

text \<open>The instructions of a path with their information and flags, up to the last instruction.\<close>

definition inner :: "instr_data list \<Rightarrow> (instr \<times> info \<times> bool) list" where
  "inner xs = map (\<lambda>(n, i). (n, i, False)) (butlast xs)"

fun onward :: "cfg \<Rightarrow> succ_data \<Rightarrow> bool list \<Rightarrow> (instr \<times> info \<times> bool) list" where
  "onward g s [] = []"
| "onward g s (b # bs) =
     (let (n, i) = last (sd_instructions s); t = succ (heap g (the (sd_nd s))) b
      in (n, i, b) # inner (sd_instructions t) @ onward g t bs)"

definition path_instrs :: "cfg \<Rightarrow> bool list \<Rightarrow> (instr \<times> info \<times> bool) list" where
  "path_instrs g bs = inner (sd_instructions (start g)) @ onward g (start g) bs"

lemma propagated_relaxed:
  "relax xs = Some xs \<Longrightarrow> xs \<noteq> [] \<Longrightarrow> front xs \<le> i \<Longrightarrow> propagated (handed (last xs)) rest \<Longrightarrow>
     propagated i (inner xs @ (fst (last xs), snd (last xs), b) # rest)"
proof (induction xs arbitrary: i rule: relax.induct)
  case (2 x)
  then show ?case using info_apply_handed [of x] by (cases x) (simp add: inner_def front_def)
next
  case (3 n j m k xs)
  obtain l where l: "info_apply n False j = Some l" "relax ((m, l) # xs) = Some ((m, k) # xs)"
    using 3(2) by (auto simp: bind_eq_Some_conv)
  have lk: "l = k" using relax_fst [OF l(2)] by simp
  have "propagated k (inner ((m, k) # xs) @ (fst (last ((m, k) # xs)), snd (last ((m, k) # xs)), b) # rest)"
    by (rule "3.IH" [of l k, OF l(1), simplified lk]) (use l(2) 3(5) lk in \<open>auto simp: front_def\<close>)
  then show ?case using 3(4) l(1) lk by (simp add: inner_def front_def)
qed simp

lemma propagated_prefix: "propagated i (xs @ ys) \<Longrightarrow> propagated i xs"
  by (induction i xs rule: propagated.induct) (auto split: option.splits)

lemma propagated_inner: "relax xs = Some xs \<Longrightarrow> front xs \<le> i \<Longrightarrow> propagated i (inner xs)"
proof -
  assume a: "relax xs = Some xs" "front xs \<le> i"
  then have "xs \<noteq> []" by auto
  then show ?thesis using propagated_relaxed [OF a(1) _ a(2), of "[]"] propagated_prefix by force
qed

lemma propagated_mono: "i \<le> j \<Longrightarrow> propagated i p \<Longrightarrow> propagated j p"
  by (cases p) (auto split: prod.splits intro: order_trans)

definition settled_graph :: "cfg \<Rightarrow> bool" where
  "settled_graph g \<longleftrightarrow> settled g (set (nodes g)) {(p, b). p \<in> set (nodes g) \<and> (\<exists>q. edge g p b q)}
     \<and> front (sd_instructions (start g)) = Info 0 0"

lemma settled_label:
  assumes "settled_graph g" "path_to cf g p q"
  shows "relax (sd_instructions (ip_s p)) = Some (sd_instructions (ip_s p))"
    "edge g q c s \<Longrightarrow> front (ins g q c) \<le> handed (last (sd_instructions (ip_s p)))"
proof -
  consider "q = start_nd g" "ip_s p = start g"
    | r b where "r \<in> set (nodes g)" "edge g r b q" "sd_instructions (ip_s p) = ins g r b"
    using assms(2) unfolding path_to_def ins_def by auto
  then have "relax (sd_instructions (ip_s p)) = Some (sd_instructions (ip_s p))
    \<and> (\<forall>c s. edge g q c s \<longrightarrow> front (ins g q c) \<le> handed (last (sd_instructions (ip_s p))))"
  proof cases
    case 1
    then show ?thesis using assms(1) unfolding settled_graph_def settled_def by auto
  next
    case 2
    moreover have "q \<in> set (nodes g)" using assms(2) by (simp add: path_to_def)
    ultimately show ?thesis using assms(1) unfolding settled_graph_def settled_def by fastforce
  qed
  then show "relax (sd_instructions (ip_s p)) = Some (sd_instructions (ip_s p))"
    "edge g q c s \<Longrightarrow> front (ins g q c) \<le> handed (last (sd_instructions (ip_s p)))" by blast+
qed

text \<open>A path of the graph is one of the paths that are extended, is not too long, and hands its information on.\<close>

lemma follow_walk:
  assumes r: "ready cf g" and s: "settled_graph g" and p: "path_to cf g p q" and f: "follow g q bs = Some t"
  shows "\<exists>p'. walk g p bs = Some p' \<and> path_to cf g p' t"
    "cap cf g q + 25 * length (onward g (ip_s p) bs) \<le> cap cf g t"
    "propagated (front (sd_instructions (ip_s p))) (inner (sd_instructions (ip_s p)) @ onward g (ip_s p) bs)"
proof -
  have "(\<exists>p'. walk g p bs = Some p' \<and> path_to cf g p' t) \<and> cap cf g q + 25 * length (onward g (ip_s p) bs) \<le> cap cf g t
    \<and> propagated (front (sd_instructions (ip_s p))) (inner (sd_instructions (ip_s p)) @ onward g (ip_s p) bs)"
    using p f
  proof (induction bs arbitrary: p q)
    case Nil
    then show ?case using settled_label(1) [OF s Nil(1)] propagated_inner by simp
  next
    case (Cons b bs)
    obtain u where u: "edge g q b u" "follow g u bs = Some t" using Cons.prems(2) by (auto simp: edge_def bind_eq_Some_conv)
    obtain n where n: "extendi g p b = Some n" "path_to cf g n u" "ip_s n = succ (heap g q) b"
      by (rule path_to_extend [OF r Cons.prems(1) u(1)])
    note IH = Cons.IH [OF n(2) u(2)]
    have q: "q \<in> set (nodes g)" "sd_nd (ip_s p) = Some q" using Cons.prems(1) by (simp_all add: path_to_def)
    have i: "sd_instructions (ip_s n) = ins g q b" by (simp add: n(3) ins_def)
    let ?l = "last (sd_instructions (ip_s p))"
    have on: "onward g (ip_s p) (b # bs) = (fst ?l, snd ?l, b) # inner (ins g q b) @ onward g (ip_s n) bs"
      using q(2) by (simp add: case_prod_beta Let_def n(3) ins_def)
    have "length (ins g q b) = length (instrs (heap g u))" using readyD(5) [OF r q(1) u(1)] by (metis length_map)
    moreover have "length (onward g (ip_s p) (b # bs)) = 1 + (length (ins g q b) - 1) + length (onward g (ip_s n) bs)"
      unfolding on by (simp add: inner_def)
    ultimately have "cap cf g q + 25 * length (onward g (ip_s p) (b # bs)) \<le> cap cf g t"
      using IH cap_edge(1) [OF r q(1) u(1)] by linarith
    moreover have "propagated (handed ?l) (inner (ins g q b) @ onward g (ip_s n) bs)"
      using IH propagated_mono [OF settled_label(2) [OF s Cons.prems(1) u(1)]] by (simp add: i)
    then have "propagated (front (sd_instructions (ip_s p))) (inner (sd_instructions (ip_s p)) @ onward g (ip_s p) (b # bs))"
      unfolding on using settled_label(1) [OF s Cons.prems(1)] by (intro propagated_relaxed) auto
    ultimately show ?case using IH n(1) by simp
  qed
  then show "\<exists>p'. walk g p bs = Some p' \<and> path_to cf g p' t" "cap cf g q + 25 * length (onward g (ip_s p) bs) \<le> cap cf g t"
    "propagated (front (sd_instructions (ip_s p))) (inner (sd_instructions (ip_s p)) @ onward g (ip_s p) bs)" by blast+
qed

text \<open>The sum of an execution along a path is that of the path.\<close>

definition word_cost :: "(instr \<times> info \<times> bool) list \<Rightarrow> u32" where
  "word_cost xs = sum_list (map (\<lambda>(n, i, b). the (perf_cycles n i b)) xs)"

lemma tick_path_cost:
  "\<forall>(n, i, b) \<in> set xs. dram_cycles n \<noteq> None \<Longrightarrow> \<exists>t. tick_path xs s = Some t \<and> summaxcycles t = summaxcycles s + word_cost xs"
proof (induction xs arbitrary: s)
  case (Cons x xs)
  obtain n i b where x: "x = (n, i, b)" by (cases x)
  obtain r where "dram_cycles n = Some r" using Cons.prems x by auto
  moreover obtain c d where "perf_cycles n i b = Some c"
      "perf_cycles n (Info (sumcycles s - lastcc s) (sumcycles s - lastmem s)) b = Some d"
    using perf_cycles_total by metis
  ultimately have "\<exists>t. tick n i b s = Some t \<and> summaxcycles t = summaxcycles s + the (perf_cycles n i b)"
    by (simp add: tick_def Let_def)
  then obtain t where t: "tick n i b s = Some t" "summaxcycles t = summaxcycles s + the (perf_cycles n i b)" by blast
  then show ?case using Cons.IH [of t] Cons.prems by (auto simp: x word_cost_def add.assoc)
qed (simp add: word_cost_def)

lemma each_perf_cost:
  "each (\<lambda>(n, i). perf_apply n i False) xs s = Some t \<Longrightarrow>
     summaxcycles t = summaxcycles s + word_cost (map (\<lambda>(n, i). (n, i, False)) xs) \<and> (\<forall>x \<in> set xs. dram_cycles (fst x) \<noteq> None)"
  by (induction xs arbitrary: s) (fastforce simp: word_cost_def perf_apply_def bind_eq_Some_conv add.assoc)+

lemma make_impossible_cost:
  "make_impossible s m st c = Some p \<Longrightarrow> path_cycles p = summaxcycles st + word_cost (inner (sd_instructions s))
     \<and> (\<forall>(n, i, b) \<in> set (inner (sd_instructions s)). dram_cycles n \<noteq> None) \<and> ip_s p = s"
  using each_perf_cost [of "butlast (sd_instructions s)" st]
  by (fastforce simp: make_impossible_def path_cycles_def inner_def split: if_splits)

lemma word_cost_append: "word_cost (xs @ ys) = word_cost xs + word_cost ys"
  by (simp add: word_cost_def)

lemma walk_cost:
  "walk g p bs = Some p' \<Longrightarrow> path_cycles p' = path_cycles p + word_cost (onward g (ip_s p) bs)
     \<and> (\<forall>(n, i, b) \<in> set (onward g (ip_s p) bs). dram_cycles n \<noteq> None)"
proof (induction bs arbitrary: p)
  case (Cons b bs)
  obtain n where n: "extendi g p b = Some n" "walk g n bs = Some p'" using Cons.prems by (auto simp: bind_eq_Some_conv)
  let ?l = "last (sd_instructions (ip_s p))"
  obtain st q where st: "perf_apply (fst ?l) (snd ?l) b (ip_state p) = Some st" "sd_nd (ip_s p) = Some q"
     "make_impossible (succ (heap g q) b) (ip_min p) st (ip_count p) = Some n"
    using n(1) by (auto simp: extendi_def case_prod_beta bind_eq_Some_conv)
  have "summaxcycles st = path_cycles p + the (perf_cycles (fst ?l) (snd ?l) b)" "dram_cycles (fst ?l) \<noteq> None"
    using st(1) by (auto simp: perf_apply_def path_cycles_def bind_eq_Some_conv)
  then show ?case using make_impossible_cost [OF st(3)] Cons.IH [OF n(2)] st(2)
    by (auto simp: case_prod_beta Let_def word_cost_append) (auto simp: word_cost_def algebra_simps)
qed (simp add: word_cost_def)

subsection \<open>The bound of a graph without loops\<close>

definition loop_free :: "cfg \<Rightarrow> bool" where
  "loop_free g \<longleftrightarrow> graph_ok g \<and> unlabelled g \<and> sd_nd (start g) \<noteq> None \<and> preds (heap g (start_nd g)) = []
     \<and> fin_nd g \<in> set (nodes g) \<and> (\<forall>q \<in> set (nodes g). reach g (start_nd g) q) \<and> (\<forall>p \<in> set (nodes g). \<not> (step g)\<^sup>+\<^sup>+ p p)"

text \<open>Every instruction has a number of DRAM cycles, and all of them together do not overflow.\<close>

definition affordable :: "settings \<Rightarrow> cfg \<Rightarrow> bool" where
  "affordable cf g \<longleftrightarrow> (\<forall>p \<in> set (nodes g). \<forall>n \<in> set (instrs (heap g p)). dram_cycles n \<noteq> None)
     \<and> unat (COST_FIRMWARE cf) + 25 * (\<Sum>p \<in> set (nodes g). length (instrs (heap g p))) < 2 ^ 32"

lemma loop_free_connected:
  assumes "loop_free g" "q \<in> set (nodes g)" "q \<noteq> start_nd g"
  shows "\<exists>p \<in> set (nodes g). step g p q"
proof -
  have g: "graph_ok g" "reach g (start_nd g) q" using assms(1,2) by (auto simp: loop_free_def)
  from g(2) obtain p where "reach g (start_nd g) p" "step g p q" using assms(3) by (metis rtranclp.cases)
  moreover from this have "p \<in> set (nodes g)" using reach_closed graph_okD(3,4) [OF g(1)] by metis
  ultimately show ?thesis by blast
qed

lemma overestimate_ready:
  assumes "loop_free g" "affordable cf g"
  obtains h where "overestimate_cycles g = Some h" "ready cf h" "connected h" "settled_graph h" "fin_nd h \<in> set (nodes h)"
    "edge h = edge g" "fin_nd h = fin_nd g" "start_nd h = start_nd g"
    "\<And>p. instrs (heap h p) = instrs (heap g p)" "\<And>p. preds (heap h p) = preds (heap g p)" "set (nodes h) = set (nodes g)"
proof -
  have g: "graph_ok g" "unlabelled g" "sd_nd (start g) \<noteq> None" "preds (heap g (start_nd g)) = []" "fin_nd g \<in> set (nodes g)"
    "\<And>q. q \<in> set (nodes g) \<Longrightarrow> reach g (start_nd g) q" "\<forall>p \<in> set (nodes g). \<not> (step g)\<^sup>+\<^sup>+ p p"
    using assms(1) unfolding loop_free_def by blast+
  have con: "\<forall>q \<in> set (nodes g). q \<noteq> start_nd g \<longrightarrow> (\<exists>p \<in> set (nodes g). step g p q)"
    using loop_free_connected [OF assms(1)] by blast
  have "topo_sort g \<noteq> Some (Inl Not_loop_free)" using topo_sort_error [OF g(1,4,6)] g(7) by blast
  then obtain gt where gt: "topo_sort g = Some (Inr gt)"
    using topo_sort_ends [OF g(1)] by (metis sumE topo_error.exhaust)
  obtain h out rest where h: "overestimate_cycles g = Some h" "nodes h = nodes gt" "nodes gt = out @ rest"
    "edge h = edge g" "fin_nd h = fin_nd g" "start_nd h = start_nd g" "annotated g h (set out)"
    "distinct (out @ rest)" "set (out @ rest) = set (nodes g)" "sorted_nodes g out rest"
    and "(\<forall>q \<in> set (nodes g). q \<noteq> start_nd g \<longrightarrow> (\<exists>p \<in> set (nodes g). step g p q)) \<longrightarrow>
       (\<forall>p \<in> set (nodes g). \<not> (step g)\<^sup>+\<^sup>+ p p) \<longrightarrow> rest = []"
    by (rule overestimate_correct [OF g(1,4,2) gt])
  then have rest: "rest = []" using con g(7) by blast
  have ns: "nodes h = out" "set out = set (nodes g)" "distinct out" using h(2,3,8,9) rest by simp_all
  have a: "settled h (set out) {(p, b). p \<in> set (nodes g) \<and> (\<exists>q. edge g p b q)}"
    "map fst (sd_instructions (start h)) = instrs (heap g (start_nd g))" "front (sd_instructions (start h)) = Info 0 0"
    "\<And>p b q. p \<in> set (nodes g) \<Longrightarrow> edge g p b q \<Longrightarrow> map fst (ins h p b) = instrs (heap g q)"
    "\<And>p b. (\<forall>q. \<not> edge g p b q) \<Longrightarrow> ins h p b = []"
    "\<And>p. instrs (heap h p) = instrs (heap g p)" "\<And>p. preds (heap h p) = preds (heap g p)" "sd_nd (start h) = sd_nd (start g)"
    using h(7) by (simp_all add: annotated_def)
  have ok: "graph_ok h"
    using g(1) ns unfolding graph_ok_def mirrored_def h(4,6) a(7) by simp
  have later: "q \<in> set ys" if "p \<in> set out" "edge g p b q" "out = xs @ p # ys" for p b q xs ys
  proof -
    have "q \<in> set out" using graph_okD(4) [OF g(1), of p q] that(1,2) ns(2) by (auto simp: step_def)
    moreover have "out @ rest = xs @ p # ys" using that(3) rest by simp
    ultimately show ?thesis using h(10) that(1,2) unfolding sorted_nodes_def by blast
  qed
  have "sum_list (map (\<lambda>p. length (instrs (heap h p))) out) = (\<Sum>p \<in> set (nodes g). length (instrs (heap g p)))"
    using sum_list_distinct_conv_sum_set [OF ns(3)] ns(2) by (simp add: a(6))
  moreover have "sd_nd (start h) = Some (start_nd h)" using g(3) h(6) by (auto simp: a(8) start_nd_def)
  ultimately have rdy: "ready cf h"
    unfolding ready_def h(4) a(6,7) ns(1,2)
    apply (intro conjI ballI allI impI)
    subgoal by (rule ok)
    subgoal using g(4) h(6) by simp
    subgoal by assumption
    subgoal using a(2) h(6) by simp
    subgoal by (rule a(4))
    subgoal by (rule later) (use ns(2) in auto)
    subgoal by (rule a(5)) simp
    subgoal using g(2) by (simp add: unlabelled_def)
    subgoal using assms(2) unfolding affordable_def by blast
    subgoal using assms(2) unfolding affordable_def by simp
    done
  have "connected h" using con unfolding connected_def step_def h(4,6) ns by blast
  moreover have "settled_graph h" using a(1,3) ns by (simp add: settled_graph_def h(4))
  moreover have "fin_nd h \<in> set (nodes h)" using g(5) ns by (simp add: h(5))
  moreover have "set (nodes h) = set (nodes g)" using ns by simp
  ultimately show thesis by (intro that [OF h(1) rdy _ _ _ h(4,5,6) a(6,7)])
qed

lemma sd_nd_edge: "edge h = edge g \<Longrightarrow> sd_nd (succ (heap h p) b) = sd_nd (succ (heap g p) b)"
  by (rule option_eqI) (simp add: edge_def fun_eq_iff)

lemma follow_cong: "edge h = edge g \<Longrightarrow> follow h q bs = follow g q bs"
proof (induction bs arbitrary: q)
  case (Cons b bs)
  then show ?case using sd_nd_edge [OF Cons.prems, of q b] by (cases "sd_nd (succ (heap g q) b)") simp_all
qed simp

lemma slack_sum_cong:
  assumes "edge h = edge g" "\<And>p. instrs (heap h p) = instrs (heap g p)" "\<And>p. preds (heap h p) = preds (heap g p)"
  shows "slack_sum h q bs = slack_sum g q bs"
  by (induction bs arbitrary: q) (simp_all add: sd_nd_edge [OF assms(1)] slack_at_def indegree_def assms(2,3) split: option.split)

lemma onward_follow:
  assumes "walk g p bs = Some p'" "sd_nd (ip_s p) = Some q" "sd_nd (ip_s p') = Some t"
  shows "follow g q bs = Some t"
  using assms
proof (induction bs arbitrary: p q)
  case (Cons b bs)
  obtain n where n: "extendi g p b = Some n" "walk g n bs = Some p'" using Cons.prems(1) by (auto simp: bind_eq_Some_conv)
  then have s: "ip_s n = succ (heap g q) b"
    using Cons.prems(2) by (auto simp: extendi_def make_impossible_def bind_eq_Some_conv split: prod.splits if_splits)
  have "sd_nd (succ (heap g q) b) \<noteq> None"
  proof
    assume none: "sd_nd (succ (heap g q) b) = None"
    show False
    proof (cases bs)
      case Nil
      then show ?thesis using n(2) Cons.prems(3) s none by simp
    next
      case (Cons c cs)
      then show ?thesis using n(2) s none by (auto simp: extendi_def bind_eq_Some_conv split: prod.splits)
    qed
  qed
  then obtain u where "sd_nd (succ (heap g q) b) = Some u" by blast
  then show ?case using Cons.IH [OF n(2) _ Cons.prems(3), of u] s by simp
qed simp

text \<open>
  Every execution along a path to the final node needs at most the bound and the slack that the path
  passed; the bound is the estimate of one of the paths.
\<close>

lemma bound_correct:
  assumes "loop_free g" "affordable cf g"
  shows "\<exists>h m. overestimate_cycles g = Some h \<and> underestimate_packetrate cf h = Some m
    \<and> (\<forall>bs. follow g (start_nd g) bs = Some (fin_nd g) \<longrightarrow>
         (\<exists>s. tick_path (path_instrs h bs) (initial_state cf) = Some s \<and> sumcycles s \<le> summaxcycles s
            \<and> unat (summaxcycles s) \<le> unat m + slack_sum g (start_nd g) bs))
    \<and> (\<exists>bs s. follow g (start_nd g) bs = Some (fin_nd g) \<and> tick_path (path_instrs h bs) (initial_state cf) = Some s \<and> summaxcycles s = m)"
proof -
  obtain h where h: "overestimate_cycles g = Some h" and r: "ready cf h" and c: "connected h" and s: "settled_graph h"
    and f: "fin_nd h \<in> set (nodes h)" and e: "edge h = edge g" "fin_nd h = fin_nd g" "start_nd h = start_nd g"
      "\<And>p. instrs (heap h p) = instrs (heap g p)" "\<And>p. preds (heap h p) = preds (heap g p)"
    by (rule overestimate_ready [OF assms]) blast
  obtain m p0 where m: "underestimate_packetrate cf h = Some m"
    and p0: "make_impossible (start h) (MIN_PACKETSIZE cf) (initial_state cf) 1 = Some p0" "path_to cf h p0 (start_nd h)" "ip_s p0 = start h"
    and att: "\<exists>bs p. walk h p0 bs = Some p \<and> path_to cf h p (fin_nd h) \<and> path_cycles p = m"
    and le: "\<And>bs p. walk h p0 bs = Some p \<Longrightarrow> sd_nd (ip_s p) = Some (fin_nd h) \<Longrightarrow>
       unat (path_cycles p) \<le> unat m + slack_sum h (start_nd h) bs"
    by (rule underestimate_correct [OF r c f]) blast
  have init: "summaxcycles (initial_state cf) = COST_FIRMWARE cf" "covers (Info 0 0) (initial_state cf)"
    by (simp_all add: initial_state_def Let_def covers_make_exec) (simp add: make_exec_def)
  note mc = make_impossible_cost [OF p0(1)]
  have exec: "\<exists>s. tick_path (path_instrs h bs) (initial_state cf) = Some s \<and> summaxcycles s = path_cycles p"
    if w: "walk h p0 bs = Some p" for bs p
  proof -
    note wc = walk_cost [OF w]
    have "\<forall>(n, i, b) \<in> set (path_instrs h bs). dram_cycles n \<noteq> None" using mc wc by (auto simp: path_instrs_def p0(3))
    from tick_path_cost [OF this, of "initial_state cf"] show ?thesis
      using mc wc by (simp add: path_instrs_def p0(3) word_cost_append add.assoc)
  qed
  have all: "\<exists>s. tick_path (path_instrs h bs) (initial_state cf) = Some s \<and> sumcycles s \<le> summaxcycles s
      \<and> unat (summaxcycles s) \<le> unat m + slack_sum g (start_nd g) bs"
    if fo: "follow g (start_nd g) bs = Some (fin_nd g)" for bs
  proof -
    have "follow h (start_nd h) bs = Some (fin_nd h)" using fo by (simp add: e follow_cong [OF e(1)])
    note fw = follow_walk [OF r s p0(2) this, unfolded p0(3)]
    obtain p where p: "walk h p0 bs = Some p" "path_to cf h p (fin_nd h)" using fw(1) by blast
    obtain t where t: "tick_path (path_instrs h bs) (initial_state cf) = Some t" "summaxcycles t = path_cycles p" using exec [OF p(1)] by blast
    have "length (sd_instructions (start h)) = length (instrs (heap h (start_nd h)))" using readyD(4) [OF r] by (metis length_map)
    then have "unat (COST_FIRMWARE cf) + 25 * length (path_instrs h bs) \<le> cap cf h (fin_nd h)"
      using fw(2) by (simp add: path_instrs_def inner_def cap_def)
    then have "unat (summaxcycles (initial_state cf)) + 25 * length (path_instrs h bs) < 2 ^ 32"
      using cap_total [OF r f] readyD(9) [OF r] by (simp add: init(1))
    moreover have "propagated (Info 0 0) (path_instrs h bs)" using fw(3) s by (simp add: path_instrs_def settled_graph_def)
    ultimately have "sumcycles t \<le> summaxcycles t" using tick_path_covers [OF init(2) _ t(1)] by blast
    moreover have "sd_nd (ip_s p) = Some (fin_nd h)" using p(2) by (simp add: path_to_def)
    ultimately show ?thesis using le [OF p(1)] t slack_sum_cong [OF e(1,4,5)] by (simp add: e(3))
  qed
  obtain bs p where "walk h p0 bs = Some p" "path_to cf h p (fin_nd h)" "path_cycles p = m" using att by blast
  moreover from this have "follow h (start_nd h) bs = Some (fin_nd h)"
    using onward_follow [of h p0 bs p] p0(2) by (simp add: path_to_def)
  ultimately have "follow g (start_nd g) bs = Some (fin_nd g)"
      "\<exists>s. tick_path (path_instrs h bs) (initial_state cf) = Some s \<and> summaxcycles s = m"
    using exec by (auto simp: e follow_cong [OF e(1)])
  then show ?thesis using h m all by blast
qed

end
