(* ===== verification/Listing.thy ===== *)
theory Listing
  imports Build Bound
begin

text \<open>
  From the listing to the bound: the graph that \<open>build_cfg\<close> builds is one that the propagation and the
  bound are right for, and its paths are the runs of the program.
\<close>

subsection \<open>A graph without annotations\<close>

definition blank_node :: "node \<Rightarrow> bool" where
  "blank_node n \<longleftrightarrow> sd_instructions (successor_true n) = [] \<and> sd_instructions (successor_false n) = []"

definition blank :: "cfg \<Rightarrow> bool" where
  "blank g \<longleftrightarrow> (\<forall>p. blank_node (heap g p)) \<and> sd_instructions (start g) = []"

lemma blank_node_simps [simp]:
  "blank_node n \<Longrightarrow> blank_node (set_succ b (succ_data_of cf q) n)" "blank_node (drop_pred p b n) \<longleftrightarrow> blank_node n"
  "blank_node (n\<lparr>preds := ps\<rparr>) \<longleftrightarrow> blank_node n" "blank_node (n\<lparr>instrs := ns\<rparr>) \<longleftrightarrow> blank_node n" "blank_node (new_node cf ns)"
  by (simp_all add: blank_node_def succ_def set_succ_def succ_data_of_def drop_pred_def new_node_def)

lemma blank_upd [simp]: "blank g \<Longrightarrow> blank_node (f (heap g p)) \<Longrightarrow> blank (upd p f g)"
  by (simp add: blank_def upd_def)

lemma blank_nodes [simp]: "blank (g\<lparr>nodes := ns\<rparr>) \<longleftrightarrow> blank g" "blank (g\<lparr>start := (start g)\<lparr>sd_nd := s\<rparr>\<rparr>) \<longleftrightarrow> blank g"
  by (simp_all add: blank_def)

lemma blank_heap: "blank g \<Longrightarrow> blank_node (heap g p)"
  by (simp add: blank_def)

lemma blank_link [simp]: "blank g \<Longrightarrow> blank (link cf p q b g)" "blank g \<Longrightarrow> blank (unlink_succ cf p b g)"
  by (auto simp: link_def unlink_succ_def blank_heap split: option.split)

lemma blank_unlink: "blank g \<Longrightarrow> blank (unlink cf p g)"
proof -
  assume b: "blank g"
  have "blank g \<Longrightarrow> blank (fold (\<lambda>(q, b). upd q (set_succ b (succ_data_of cf None))) ps g)" for ps g
    by (induction ps arbitrary: g) (auto simp: blank_heap)
  then show ?thesis using b by (simp add: unlink_def Let_def blank_heap)
qed

lemma compact_keeps:
  assumes "\<forall>p g. P g \<longrightarrow> P (rm p g)" "\<forall>g ns. P g \<longrightarrow> P (g\<lparr>nodes := ns\<rparr>)" "P g"
  shows "P (compact keep rm i g)"
  using assms
proof (induction keep rm i g rule: compact.induct)
  case (1 keep rm i g)
  then show ?case by (subst compact.simps) (auto simp: Let_def)
qed

lemma blank_merge_node: "merge_node p q g = Some h \<Longrightarrow> blank g \<Longrightarrow> blank h"
proof -
  have r: "blank g \<Longrightarrow> blank (replace_pred p q b g)" for b g
    by (auto simp: replace_pred_def blank_heap split: option.split)
  assume "merge_node p q g = Some h" "blank g"
  then show ?thesis
    by (auto simp: merge_node_def Let_def blank_heap split: if_splits intro!: r)
       (auto simp: blank_def blank_node_def split: if_splits)
qed

lemma blank_create_all: "create_all cf m ps g = Some h \<Longrightarrow> blank g \<Longrightarrow> blank h"
proof (induction ps arbitrary: g)
  case (Cons p ps)
  have "blank g'" if "create_edges cf m p g = Some g'" for g'
    using that Cons.prems(2)
    by (auto simp: create_edges_def Let_def link_nodes_def split: instr_type.splits if_splits)
  then show ?case using Cons by (auto simp: bind_eq_Some_conv)
qed simp

lemma blank_edges_graph: "edges_graph cf ns = Some g \<Longrightarrow> blank g \<and> sd_nd (start g) \<noteq> None"
proof -
  assume "edges_graph cf ns = Some g"
  then obtain g0 m s where g0: "init_nodes cf ns = Some g0" and s: "address_map g0 (nodes g0) Map.empty = Some m"
    and c: "create_all cf m (nodes g0) (g0\<lparr>start := (start g0)\<lparr>sd_nd := Some s\<rparr>\<rparr>) = Some g"
    by (auto simp: edges_graph_def bind_eq_Some_conv)
  have "blank g0" using g0 by (auto simp: init_nodes_def blank_def succ_data_of_def split: if_splits)
  then have "blank g" using blank_create_all [OF c] by simp
  moreover have "start h = start g" if "create_all cf m ps g = Some h" for ps g h
    using that
    by (induction ps arbitrary: g)
       (auto simp: bind_eq_Some_conv create_edges_def Let_def split: instr_type.splits if_splits)
  then have "sd_nd (start g) \<noteq> None" using c by force
  ultimately show ?thesis by simp
qed

subsection \<open>The graph that is built\<close>

text \<open>Every node is reached, and the final node, if it is left, is the only one without an edge.\<close>

definition built :: "cfg \<Rightarrow> nptr set \<Rightarrow> bool" where
  "built g A \<longleftrightarrow> blank g \<and> sd_nd (start g) \<noteq> None \<and> start_nd g \<in> A \<and> (\<forall>q \<in> A. reach g (start_nd g) q)
     \<and> (fin_nd g \<in> A \<longrightarrow> instrs (heap g (fin_nd g)) = [fin] \<and> (\<forall>p \<in> A. outdegree (heap g p) = 0 \<longleftrightarrow> p = fin_nd g))"

lemma merge_node_reach:
  assumes "merge_node p q g = Some h" "mirrored g A" "chain g p q" "p \<in> A" "q \<in> A" "s \<in> A" "s \<noteq> q" "reach g s r"
  shows "if r = q then reach h s p else reach h s r"
  using assms(8)
proof (induction rule: rtranclp_induct)
  case base
  then show ?case using assms(7) by simp
next
  case (step r t)
  note ms = merge_node_Some [OF assms(1)] and c = assms(3) [unfolded chain_def]
  have r: "r \<in> A" using reach_closed [of g s r A] step.hyps(1) assms(6) mirroredD(3) [OF assms(2)] unfolding step_def by blast
  obtain b where e: "edge g r b t" using step.hyps(2) by (auto simp: step_def)
  have q: "r = p" if "edge g r b q" using mirroredD(2) [OF assms(2,5), of r b] c r that by simp
  show ?case
  proof (cases "t = q")
    case True
    then have "r = p" using q e by blast
    then show ?thesis using step.IH True c by (metis (full_types))
  next
    case False
    have "edge h (if r = q then p else r) b t"
    proof (cases "r = q")
      case True
      then show ?thesis using e by (simp add: ms(6))
    next
      case rq: False
      have "r \<noteq> p" using e c False edge_unique [of g p False q t] by (cases b) auto
      then show ?thesis using e rq by (simp add: ms(6))
    qed
    then have "step h (if r = q then p else r) t" by (auto simp: step_def)
    moreover have "reach h s (if r = q then p else r)" using step.IH by (cases "r = q") simp_all
    ultimately show ?thesis using False by (simp add: rtranclp.rtrancl_into_rtrancl)
  qed
qed

lemma built_kept: "kept_by_merge built"
  unfolding kept_by_merge_def
proof (intro conjI allI impI)
  fix g A p q h
  assume a: "built g A" "mirrored g A" "chain g p q" "p \<in> A" "q \<in> A" "start_nd g \<noteq> q" "merge_node p q g = Some h"
  note ms = merge_node_Some [OF a(7)] and b = a(1) [unfolded built_def] and c = a(3) [unfolded chain_def]
  have s: "start_nd h = start_nd g" by (simp add: start_nd_def ms(3))
  have "reach h (start_nd h) r" if "r \<in> A - {q}" for r
    using merge_node_reach [OF a(7,2-5), of "start_nd g" r] that b a(6) by (simp add: s)
  moreover have "blank h" using blank_merge_node [OF a(7)] b by blast
  moreover have "instrs (heap h (fin_nd h)) = [fin] \<and> (\<forall>r \<in> A - {q}. outdegree (heap h r) = 0 \<longleftrightarrow> r = fin_nd h)"
    if f: "fin_nd h \<in> A - {q}"
  proof -
    have b': "instrs (heap g (fin_nd g)) = [fin]" "\<And>r. r \<in> A \<Longrightarrow> outdegree (heap g r) = 0 \<longleftrightarrow> r = fin_nd g"
      using b f by (auto simp: ms(4))
    have o: "outdegree (heap h r) = 0 \<longleftrightarrow> outdegree (heap g (if r = p then q else r)) = 0" for r
      unfolding outdegree_0 ms(6) ..
    have "p \<noteq> fin_nd g" using b'(2) [OF a(4)] c by (auto simp: outdegree_0)
    moreover have "fin_nd g \<noteq> q" using f by (auto simp: ms(4))
    ultimately show ?thesis using b' a(4,5) f by (auto simp: ms(4,7) o)
  qed
  ultimately show "built h (A - {q})" using b a(6) by (simp add: built_def s ms(3))
next
  fix g A ns
  have "step (g\<lparr>nodes := ns\<rparr>) = step g" by (simp add: fun_eq_iff step_def edge_def)
  then show "built g A \<Longrightarrow> built (g\<lparr>nodes := ns\<rparr>) A" by (simp add: built_def start_nd_def)
qed


lemma built_start:
  assumes "edges_graph cf ns = Some g" "remove_unreachable cf g = Some h"
  shows "built h (set (nodes h))"
proof -
  note e = edges_graph_run [OF assms(1)] and bl = blank_edges_graph [OF assms(1)]
  obtain h' where h': "remove_unreachable cf g = Some h'" "graph_ok h'" "set (nodes h') = {p. reach g (start_nd g) p}"
    "\<And>p b q. p \<in> set (nodes h') \<Longrightarrow> edge h' p b q \<longleftrightarrow> edge g p b q"
    "\<And>p. instrs (heap h' p) = instrs (heap g p)" "start h' = start g" "fin_nd h' = fin_nd g"
    by (rule remove_unreachable_correct [OF e(1), of cf]) blast
  have "h' = h" using h'(1) assms(2) by simp
  note h = h'(2-) [unfolded \<open>h' = h\<close>]
  have "blank h"
    using assms(2) bl compact_keeps [of blank "unlink cf"] by (auto simp: remove_unreachable_def bind_eq_Some_conv blank_unlink)
  moreover have "reach h (start_nd g) q" if "reach g (start_nd g) q" for q
    using that
  proof (induction rule: rtranclp_induct)
    case (step r t)
    then have "step h r t" using h(2) by (auto simp: step_def h(3))
    then show ?case using step.IH by (rule rtranclp.rtrancl_into_rtrancl [rotated])
  qed simp
  moreover have "outdegree (heap h p) = 0 \<longleftrightarrow> p = fin_nd g" if p: "p \<in> set (nodes h)" for p
  proof -
    have "p \<le> length ns"
      using p reach_closed [of g "start_nd g" p "set (nodes g)"] graph_okD(3,4) [OF e(1)] by (auto simp: h(2) e(4))
    moreover have "itype n \<noteq> FIN" if "n \<in> set ns" for n
      using that edges_graph_None [of cf ns] assms(1) by (simp add: listing_ok_def)
    ultimately have "itype (inst_at ns p) = FIN \<longleftrightarrow> p = length ns"
      by (auto simp: inst_at_def) (auto simp: fin_def itype_def)
    moreover have "outdegree (heap h p) = 0 \<longleftrightarrow> (\<forall>c. next_of (inst_at ns p) c = None)"
      using e(8) [OF \<open>p \<le> length ns\<close>] h(3) [OF p] by (auto simp: outdegree_0)
    ultimately show ?thesis by (simp add: next_of_FIN e(3)) (metis (full_types))
  qed
  moreover have "start_nd h = start_nd g" by (simp add: start_nd_def h(5))
  moreover have "instrs (heap h (fin_nd g)) = [fin]" by (simp add: h(4) e(3,5) inst_at_def)
  ultimately show ?thesis using bl h(2) graph_okD(3) [OF h(1)] by (auto simp: built_def h(5,6))
qed

lemma build_cfg_built:
  assumes "UNROLL_LIMIT cf = 0" "UNROLL_LIMITS cf = []" "build_cfg cf ns = Some g"
  shows "built g (set (nodes g))"
proof -
  obtain e h where e: "edges_graph cf ns = Some e" and h: "remove_unreachable cf e = Some h" and g: "merge_edges h = Some g"
    using assms by (auto simp: build_cfg_edges_graph bind_eq_Some_conv)
  note r = edges_graph_run [OF e]
  obtain h' where h': "remove_unreachable cf e = Some h'" "graph_ok h'" "set (nodes h') = {p. reach e (start_nd e) p}"
    "\<And>p b q. p \<in> set (nodes h') \<Longrightarrow> edge h' p b q \<longleftrightarrow> edge e p b q"
    "\<And>p. instrs (heap h' p) = instrs (heap e p)" "start h' = start e"
    by (rule remove_unreachable_correct [OF r(1), of cf]) blast
  have "h' = h" using h'(1) h by simp
  note h' = h'(2-) [unfolded \<open>h' = h\<close>]
  have "set (nodes h) \<subseteq> set (nodes e)"
    using reach_closed [of e "start_nd e" _ "set (nodes e)"] graph_okD(3,4) [OF r(1)] unfolding h'(2) by blast
  then have "forward h (set (nodes h))"
    using edges_graph_forward [OF e] h'(3,4) by (auto simp: forward_def exit_type_def node_id_def)
  moreover have "node_id (heap h (start_nd h)) = 0" using r(6) h'(4,5) by (simp add: node_id_def start_nd_def)
  ultimately obtain k where "built k (set (nodes k))" "merge_edges h = Some k"
    using merge_edges_correct [OF h'(1) _ _ built_kept built_start [OF e h]] by metis
  then show ?thesis using g by simp
qed

lemma build_cfg_loop_free:
  assumes off: "UNROLL_LIMIT cf = 0" "UNROLL_LIMITS cf = []" and g: "build_cfg cf ns = Some g"
    and f: "fin_nd g \<in> set (nodes g)" and l: "\<forall>p \<in> set (nodes g). \<not> (step g)\<^sup>+\<^sup>+ p p"
  shows "loop_free g"
proof -
  have ok: "graph_ok g" "forward g (set (nodes g))" using build_cfg_loops(2) [OF off g] by blast+
  note b = build_cfg_built [OF off g, unfolded built_def]
  note s = graph_okD(3) [OF ok(1)]
  have "preds (heap g (start_nd g)) = []"
  proof (rule ccontr)
    assume "preds (heap g (start_nd g)) \<noteq> []"
    then obtain p c where "(p, c) \<in> set (preds (heap g (start_nd g)))" by (cases "preds (heap g (start_nd g))") auto
    then have e: "p \<in> set (nodes g)" "step g p (start_nd g)"
      using mirroredD(2) [of g "set (nodes g)" "start_nd g" p c] ok(1) s by (auto simp: graph_ok_def step_def)
    then have "reach g (start_nd g) p" using b by blast
    then have "(step g)\<^sup>+\<^sup>+ (start_nd g) (start_nd g)" using e(2) by (rule rtranclp_into_tranclp1)
    then show False using l s by blast
  qed
  moreover have "unlabelled g" using b ok(2) by (auto simp: unlabelled_def blank_def ins_def blank_node_def succ_def forward_def)
  ultimately show ?thesis using b ok(1) f l by (simp add: loop_free_def)
qed


subsection \<open>Runs are paths\<close>

definition strip :: "(instr \<times> info \<times> bool) list \<Rightarrow> (instr \<times> bool) list" where
  "strip xs = map (\<lambda>(n, i, b). (n, b)) xs"

lemma strip_inner: "strip (inner xs) = straight (butlast (map fst xs))"
  by (simp add: strip_def inner_def straight_def map_butlast case_prod_beta comp_def)

lemma strip_append [simp]: "strip [] = []" "strip ((n, i, b) # xs) = (n, b) # strip xs" "strip (xs @ ys) = strip xs @ strip ys"
  by (simp_all add: strip_def)

lemma graph_run_onward:
  assumes e: "\<forall>p \<in> N. \<forall>b q. edge h p b q \<longrightarrow> q \<in> N \<and> map fst (ins h p b) = instrs (heap h q)"
    and ne: "\<forall>p \<in> N. instrs (heap h p) \<noteq> []"
  shows "graph_run h q bs = Some t \<Longrightarrow> q \<in> N \<Longrightarrow> sd_nd s = Some q \<Longrightarrow> map fst (sd_instructions s) = instrs (heap h q) \<Longrightarrow>
    \<exists>u \<in> N. follow h q bs = Some u \<and> outdegree (heap h u) = 0
      \<and> t = strip (inner (sd_instructions s) @ onward h s bs) @ [(last (instrs (heap h u)), False)]"
proof (induction bs arbitrary: q s t)
  case Nil
  have "instrs (heap h q) = butlast (instrs (heap h q)) @ [last (instrs (heap h q))]" using ne Nil.prems(2) by simp
  then have "straight (instrs (heap h q)) = straight (butlast (instrs (heap h q))) @ [(last (instrs (heap h q)), False)]"
    by (metis list.simps(8,9) straight_def straight_simps(2))
  then show ?case using Nil by (auto simp: strip_inner split: if_splits)
next
  case (Cons b bs)
  obtain r t' where r: "sd_nd (succ (heap h q) b) = Some r" "graph_run h r bs = Some t'" "t = flagged (instrs (heap h q)) b @ t'"
    using Cons.prems(1) by (auto simp: bind_eq_Some_conv)
  have q: "r \<in> N" "map fst (sd_instructions (succ (heap h q) b)) = instrs (heap h r)"
    using e Cons.prems(2) r(1) by (simp_all add: edge_def ins_def)
  obtain u where u: "u \<in> N" "follow h r bs = Some u" "outdegree (heap h u) = 0"
    "t' = strip (inner (sd_instructions (succ (heap h q) b)) @ onward h (succ (heap h q) b) bs) @ [(last (instrs (heap h u)), False)]"
    using Cons.IH [OF r(2) q(1) r(1) q(2)] by blast
  have l: "last (instrs (heap h q)) = fst (last (sd_instructions s))"
    using Cons.prems(2,4) ne by (metis last_map list.map_disc_iff)
  show ?case
    using u r(1,3) Cons.prems(3,4) l
    by (auto simp: strip_inner flagged_def case_prod_beta Let_def)
qed

subsection \<open>The bound of a program\<close>

text \<open>
  A program without loops: every run needs at most the cycles that the bound says, up to the slack of
  the nodes on its path, and there is a run with an estimate that is the bound.
\<close>

lemma estimate_runs:
  assumes off: "UNROLL_LIMIT cf = 0" "UNROLL_LIMITS cf = []" and g: "build_cfg cf ns = Some g"
    and f: "fin_nd g \<in> set (nodes g)" and l: "\<forall>p \<in> set (nodes g). \<not> (step g)\<^sup>+\<^sup>+ p p" and a: "affordable cf g"
  shows "\<exists>h m. overestimate_cycles g = Some h \<and> underestimate_packetrate cf h = Some m
    \<and> (\<forall>t \<in> prog_runs ns. \<exists>bs s. t = strip (path_instrs h bs) @ [(fin, False)]
         \<and> tick_path (path_instrs h bs) (initial_state cf) = Some s \<and> sumcycles s \<le> summaxcycles s
         \<and> unat (summaxcycles s) \<le> unat m + slack_sum g (start_nd g) bs)"
proof -
  have lf: "loop_free g" by (rule build_cfg_loop_free [OF off g f l])
  have ok: "graph_ok g" "graph_runs g = prog_runs ns" "forward g (set (nodes g))" using build_cfg_loops(2) [OF off g] by blast+
  have b: "\<And>p. p \<in> set (nodes g) \<Longrightarrow> outdegree (heap g p) = 0 \<Longrightarrow> p = fin_nd g" "instrs (heap g (fin_nd g)) = [fin]"
    using build_cfg_built [OF off g] f by (simp_all add: built_def)
  obtain h m where h: "overestimate_cycles g = Some h" "underestimate_packetrate cf h = Some m"
    and all: "\<forall>bs. follow g (start_nd g) bs = Some (fin_nd g) \<longrightarrow>
         (\<exists>s. tick_path (path_instrs h bs) (initial_state cf) = Some s \<and> sumcycles s \<le> summaxcycles s
            \<and> unat (summaxcycles s) \<le> unat m + slack_sum g (start_nd g) bs)"
    using bound_correct [OF lf a] by blast
  obtain h' where h': "overestimate_cycles g = Some h'" "ready cf h'" "edge h' = edge g" "start_nd h' = start_nd g"
      "\<And>p. instrs (heap h' p) = instrs (heap g p)" "set (nodes h') = set (nodes g)"
    by (rule overestimate_ready [OF lf a]) blast
  have "h' = h" using h(1) h'(1) by simp
  note h' = h'(2-) [unfolded \<open>h' = h\<close>]
  note r = readyD [OF h'(1)]
  have out: "outdegree (heap h p) = 0 \<longleftrightarrow> outdegree (heap g p) = 0" for p by (simp add: outdegree_0 h'(2))
  have run: "graph_run h p bs = graph_run g p bs" for p bs
    by (induction bs arbitrary: p) (simp_all add: out h'(4) sd_nd_edge [OF h'(2)] cong: if_cong)
  have "\<exists>bs s. t = strip (path_instrs h bs) @ [(fin, False)]
         \<and> tick_path (path_instrs h bs) (initial_state cf) = Some s \<and> sumcycles s \<le> summaxcycles s
         \<and> unat (summaxcycles s) \<le> unat m + slack_sum g (start_nd g) bs" if t: "t \<in> prog_runs ns" for t
  proof -
    obtain bs where bs: "graph_run h (start_nd h) bs = Some t"
      using t unfolding ok(2) [symmetric] graph_runs_def run h'(3) by blast
    obtain u where u: "u \<in> set (nodes h)" "follow h (start_nd h) bs = Some u" "outdegree (heap h u) = 0"
      "t = strip (inner (sd_instructions (start h)) @ onward h (start h) bs) @ [(last (instrs (heap h u)), False)]"
      using graph_run_onward [of "set (nodes h)" h, OF _ _ bs r(2,3,4)] graph_okD(4) [OF ok(1)] r(5,7) h'(5)
      by (metis step_def h'(2))
    have "u = fin_nd g" using b(1) [of u] u(1,3) h'(5) by (simp add: out)
    then show ?thesis using u(2,4) all b(2) by (auto simp: path_instrs_def h'(3,4) follow_cong [OF h'(2)])
  qed
  then show ?thesis using h by blast
qed

end
