(* ===== verification/Spec2Isabelle.thy ===== *)
theory Spec2Isabelle
  imports Statistics Ktest Pool Features Effects Multiply Memory Latency Machine_Branch Strategy Listing
begin

text \<open>
  A verification library for the packet-rate estimator of \<open>src/src/estimator\<close> and for the C tools of
  \<open>src/src\<close> that measure programs beside it.

  The estimator reads the disassembly of a program for a Netronome network processor, builds its
  control flow graph, executes it symbolically along the paths of the graph, and asks z3 which paths can
  be taken by a packet of which size; the cycles of the cheapest paths bound the packet rate.  The tools
  generate packets and map accesses from patterns or from test cases of a symbolic executor, and print
  statistics of what has been measured.

  \<^bold>\<open>Parts of the program and their theories.\<close>

  \<^item> Symbolic expressions, \<open>expr.hpp\<close> and \<open>expr.cpp\<close>.  \<open>Expr\<close> has the classes as datatypes (one
    constructor per class, the template arguments as fields), their widths, their typing (what the
    C++ type checker guarantees) and their meaning under a valuation.  \<open>Expr_Concat\<close>, \<open>Expr_Bits\<close>,
    \<open>Expr_Shift\<close>, \<open>Expr_Arith\<close> and \<open>Expr_Logic\<close> have the constructor functions (\<open>extract\<close>, \<open>concat\<close>,
    \<open>bvand\<close> and so on) with their rewriting helpers (namespace \<open>h\<close>), in the order in which the code tries
    them, and show that each computes what the plain operator means.  \<open>Expr_Eq\<close> has \<open>operator==\<close>,
    \<open>static_merge\<close> and \<open>defs\<close>; \<open>Expr_Typed\<close> collects the typing rules; \<open>Simplifier\<close> states the contract
    that the constructors share as locales and instantiates it with each of them.
  \<^item> The symbolic state, \<open>state.hpp\<close> and \<open>state.cpp\<close>.  \<open>State\<close> has the class \<open>exec\<close> as a record, the
    updates and the four kinds of places; \<open>Exec\<close> has \<open>apply\<close>, \<open>assume\<close>, \<open>static_merge\<close> and \<open>check_sat\<close>;
    \<open>Cycles\<close> has \<open>perf\<close> and its information, ordered as a semilattice; \<open>Strategy\<close> has the two
    strategies to ask the solver.
  \<^item> The instructions, \<open>instr.hpp\<close> and \<open>instr.cpp\<close>.  \<open>Instr\<close> has the instructions as a datatype, their
    costs and registers; \<open>Perform\<close> the operands, shifts, the arithmetic and logic unit and the
    multiplication; \<open>Access\<close> the memory instructions, \<open>perform\<close> for all of them and \<open>check\<close> for the
    branches.
  \<^item> The control flow graph, \<open>cfg.hpp\<close> and \<open>cfg.cpp\<close>.  \<open>Graph\<close> has the nodes on a heap, with \<open>link\<close>,
    \<open>unlink\<close>, \<open>merge_node\<close> and \<open>clone\<close>; \<open>Traverse\<close> has \<open>remove_unreachable\<close> and \<open>is_in_loop\<close>; \<open>Build\<close> has
    \<open>build_cfg\<close> from the nodes over the edges to the merge of chains and the unrolling of loops; \<open>Topo\<close> has
    \<open>topo_sort\<close>; \<open>Overestimate\<close> has the propagation \<open>overestimate_cycles\<close>; \<open>Bound\<close> has \<open>initial_state\<close>
    and \<open>underestimate_packetrate\<close>; \<open>Listing\<close> joins them.
  \<^item> The thread pool, \<open>thread_pool.hpp\<close> and \<open>thread_pool.cpp\<close>: \<open>Pool\<close>, a step relation over the threads
    with their condition variables.  The options, \<open>features.hpp\<close> and \<open>features.cpp\<close>: \<open>Features\<close>.
  \<^item> The C tools.  \<open>Radix\<close> and \<open>Statistics\<close> have the sort, the quantiles and the histogram of
    \<open>statistics.c\<close>; \<open>Prandom\<close> the pseudo random numbers of \<open>prandom_u32.c\<close>; \<open>Gen\<close> the generators of \<open>gen.c\<close>
    and those of map accesses in \<open>mapreads.c\<close>; \<open>Ktest\<close> the test cases of \<open>ktest.c\<close> and the accesses that
    \<open>mapreads.c\<close> reads from them.
  \<^item> \<open>Prelude\<close> has the collections of rules, the lemmas on words and lists and the rule for loops that
    the other theories share.

  An operation that makes undefined objects takes the number of objects made so far.  \<open>None\<close> stands
  for a followed null pointer, another undefined behaviour, an uncaught exception, a call of \<open>errx\<close>, an
  access out of bounds, or a loop that does not end; where errors and the end of a loop matter
  (\<open>topo_sort\<close>, the readers of \<open>Gen\<close> and \<open>Ktest\<close>), errors are values of a sum.  Machine integers are words of
  their width, except where the code uses them as sizes.  Loops that nothing in the code bounds are
  partial functions (\<open>run\<close>, which performs the mutual rewriting of extractions and concatenations, the
  worklists of the graph, the cycles of the sort, the readers), so that no fuel is needed anywhere; each
  is shown to return, apart from the one that unrolls loops.

  \<^bold>\<open>What is shown.\<close>

  \<^item> \<open>Perform_Typed\<close> and \<open>Exec_Typed\<close>: every operation keeps states well-formed, from the rules of the
    constructors up to reachability.
  \<^item> \<open>Machine\<close>, \<open>Machine_Alu\<close> and \<open>Machine_Branch\<close>: a concrete machine with 32-bit registers and
    condition codes, its documented steps, and their refinement by the symbolic instructions; \<open>Effects\<close>,
    \<open>Multiply\<close>, \<open>Memory\<close> and \<open>Latency\<close> do the same for the byte masks, the multiplier, the packet memory
    and the deferred updates.  Where the code departs from the documented step, the property says so
    and a second one shows how.
  \<^item> \<open>Cycles\<close>: the estimate never falls below the cycles of a path.
  \<^item> \<open>Sat\<close> and \<open>Strategy\<close>: assumptions, below the upper bound, and merges neither lose nor admit runs, and
    the verdicts of both strategies are right if the solver is.  Where the code compares expressions with
    \<open>operator==\<close>, which ignores the amount of a rotation, this is shown for expressions without rotations.
  \<^item> \<open>Graph\<close>, \<open>Traverse\<close>, \<open>Topo\<close> and \<open>Build\<close>: both ends of the edges agree, what is not reached is removed,
    the sort returns and puts nodes after their predecessors, and a graph that is built without
    unrolling has exactly the runs of the listing.
  \<^item> \<open>Overestimate\<close>, \<open>Bound\<close> and \<open>Listing\<close>: without loops the estimate covers every run of the program, and
    the bound covers every estimate up to the slack: the path that is kept for a node is chosen without
    the last instruction of the node, whose cost depends on the edge that leads to it.
  \<^item> \<open>Pool\<close>: the callbacks run in order under every interleaving, no thread sleeps for ever, and \<open>wait\<close>
    returns after all of them.  \<open>Features\<close>: what is printed is read back.
  \<^item> \<open>Radix\<close> to \<open>Ktest\<close>: the sort ends in bounds and sorts; quantiles are ordered and bars count every value;
    a generator draws each value once; the readers return for every file, and read back what is written.
  \<^item> This theory: the properties that rest on lemmas used by several theories, and for every property
    with hypotheses a concrete instance of it.

  \<^bold>\<open>Parameters.\<close>  The solver z3 is a function \<open>solver\<close>, which need not answer, with its documented
  behaviour \<open>solver_ok\<close>; \<open>ideal\<close> below is such a function.  In \<open>Gen\<close> the conversion of numbers by \<open>sscanf\<close>,
  the content of fresh memory and the results of \<open>lrand48\<close> are arguments.

  \<^bold>\<open>Not modelled.\<close>  The enumeration of paths (\<open>static_analysis\<close>, the queues of paths and sizes, the
  reports), the runs of a graph whose loops are unrolled, and the destructor of the thread pool; the
  text of expressions for the solver, the parsers (\<open>instr.ypp\<close>, \<open>model.ypp\<close>, \<open>unsat_core.ypp\<close> and their
  scanners), the printing of instructions and the pipe to the solver; the command line, the sockets and
  files of the tools, accesses in JSON, which the vendored \<open>jsmn\<close> parses, and all floating point:
  \<open>dram_cycles\<close> are rational numbers, and mean, deviations and rates are left out.
\<close>

section \<open>Sample objects\<close>

text \<open>A valuation, a few expressions and a state for the instances below.\<close>

definition rho0 :: valuation where
  "rho0 = \<lparr>vars = (\<lambda>_. 1234), unknowns = (\<lambda>_. 0), arrays = (\<lambda>_ _. 0), unknown_arrays = (\<lambda>_ _. 0), base = (\<lambda>_. 4096)\<rparr>"

definition X32 :: bvexpr where "X32 = Bvvariable 32 ''x''"
definition Y32 :: bvexpr where "Y32 = Bvvariable 32 ''y''"
definition C255 :: bvexpr where "C255 = Bitvector 32 255"
definition A8 :: bvarray where "A8 = Bvavariable (Avar 32 8 ''pkt'')"

lemma samples_typed [simp]:
  "bwt X32" "bwt Y32" "bwt C255" "width X32 = 32" "width Y32 = 32" "width C255 = 32"
  "pointers X32 = 0" "pointers Y32 = 0" "pointers C255 = 0"
  "nonnull \<rho> X32" "nonnull \<rho> Y32" "bexact X32" "bexact Y32" "bexact C255"
  "cast_constant X32 = None" "cast_constant Y32 = None" "cast_constant C255 = Some 255"
  "simple_address X32" "simple_address Y32" "simple_address C255" "aligned \<rho> X32" "same_object X32 e"
  "well 32 X32" "well 32 Y32" "well 32 C255" "val32 rho0 X32 = 1234" "val32 rho0 Y32 = 1234" "val32 rho0 C255 = 255"
  by (simp_all add: X32_def Y32_def C255_def simple_address_def aligned_def cast_constant_def well_def val32_def rho0_def)

definition G0 :: gpr where "G0 = Gpr (CHR ''A'') 0"
definition G1 :: gpr where "G1 = Gpr (CHR ''A'') 1"

definition state0 :: exec where
  "state0 = store_all [Reg (gpr_location G0) X32, Reg (gpr_location G1) Y32] empty_exec"

definition cpu0 :: cpu where
  "cpu0 = \<lparr>cpu_reg = (\<lambda>_. 1234), cpu_flag = (\<lambda>_. False)\<rparr>"

lemma G01 [simp]: "gpr_location G0 \<noteq> gpr_location G1" "gpr_location G1 \<noteq> gpr_location G0"
  by (auto dest: gpr_location_inj simp: G0_def G1_def)

lemma get_empty [simp]: "get_reg empty_exec r = None" "get_flag empty_exec f = None"
  by (simp_all add: get_defs)

lemma state0_regs [simp]:
  "get_reg state0 r = (if r = gpr_location G1 then Some Y32 else if r = gpr_location G0 then Some X32 else None)"
  "get_flag state0 f = None" "sat state0 = None" "minimize state0 = None" "assumptions state0 = []"
  unfolding state0_def get_reg_store_all get_flag_store_all by (auto simp del: store_all_simps update_store.simps)

lemma state0_ok [simp]: "exec_ok state0"
  unfolding state0_def by (rule store_all_ok) (auto simp: exec_ok_def)

lemma state0_represents [simp]: "represents rho0 state0 cpu0"
  by (simp add: represents_def cpu0_def)

lemmas cast_defs = cast_constant_def cast_concat_def cast_extract_def cast_ptr_def cast_ptr_ext_def cast_ptr_base_def

lemma no_casts [simp]:
  "cast_constant (Bvbinary f a b) = None" "cast_concat i j (Bvbinary f a b) = None" "cast_extract i j k (Bvbinary f a b) = None"
  "cast_ptr i j (Bvbinary f a b) = None" "cast_ptr_ext i j k (Bvbinary f a b) = None"
  "cast_ptr i j X32 = None" "cast_ptr i j Y32 = None"
  by (simp_all add: cast_defs X32_def Y32_def)

lemma sub_XY: "bvsub X32 Y32 = Bvbinary Bvsubstraction X32 Y32"
  by (simp add: bvsub.simps [of X32 Y32] BVSubConstant_def bvsub_call_def BVSubPointer_def)

lemma top_sub: "bvextract 31 31 (Bvbinary Bvsubstraction X32 Y32) = Extraction 31 31 (Bvbinary Bvsubstraction X32 Y32)"
  by (simp add: bvextract_def run_Extract extract_rule_def ExtractConstant_def ExtractFull_def ExtractPointerExt_def
      ExtractCl_def ExtractCr_def ExtractConcatLeft_def ExtractConcatRight_def ExtractExtractLeft_def ExtractExtractRight_def)

lemma sample_minus: "codes_exact rho0 (res_dst (alu_minus X32 Y32))"
  by (simp add: codes_exact_def alu_minus_def mk_result_def Let_def sub_XY top_sub)

section \<open>The machine\<close>

text \<open>
  C1: an ALU instruction, \<open>alu\<close> or \<open>alu_shf\<close>, refines the documented step of a concrete machine:
  operands, shift by a constant, result, destination or both banks, the codes N, Z and C and the hidden
  registers; and the overflow code, for additions if the operands have the same sign (C35 says what the
  code computes for others).  The operands are known to the state, and excluded are \<open>plus8\<close>, which masks
  sixteen bits, the operators with carry, indirect shifts, shifts by 64 or more, left shifts of base
  pointers that are not aligned, null pointers, pointers where the operator does not keep them, and masks
  that \<open>BVAndPullConcat\<close> mistakes for zero.
\<close>

theorem alu_refines:
  assumes "perform (Instr i op) s n = Some (us, m)" and "is_alu op d a f b sc both"
    and "exec_ok s" "represents \<rho> s c"
    and "src_expr s a = Some A" "src_expr s b = Some B"
    and "shift_opt s sc B n = Some (C, n)" "shift_exact \<rho> sc B"
    and "alu_exact f A C"
    and "alu_calc s f A C n = Some (r, n)" "codes_exact \<rho> (res_dst r)"
  shows "\<exists>v. represents \<rho> (store_all us s) (alu_step_v v d both f a b sc c)
    \<and> (v_exact \<rho> f A C \<longrightarrow> v = alu_overflow f (src_word a c) (shift_word sc (src_word b c)))"
proof -
  have "perform (Instr i (Alu_shf d a f b sc both)) s n = Some (us, m)"
    using assms(1,2) alu_is_alu_shf [of i d a f b both] by (auto simp: is_alu_def)
  from alu_shf_step [OF this assms(3-)] show ?thesis by blast
qed

theorem alu_refines_witness:
  "\<exists>us m. perform (Instr 7 (Alu (Dst_gpr G0) (Src_gpr G0) Minus (Src_gpr G1) False)) state0 0 = Some (us, m)
     \<and> represents rho0 (store_all us state0) (alu_step (Dst_gpr G0) False Minus (Src_gpr G0) (Src_gpr G1) None cpu0)"
proof -
  have "\<exists>us m. perform (Instr 7 (Alu (Dst_gpr G0) (Src_gpr G0) Minus (Src_gpr G1) False)) state0 0 = Some (us, m)"
    by (simp add: perform_def assign_perform_def alu_like_calc_def shift_opt_def read_reg_known)
  then obtain us m where us: "perform (Instr 7 (Alu (Dst_gpr G0) (Src_gpr G0) Minus (Src_gpr G1) False)) state0 0 = Some (us, m)"
    by blast
  have "is_alu (Alu (Dst_gpr G0) (Src_gpr G0) Minus (Src_gpr G1) False) (Dst_gpr G0) (Src_gpr G0) Minus (Src_gpr G1) None False"
    by (simp add: is_alu_def)
  from alu_refines [OF us this, of rho0 cpu0 X32 Y32 Y32 "alu_minus X32 Y32"]
  have "represents rho0 (store_all us state0) (alu_step (Dst_gpr G0) False Minus (Src_gpr G0) (Src_gpr G1) None cpu0)"
    by (simp add: shift_opt_def sample_minus alu_step_def)
  with us show ?thesis by blast
qed

lemma sub_codes:
  "bvcomp (Extraction 31 31 (Bvbinary Bvsubstraction X32 Y32)) (bvconstant 1 1) = Bvbit Bvcomparison (Extraction 31 31 (Bvbinary Bvsubstraction X32 Y32)) (bvconstant 1 1)"
  "bvcomp (Bvbinary Bvsubstraction X32 Y32) (bvconstant 32 0) = Bvbit Bvcomparison (Bvbinary Bvsubstraction X32 Y32) (bvconstant 32 0)"
  by (simp_all add: bvcomp.simps bvcomp_rule_def bvcomp_or_def cast_or_def cast_defs is_zero_def bvconstant_def)

definition cmp0 :: "update list" where
  "cmp0 = [Noop, Flag N_flag (Bvbit Bvcomparison (Extraction 31 31 (Bvbinary Bvsubstraction X32 Y32)) (bvconstant 1 1)),
     Flag Z_flag (Bvbit Bvcomparison (Bvbinary Bvsubstraction X32 Y32) (bvconstant 32 0)),
     Flag V_flag (minus_overflow X32 Y32 (Bvbinary Bvsubstraction X32 Y32)), Flag C_flag (Bvbit Bvsubstraction_carry X32 Y32)]"

lemma compare_sample:
  "perform (Instr 7 (Alu_shf Dst_omitted (Src_gpr G0) Minus (Src_gpr G1) None False)) state0 n = Some (cmp0, n)"
  using sub_codes top_sub
  by (simp add: perform_def assign_perform_def alu_like_calc_def shift_opt_def read_reg_known cmp0_def wrboth_def condition_codes_def
      alu_minus_def mk_result_def Let_def sub_XY bvsub_carry_def)

lemma compared_flags:
  "get_flag (store_all cmp0 state0) N_flag = Some (Bvbit Bvcomparison (Extraction 31 31 (Bvbinary Bvsubstraction X32 Y32)) (bvconstant 1 1))"
  "get_flag (store_all cmp0 state0) C_flag = Some (Bvbit Bvsubstraction_carry X32 Y32)"
  by (simp_all add: cmp0_def get_flag_store_all del: store_all_simps)

lemma compared_exact: "branch_exact (store_all cmp0 state0) Bcs"
  by (simp add: branch_exact_def compared_flags carry_plain_def bit_plain_def lower_carry_def cast_carry_def bvconstant_def)

lemma compared_branch: "check_branch (store_all cmp0 state0) Bcs n = Some (bvuge X32 Y32, n)"
  using read_flag_known [OF compared_flags(2), of n]
  by (simp add: check_bcs_def cast_carry_def same_array32_def cast_defs X32_def)


text \<open>
  Each conditional branch tests the condition it is named for, on the condition codes of the
  machine.
\<close>

theorem branch_conditions:
  assumes "check_branch s f n = Some (e, m)" "exec_ok s" "represents \<rho> s c" "branch_exact s f"
  shows "leval \<rho> e \<longleftrightarrow> branch_cond f c"
  using assms by (rule check_branch_exact)

lemma compared_ok: "exec_ok (store_all cmp0 state0)"
  using perform_typed [OF compare_sample [of 0]] by (auto intro: store_all_ok)

theorem branch_conditions_witness:
  "leval rho0 (bvuge X32 Y32) \<longleftrightarrow> branch_cond Bcs (denote_all rho0 cmp0 cpu0)"
  using compared_branch [of 0] compared_ok represents_store_all [OF state0_represents] compared_exact by (rule branch_conditions)

text \<open>
  C35: the overflow flag of an addition is wrong for operands of different signs: such a sum never
  overflows, and the flag is always set.
\<close>

theorem plus_overflow_wrong:
  assumes "well 32 A" "well 32 B" "pointers A = 0" "pointers B = 0" "bit (val32 \<rho> A) 31 \<noteq> bit (val32 \<rho> B) 31"
  shows "bit1 \<rho> (res_v (alu_plus A B)) \<and> \<not> overflows (sint (val32 \<rho> A) + sint (val32 \<rho> B))"
  using alu_plus_v [OF assms(1-4)] assms(5) by (simp add: plus_v_def overflow_plus)

theorem plus_overflow_wrong_witness:
  "bit1 rho0 (res_v (alu_plus C255 (Bitvector 32 0xffffffff))) \<and> \<not> overflows (sint (val32 rho0 C255) + sint (val32 rho0 (Bitvector 32 0xffffffff)))"
  by (rule plus_overflow_wrong) (simp_all add: well_def C255_def val32_def)

text \<open>
  \<open>plus8\<close> masks its second operand with sixteen bits, so that it is \<open>plus16\<close> and adds 256
  where the instruction adds zero.
\<close>

theorem plus8_is_plus16:
  "alu_calc s Plus8 A B = alu_calc s Plus16 A B
     \<and> (\<exists>r. alu_calc s Plus8 (Bitvector 32 0) (Bitvector 32 256) n = Some (r, n) \<and> val32 \<rho> (res_dst r) = 256)
     \<and> alu_word Plus8 0 256 = 0"
proof -
  have "bvand (Bitvector 32 256) (bvconstant 32 0xffff) = Bitvector 32 256"
    by (simp add: bvand.simps bvand_rule_def bvconstant_def lowmask_def)
  moreover have "bvadd (Bitvector 32 0) (Bitvector 32 256) = Bitvector 32 256"
    by (simp add: bvadd.simps BVAddConstant_def bvconstant_def lowmask_def typed2_def)
  ultimately have "\<exists>r. alu_calc s Plus8 (Bitvector 32 0) (Bitvector 32 256) n = Some (r, n) \<and> val32 \<rho> (res_dst r) = 256"
    by (simp add: alu_plus_def mk_result_def Let_def val32_def)
  then show ?thesis by auto
qed

text \<open>
  A multiplication step that does not follow its predecessor makes the operands and the state
  of the multiplier unknown.
\<close>

theorem mul_step_out_of_order:
  assumes "mul_at s q mA mB" "prev_tok t = Some p" "p \<noteq> q" "\<forall>l. t \<noteq> Last l" "src_expr s a = Some A" "src_expr s b = Some B"
  shows "\<exists>x y z. op_perform s (Mul_step a b t) n = Some ([Reg mul_state x, Reg mulA y, Reg mulB z], n + 3)
     \<and> {x, y, z} = (\<lambda>k. Undefined 32 (Fresh k) ''mul_step_sequence'' (Some (Ebvexpr (tok_next q)))) ` {n, n + 1, n + 2}"
  unfolding mul_step_out_of_sequence [OF assms] by (simp add: mul_undefs_def fresh_def)

definition mul0 :: exec where
  "mul0 = store_all [Reg mul_state (tok_next Start), Reg mulA X32, Reg mulB Y32] state0"

theorem mul_step_out_of_order_witness:
  "\<exists>x y z. op_perform mul0 (Mul_step (Src_gpr G0) (Src_gpr G1) S32x32_step2) 0 = Some ([Reg mul_state x, Reg mulA y, Reg mulB z], 0 + 3)
     \<and> {x, y, z} = (\<lambda>k. Undefined 32 (Fresh k) ''mul_step_sequence'' (Some (Ebvexpr (tok_next Start)))) ` {0, 0 + 1, 0 + 2}"
  by (rule mul_step_out_of_order [where mA = X32 and mB = Y32 and p = S32x32_step1 and A = X32 and B = Y32])
    (simp_all add: mul_at_def mul0_def get_reg_store_all gpr_location_alt G0_def G1_def del: store_all_simps)
section \<open>Symbolic execution\<close>

text \<open>
  C5: every state of an analysis is well-formed: all expressions have the width of their place, no
  place is stored twice, and the deferred updates neither throw when they fire nor when states
  are merged.
\<close>

theorem reachable_well_formed:
  assumes "reachable s"
  shows "exec_ok s \<and> (\<exists>t. fire s = Some t) \<and> (\<exists>t m. undef_defered (defered s) s n = Some (t, m))"
  using reachable_exec_ok [OF assms] reachable_defered [OF assms, of s] by blast

lemma reachable_sample: "reachable (make_exec 0 0 [Reg (gpr_location G0) X32] None 0 0 [])"
  by (rule reach_init) simp_all

theorem reachable_well_formed_witness:
  "exec_ok (make_exec 0 0 [Reg (gpr_location G0) X32] None 0 0 [])
     \<and> (\<exists>t. fire (make_exec 0 0 [Reg (gpr_location G0) X32] None 0 0 []) = Some t)
     \<and> (\<exists>t m. undef_defered (defered (make_exec 0 0 [Reg (gpr_location G0) X32] None 0 0 []))
          (make_exec 0 0 [Reg (gpr_location G0) X32] None 0 0 []) 0 = Some (t, m))"
  using reachable_sample by (rule reachable_well_formed)

text \<open>
  C7: on a path that is annotated with propagated and merged information, the estimated number of
  cycles is at least the number that the execution of the path takes.
\<close>

theorem cycles_overestimated:
  assumes "propagated (Info 0 0) p" "tick_path p (make_exec c d input m lo hi as) = Some t"
    and "unat c + 25 * length p < 2 ^ 32"
  shows "sumcycles t \<le> summaxcycles t"
  using covers_make_exec assms(1,2) by (rule tick_path_covers) (use assms(3) in \<open>simp add: make_exec_def\<close>)

definition path0 :: "(instr \<times> info \<times> bool) list" where
  "path0 = [(Instr 1 (Mem_read Read32_swap 0 (Src_constant 0) None (Src_constant 0) None 1 False 1), Info 0 0, False),
     (Instr 2 (Alu (Dst_gpr G0) (Src_gpr G0) Plus (Src_gpr G1) False), Info 4 0, False),
     (Instr 3 (Proper_branch Beq 4 0), Info 0 1, True)]"

theorem cycles_overestimated_witness:
  "\<exists>t. tick_path path0 (make_exec 0 0 [] None 0 0 []) = Some t \<and> sumcycles t \<le> summaxcycles t"
proof -
  have "\<exists>t. tick_path path0 (make_exec 0 0 [] None 0 0 []) = Some t"
    by (simp add: path0_def tick_def perf_cycles_def itype_def instr_cycles_def max_cycles_def waits_def dram_cycles_def
        mem_cycles_def Let_def)
  then obtain t where t: "tick_path path0 (make_exec 0 0 [] None 0 0 []) = Some t" by blast
  have "propagated (Info 0 0) path0"
    by (simp add: path0_def info_apply_def perf_cycles_def itype_def instr_cycles_def max_cycles_def waits_def
        mem_cycles_def writescc_def Let_def less_eq_info_def)
  from cycles_overestimated [OF this t] t show ?thesis by (simp add: path0_def)
qed

text \<open>
  Deferred updates take effect exactly when they are due, in the order in which they were
  deferred; the others stay.
\<close>

theorem deferred_updates:
  assumes "exec_ok s"
  shows "\<exists>t. fire s = Some t \<and> defered t = pending s
     \<and> (\<forall>r. get_reg t r = (case last_reg r (due s) of Some e \<Rightarrow> Some e | None \<Rightarrow> get_reg s r))"
  using assms by (rule fire_exact)

definition waiting0 :: exec where
  "waiting0 = state0\<lparr>sumcycles := 5, defered := [(4, Reg PREV_A Y32), (9, Reg PREV_ALU Y32)]\<rparr>"

theorem deferred_updates_witness:
  "\<exists>t. fire waiting0 = Some t \<and> defered t = [(9, Reg PREV_ALU Y32)] \<and> get_reg t PREV_A = Some Y32"
proof -
  have ok: "exec_ok waiting0" using state0_ok by (simp add: waiting0_def exec_ok_def)
  obtain t where t: "fire waiting0 = Some t" "defered t = pending waiting0"
    "\<And>r. get_reg t r = (case last_reg r (due waiting0) of Some e \<Rightarrow> Some e | None \<Rightarrow> get_reg waiting0 r)"
    using deferred_updates [OF ok] by blast
  have "get_reg t PREV_A = Some Y32" unfolding t(3) by (simp add: due_def waiting0_def)
  then show ?thesis using t(1,2) by (simp add: pending_def waiting0_def)
qed

text \<open>
  Every instruction has a cost of at most 25 cycles, and only the end of the program costs
  nothing.
\<close>

theorem cost_bounded: "\<exists>c. perf_cycles n i b = Some c \<and> c \<le> 25 \<and> (c = 0 \<longleftrightarrow> itype n = FIN)"
proof -
  obtain c where c: "perf_cycles n i b = Some c" "c \<le> 25" using perf_cycles_total by blast
  have "c = 0 \<longleftrightarrow> itype n = FIN"
    using c perf_cycles_pos [OF c(1)] by (cases "itype n = FIN") (auto simp: perf_cycles_def)
  then show ?thesis using c by blast
qed

text \<open>Where paths meet, the merged information estimates no instruction lower than either path does.\<close>

theorem merge_is_cautious:
  "\<exists>c d e. perf_cycles n i b = Some c \<and> perf_cycles n j b = Some d \<and> perf_cycles n (info_merge i j) b = Some e
     \<and> max c d \<le> e"
proof -
  obtain c d e where p: "perf_cycles n i b = Some c" "perf_cycles n j b = Some d" "perf_cycles n (info_merge i j) b = Some e"
    using perf_cycles_total [of n i b] perf_cycles_total [of n j b] perf_cycles_total [of n "info_merge i j" b] by blast
  have "info_merge i j \<le> i" "info_merge i j \<le> j" by (simp_all add: less_eq_info_def info_merge_def)
  then have "c \<le> e" "d \<le> e" using perf_cycles_antimono p by blast+
  then show ?thesis using p by auto
qed

text \<open>No two registers of the machine, hidden or not, share a place in the state.\<close>

theorem locations_distinct:
  assumes "known_register r" "known_register q"
  shows "location r = location q \<longleftrightarrow> r = q"
  using location_inj [OF assms] by auto

theorem locations_distinct_witness:
  "location (R_xfer_in 3) = location (R_hidden PREV_A) \<longleftrightarrow> R_xfer_in 3 = R_hidden PREV_A"
  by (rule locations_distinct) (simp_all add: hidden_registers_def)
section \<open>Expressions\<close>

text \<open>
  C27: \<open>extract\<close> and \<open>concat\<close>, for all their rewriting rules, return a well-typed expression of
  the width and the value of the plain extraction or concatenation.
\<close>

theorem extract_concat_correct:
  assumes "bwt a" "bwt b" "E \<le> S" "S < width a"
  shows "implements \<rho> (bvextract S E a) (Extraction S E a) \<and> implements \<rho> (bvconcat a b) (Concatenation a b)"
  using assms implements_bvextract implements_bvconcat by blast

theorem extract_concat_correct_witness:
  "implements rho0 (bvextract 15 8 X32) (Extraction 15 8 X32) \<and> implements rho0 (bvconcat X32 C255) (Concatenation X32 C255)"
  by (rule extract_concat_correct) simp_all

text \<open>
  C28: the mutual rewriting of extractions and concatenations terminates with an expression for
  every well-typed request.
\<close>

theorem simplifier_terminates:
  assumes "rwt q"
  shows "\<exists>e. run q = Some e"
  using assms by (rule run_total)

theorem simplifier_terminates_witness:
  "\<exists>e. run (Extract 15 8 (Concat (Done (Bvvariable 8 ''x'')) (Done (Bvvariable 8 ''y'')))) = Some e"
  by (rule simplifier_terminates) simp

text \<open>
  C29: \<open>bvand\<close> computes the conjunction of its operands, with constant masks turned into
  extractions and masks pulled into concatenations.  The condition excludes the masks that
  \<open>BVAndPullConcat\<close> mistakes for zero because it tests eight bits only.
\<close>

theorem bvand_correct:
  assumes "bwt a" "bwt b" "width a = width b" "masks_ok a b"
  shows "implements \<rho> (bvand a b) (Bvbinary Bvanding a b)"
  using assms by (rule implements_bvand)

theorem bvand_correct_witness: "implements rho0 (bvand X32 C255) (Bvbinary Bvanding X32 C255)"
  by (rule bvand_correct) (simp_all add: masks_ok_def X32_def cast_constant_def)

text \<open>
  C30: \<open>bvor\<close>, \<open>bvxor\<close> and \<open>bvnot\<close> compute their operators bit by bit; \<open>bvor\<close> also when it
  assembles a word from concatenations with zeros.
\<close>

theorem bvor_bvxor_bvnot_correct:
  assumes "bwt a" "bwt b" "width a = width b"
  shows "implements \<rho> (bvor a b) (Bvbinary Bvoring a b) \<and> implements \<rho> (bvxor a b) (Bvbinary Bvxoring a b)
     \<and> implements \<rho> (bvnot a) (Bvnegation a)"
  using assms implements_bvor implements_bvxor implements_bvnot by blast

theorem bvor_bvxor_bvnot_correct_witness:
  "implements rho0 (bvor X32 C255) (Bvbinary Bvoring X32 C255) \<and> implements rho0 (bvxor X32 C255) (Bvbinary Bvxoring X32 C255)
     \<and> implements rho0 (bvnot X32) (Bvnegation X32)"
  by (rule bvor_bvxor_bvnot_correct) simp_all

text \<open>
  \<open>bvshl\<close> and \<open>bvlshr\<close> compute the logical shifts, for constant amounts below the 64 bits
  of the host's integers.
\<close>

theorem shifts_correct:
  assumes "bwt a" "bwt b" "width a = width b" "aligned \<rho> a" "\<And>v. cast_constant b = Some v \<Longrightarrow> unat v < 64"
  shows "implements \<rho> (bvshl a b) (Bvbinary Bvshiftl a b) \<and> implements \<rho> (bvlshr a b) (Bvbinary Bvlshiftr a b)"
  using assms implements_bvshl implements_bvlshr by blast

theorem shifts_correct_witness:
  "implements rho0 (bvshl X32 (Bitvector 32 8)) (Bvbinary Bvshiftl X32 (Bitvector 32 8))
     \<and> implements rho0 (bvlshr X32 (Bitvector 32 8)) (Bvbinary Bvlshiftr X32 (Bitvector 32 8))"
  by (rule shifts_correct) (simp_all add: cast_constant_def)

text \<open>
  C31: \<open>bvadd\<close> and \<open>bvsub\<close> add and subtract modulo the width, on numbers and on plain pointers
  (\<open>Pointer\<close>); two pointers are only subtracted if they point into the same array.  Pointers with an
  extension or a base are excluded: \<open>BVAddPointerExt\<close> drops the carry from the offset into the
  extension.
\<close>

theorem add_sub_correct:
  assumes "bwt a" "bwt b" "width a = width b" "simple_address a" "simple_address b" "same_object a b"
  shows "implements \<rho> (bvadd a b) (Bvbinary Bvaddition a b) \<and> implements \<rho> (bvsub a b) (Bvbinary Bvsubstraction a b)"
  using assms implements_bvadd implements_bvsub by blast

theorem add_sub_correct_witness:
  "implements rho0 (bvadd X32 C255) (Bvbinary Bvaddition X32 C255) \<and> implements rho0 (bvsub X32 C255) (Bvbinary Bvsubstraction X32 C255)"
  by (rule add_sub_correct) simp_all

text \<open>
  The unsigned comparisons compare, also when they are reduced to the parts of a
  concatenation; \<open>isfalse\<close> negates them.
\<close>

theorem comparisons_correct:
  assumes "bwt a" "bwt b" "width a = width b"
  shows "leval \<rho> (bvult a b) = (bveval \<rho> a < bveval \<rho> b) \<and> leval \<rho> (bvule a b) = (bveval \<rho> a \<le> bveval \<rho> b)
     \<and> leval \<rho> (bvugt a b) = (bveval \<rho> a > bveval \<rho> b) \<and> leval \<rho> (bvuge a b) = (bveval \<rho> a \<ge> bveval \<rho> b)
     \<and> leval \<rho> (isfalse (bvult a b)) = (bveval \<rho> a \<ge> bveval \<rho> b)"
  using bvult_sound [OF assms] bvule_sound [OF assms] bvugt_sound [OF assms] bvuge_sound [OF assms]
    isfalse_sound [of "bvult a b"] by (simp add: not_less)

theorem comparisons_correct_witness:
  "leval rho0 (bvult X32 C255) = (bveval rho0 X32 < bveval rho0 C255) \<and> leval rho0 (bvule X32 C255) = (bveval rho0 X32 \<le> bveval rho0 C255)
     \<and> leval rho0 (bvugt X32 C255) = (bveval rho0 X32 > bveval rho0 C255) \<and> leval rho0 (bvuge X32 C255) = (bveval rho0 X32 \<ge> bveval rho0 C255)
     \<and> leval rho0 (isfalse (bvult X32 C255)) = (bveval rho0 X32 \<ge> bveval rho0 C255)"
  by (rule comparisons_correct) simp_all

text \<open>
  \<open>bvcomp\<close> is one exactly if its operands are equal, also when a disjunction is split into
  comparisons with zero; it takes it for granted that a pointer is not null.
\<close>

theorem bvcomp_correct:
  assumes "bwt a" "bwt b" "width a = width b" "nonnull \<rho> a" "nonnull \<rho> b"
  shows "bveval \<rho> (bvcomp a b) = of_bool (bveval \<rho> a = bveval \<rho> b)"
  using implements_bvcomp [OF assms] by (simp add: implements_def)

theorem bvcomp_correct_witness: "bveval rho0 (bvcomp X32 Y32) = of_bool (bveval rho0 X32 = bveval rho0 Y32)"
  by (rule bvcomp_correct) simp_all

text \<open>
  C32: \<open>select\<close> after \<open>store\<close> gives the stored value at the stored address and the old one
  elsewhere, whatever mix of constant and symbolic addresses the array has been written with.
\<close>

theorem select_store:
  assumes "awt arr" "bwt off" "bwt i" "bwt v" "width off = arr_A arr" "width i = arr_A arr" "width v = arr_V arr" "0 < arr_V arr"
  shows "bveval \<rho> (select (store arr off v) i) =
    (if bveval \<rho> i = bveval \<rho> off then bveval \<rho> v else bveval \<rho> (select arr i))"
proof -
  note st = awt_store [OF assms(1,2,4,5,7)]
  have "implements \<rho> (select (store arr off v) i) (Selection (store arr off v) i)" "implements \<rho> (select arr i) (Selection arr i)"
    using assms st by (simp_all add: implements_select)
  then show ?thesis using st aeval_store [OF assms(2)] assms(7) bveval_take_bit [of v \<rho>] by (simp add: implements_def)
qed

theorem select_store_witness:
  "bveval rho0 (select (store A8 X32 (Bitvector 8 7)) C255) =
    (if bveval rho0 C255 = bveval rho0 X32 then bveval rho0 (Bitvector 8 7) else bveval rho0 (select A8 C255))"
  by (rule select_store) (simp_all add: A8_def)

text \<open>
  C33: for an expression without rotations and concretely stored arrays (\<open>lexact\<close>) \<open>operator==\<close> returns
  an answer, and an expression that it takes for equal has the same value.  Of rotations it ignores the
  amount.
\<close>

theorem equality_sound:
  assumes "lexact a"
  shows "leq a b \<noteq> None \<and> (leq a b = Some True \<longrightarrow> leval \<rho> a = leval \<rho> b)"
  using assms eq_defined_aux(1) eq_sound_aux(1) by blast

theorem equality_sound_witness:
  "leq (Comparison Equality X32 C255) (Comparison Equality X32 C255) = Some True
     \<and> leval rho0 (Comparison Equality X32 C255) = leval rho0 (Comparison Equality X32 C255)"
  using equality_sound [of "Comparison Equality X32 C255" "Comparison Equality X32 C255" rho0] eq_refl_aux(1) by simp

text \<open>
  \<open>operator==\<close> of a rotation does not look at the amount: a rotation by one and by two are
  equal to it, and differ in value.
\<close>

theorem equality_ignores_rotation:
  "beq (bvrotl X32 1) (bvrotl X32 2) = Some True \<and> (\<exists>\<rho>. bveval \<rho> (bvrotl X32 1) \<noteq> bveval \<rho> (bvrotl X32 2))"
proof
  show "beq (bvrotl X32 1) (bvrotl X32 2) = Some True" by (simp add: bvrotl_def X32_def)
  have "bveval (rho0\<lparr>vars := \<lambda>_. 1\<rparr>) (bvrotl X32 1) \<noteq> bveval (rho0\<lparr>vars := \<lambda>_. 1\<rparr>) (bvrotl X32 2)"
    by (simp add: bvrotl_def X32_def)
  then show "\<exists>\<rho>. bveval \<rho> (bvrotl X32 1) \<noteq> bveval \<rho> (bvrotl X32 2)" ..
qed

text \<open>
  C34: the merge of an expression without rotations and concretely stored arrays (\<open>bexact\<close>) with another
  of its width is defined, and is an expression of which both are instances: equal parts are kept, other
  parts become undefined.
\<close>

theorem merge_generalizes:
  assumes "bexact a" "bwt a" "bwt b" "width a = width b"
  shows "\<exists>r t. bv_merge a b = Some r \<and> generalizes t a \<and> generalizes t b \<and> (\<forall>\<rho>. implements \<rho> r t)"
  using bv_merge_defined [of a b] bv_merge_sound [of a b] assms by blast

theorem merge_generalizes_witness:
  "\<exists>r t. bv_merge X32 Y32 = Some r \<and> generalizes t X32 \<and> generalizes t Y32 \<and> (\<forall>\<rho>. implements \<rho> r t)"
  by (rule merge_generalizes) simp_all

text \<open>
  A condition without pointers depends only on the variables and unknown objects that
  \<open>defs\<close> reports for it, so that the solver is given all declarations.
\<close>

theorem defs_complete:
  assumes "lpointer_free l" "agree \<rho> \<sigma> (ldecls l) (lundefs l)"
  shows "leval \<rho> l = leval \<sigma> l"
  using assms by (rule coincidence)

theorem defs_complete_witness:
  "leval rho0 (Comparison Equality X32 C255) = leval (rho0\<lparr>base := \<lambda>_. 0\<rparr>) (Comparison Equality X32 C255)"
  by (rule defs_complete) (simp_all add: agree_def X32_def C255_def rho0_def)
section \<open>Instances of the properties of the components\<close>

text \<open>The smallest model there is: an ideal solver.\<close>

definition ideal :: solver where
  "ideal m fs = (if \<exists>\<rho>. \<forall>f \<in> set fs. leval \<rho> f then Sat_model (case m of
      None \<Rightarrow> empty_model
    | Some x \<Rightarrow> \<lparr>variables = [(x, of_nat (LEAST k. \<exists>\<rho>. (\<forall>f \<in> set fs. leval \<rho> f) \<and> nat (minimized \<rho> x) = k))], cells = []\<rparr>)
    else Unsat)"

lemma minimized_range: "0 \<le> minimized \<rho> x" "minimized \<rho> x < 2 ^ 14"
  using take_bit_int_less_exp [of 14 "vars \<rho> x"] by (simp_all add: minimized_def)

lemma uint_small_nat: "int n < 2 ^ 14 \<Longrightarrow> uint (of_nat n :: u64) = int n"
  by (simp add: unsigned_of_nat take_bit_nat_eq_self)

lemma ideal_answers: "ideal m fs = No_answer \<longleftrightarrow> False"
  by (simp add: ideal_def)

lemma ideal_ok: "solver_ok ideal"
proof (unfold solver_ok_def, intro allI)
  fix m :: "string option" and fs
  let ?sat = "\<lambda>\<rho>. \<forall>f \<in> set fs. leval \<rho> f"
  let ?L = "\<lambda>x. LEAST k. \<exists>\<rho>. ?sat \<rho> \<and> nat (minimized \<rho> x) = k"
  have L: "int (?L x) \<le> minimized \<rho> x" if "?sat \<rho>" for \<rho> x
    using Least_le [of "\<lambda>k. \<exists>\<rho>. ?sat \<rho> \<and> nat (minimized \<rho> x) = k" "nat (minimized \<rho> x)"] that minimized_range(1) [of \<rho> x] by fastforce
  have v: "uint (of_nat (?L x) :: u64) = int (?L x)" "int (?L x) < 2 ^ 14" if "?sat \<rho>" for \<rho> x
  proof -
    show l: "int (?L x) < 2 ^ 14" using L [OF that, of x] minimized_range(2) [of \<rho> x] by linarith
    then show "uint (of_nat (?L x) :: u64) = int (?L x)" by (rule uint_small_nat)
  qed
  show "case ideal m fs of No_answer \<Rightarrow> True | Unsat \<Rightarrow> \<not> (\<exists>\<rho>. ?sat \<rho>) | Sat_model mo \<Rightarrow> (\<exists>\<rho>. ?sat \<rho>)
       \<and> (\<forall>x v. m = Some x \<longrightarrow> get_value mo x = Some v \<longrightarrow> uint v < 2 ^ 14 \<and> (\<forall>\<rho>. ?sat \<rho> \<longrightarrow> uint v \<le> minimized \<rho> x))"
  proof (cases "\<exists>\<rho>. ?sat \<rho>")
    case True
    then obtain \<sigma> where \<sigma>: "?sat \<sigma>" ..
    show ?thesis
    proof (cases m)
      case None
      then show ?thesis using True by (simp add: ideal_def)
    next
      case (Some x)
      obtain mo where mo: "ideal m fs = Sat_model mo" "get_value mo x = Some (of_nat (?L x))"
        using True Some by (simp add: ideal_def get_value_def)
      have "uint w < 2 ^ 14 \<and> (\<forall>\<rho>. ?sat \<rho> \<longrightarrow> uint w \<le> minimized \<rho> y)"
        if "m = Some y" "get_value mo y = Some w" for y w
        using that Some mo(2) v [OF \<sigma>, of x] L by fastforce
      then show ?thesis unfolding mo(1) answer.case using True by blast
    qed
  next
    case False
    then have "ideal m fs = Unsat" unfolding ideal_def by (rule if_not_P)
    then show ?thesis using False by simp
  qed
qed

definition less0 :: lexpr where
  "less0 = Comparison Bvultcomparison X32 Y32"

lemma less0_ok [simp]: "lwt less0" "lexact less0" "less0 \<noteq> Boolean v"
  by (simp_all add: less0_def)

theorem check_sat_core_witness:
  "\<exists>v t. check_sat_on (core_strategy ideal (\<lambda>_. [])) [(less0, ''a'')] False state0 () = Some (v, t, ())
     \<and> (v \<longleftrightarrow> (\<exists>\<rho>. holds \<rho> ([(less0, ''a'')] @ bound_query state0)))"
proof -
  have "\<exists>v t. check_sat_on (core_strategy ideal (\<lambda>_. [])) [(less0, ''a'')] False state0 () = Some (v, t, ())"
    by (auto simp: check_sat_on_def core_strategy_def record_result_def ideal_answers Let_def split: option.split answer.split)
  then obtain v t where r: "check_sat_on (core_strategy ideal (\<lambda>_. [])) [(less0, ''a'')] False state0 () = Some (v, t, ())" by blast
  from check_sat_core [OF r _ _ ideal_ok] r show ?thesis by auto
qed

theorem check_sat_incremental_witness:
  "\<exists>v t c. check_sat_on (incremental_strategy ideal) [(less0, ''a'')] False state0 start_incremental = Some (v, t, c)
     \<and> (v \<longleftrightarrow> (\<exists>\<rho>. holds \<rho> ([(less0, ''a'')] @ bound_query state0)))"
proof -
  have "\<exists>r c. incremental_strategy ideal start_incremental state0 [(less0, ''a'')] False = Some (r, c)"
    by (auto simp: incremental_strategy_def inc_reset_def start_incremental_def push_assumption_def inc_finish_def ideal_answers bound_query_def Let_def split: answer.split)
  then have "\<exists>v t c. check_sat_on (incremental_strategy ideal) [(less0, ''a'')] False state0 start_incremental = Some (v, t, c)"
    by (auto simp: check_sat_on_def record_result_def Let_def split: sat_result.split)
  then obtain v t c where r: "check_sat_on (incremental_strategy ideal) [(less0, ''a'')] False state0 start_incremental = Some (v, t, c)"
    by blast
  from check_sat_incremental [OF r _ _ ideal_ok start_inv] r show ?thesis by auto
qed

theorem incremental_inv_witness:
  "\<exists>r c. incremental_strategy ideal start_incremental state0 [(less0, ''a'')] False = Some (r, c) \<and> inc_inv ideal c"
proof -
  have "\<exists>r c. incremental_strategy ideal start_incremental state0 [(less0, ''a'')] False = Some (r, c)"
    by (auto simp: incremental_strategy_def inc_reset_def start_incremental_def push_assumption_def inc_finish_def ideal_answers bound_query_def Let_def split: answer.split)
  then obtain r c where r: "incremental_strategy ideal start_incremental state0 [(less0, ''a'')] False = Some (r, c)" by blast
  from incremental_inv [OF r start_inv] r show ?thesis by auto
qed

text \<open>A state that looks for the smallest packet, of 64 to 1500 bytes.\<close>

definition packet0 :: exec where
  "packet0 = state0\<lparr>minimize := Some ''packetsize'', min_value := 64, max_value := 1500\<rparr>"

definition small0 :: lexpr where
  "small0 = Comparison Bvultcomparison (Bvvariable 14 ''packetsize'') (Bitvector 14 100)"

definition large0 :: lexpr where
  "large0 = Comparison Bvugecomparison (Bvvariable 14 ''packetsize'') (bvconstant 14 1500)"

lemma packet0_simps [simp]:
  "minimize packet0 = Some ''packetsize''" "min_value packet0 = 64" "max_value packet0 = 1500"
  "assumptions packet0 = []" "sat packet0 = None" "exec_ok packet0"
  using state0_ok by (simp_all add: packet0_def)

theorem assume_exact_witness:
  "exec_assume (small0, ''a'') packet0 = Some (packet0\<lparr>max_value := 100\<rparr>)
     \<and> (admits rho0 (packet0\<lparr>max_value := 100\<rparr>) \<and> \<not> at_maximum rho0 (packet0\<lparr>max_value := 100\<rparr>)
        \<longleftrightarrow> admits rho0 packet0 \<and> \<not> at_maximum rho0 packet0 \<and> leval rho0 small0)"
proof -
  have a: "exec_assume (small0, ''a'') packet0 = Some (packet0\<lparr>max_value := 100\<rparr>)"
    by (simp add: exec_assume_def small0_def assume_new_def bound_of_def check_bounds_def)
  have "lwt small0" "lexact small0" by (simp_all add: small0_def)
  from assume_exact [OF a this, of rho0] a show ?thesis by blast
qed

theorem assume_drops_maximum_witness:
  "(\<exists>t. exec_assume (large0, ''a'') packet0 = Some t \<and> sat t = Some False)
     \<and> leval (rho0\<lparr>vars := \<lambda>_. 1500\<rparr>) large0 \<and> holds (rho0\<lparr>vars := \<lambda>_. 1500\<rparr>) (bound_query packet0)"
  by (rule assume_drops_maximum [where m = "''packetsize''"]) (simp_all add: large0_def minimized_def)

theorem check_sat_lower_bound_witness:
  "\<exists>v t. check_sat_on (core_strategy ideal (\<lambda>_. [])) [(large0, ''a'')] False packet0 () = Some (v, t, ())
     \<and> min_value packet0 \<le> min_value t \<and> uint (min_value t) \<le> minimized (rho0\<lparr>vars := \<lambda>_. 1500\<rparr>) ''packetsize''"
proof -
  have "\<exists>v t. check_sat_on (core_strategy ideal (\<lambda>_. [])) [(large0, ''a'')] False packet0 () = Some (v, t, ())"
    by (auto simp: check_sat_on_def core_strategy_def record_result_def ideal_answers Let_def split: option.split answer.split)
  then obtain v t where r: "check_sat_on (core_strategy ideal (\<lambda>_. [])) [(large0, ''a'')] False packet0 () = Some (v, t, ())" by blast
  have "holds (rho0\<lparr>vars := \<lambda>_. 1500\<rparr>) (bound_query packet0)"
    by (subst bound_query_holds [where m = "''packetsize''"]) (simp_all add: minimized_def)
  moreover have "holds (rho0\<lparr>vars := \<lambda>_. 1500\<rparr>) [(large0, ''a'')]" by (simp add: holds_def large0_def)
  ultimately have "holds (rho0\<lparr>vars := \<lambda>_. 1500\<rparr>) ([(large0, ''a'')] @ bound_query packet0)" unfolding holds_append by blast
  from check_sat_lower_bound [OF r _ _ ideal_ok _ _ _ this, of "''packetsize''"] r show ?thesis by auto
qed

theorem static_merge_admits_witness:
  "\<exists>t m. static_merge packet0 packet0 0 = Some (t, m) \<and> admits (rho0\<lparr>vars := \<lambda>_. 1000\<rparr>) t"
proof -
  have "\<exists>t m. static_merge packet0 packet0 0 = Some (t, m)"
    by (simp add: static_merge_def packet0_def state0_def bv_merge_equal [OF beq_refl])
  then obtain t m where r: "static_merge packet0 packet0 0 = Some (t, m)" by blast
  have "admits (rho0\<lparr>vars := \<lambda>_. 1000\<rparr>) packet0" by (simp add: admits_def in_bounds_def minimized_def)
  with static_merge_admits [OF r] r show ?thesis by auto
qed
theorem ld_field_bytes_witness:
  "\<exists>r k. ld_field_calc state0 (Dst_gpr G0) 11 (Src_gpr G1) None 0 = Some (r, k)
     \<and> bit (val32 rho0 (res_dst r)) 9 = (if selects 11 9 then bit (shift_word None (src_word (Src_gpr G1) cpu0)) 9 else bit (src_word (Src_gpr G0) cpu0) 9)"
proof -
  have "\<exists>r k. ld_field_calc state0 (Dst_gpr G0) 11 (Src_gpr G1) None 0 = Some (r, k)"
    by (simp add: ld_field_calc_def shift_opt_def read_reg_known read_src_opt_def)
  then obtain r k where r: "ld_field_calc state0 (Dst_gpr G0) 11 (Src_gpr G1) None 0 = Some (r, k)" by blast
  have "bit (val32 rho0 (res_dst r)) 9 = (if selects 11 9 then bit (shift_word None (src_word (Src_gpr G1) cpu0)) 9 else bit (src_word (Src_gpr G0) cpu0) 9)"
    by (rule ld_field_bytes [OF r state0_ok state0_represents, where A = Y32 and C = Y32 and p = "Src_gpr G0" and P = X32])
      (simp_all add: shift_opt_def masks_ok_def X32_def Y32_def cast_constant_def)
  with r show ?thesis by blast
qed

theorem multiply32_witness:
  "\<exists>s1 n1 us s2 lo hi. run_ops (map (Mul_step (Src_gpr G0) (Src_gpr G1)) steps32) state0 0 = Some (s1, n1)
     \<and> op_perform s1 (Mul_step_last (Dst_gpr G0) S32x32_last False) n1 = Some (us, n1) \<and> s2 = store_all us s1
     \<and> get_reg s2 (gpr_location G0) = Some lo
     \<and> mul_step_last_calc s2 S32x32_last2 n1 = Some (plain_result hi [Reg mul_state (tok_next (Last S32x32_last2))], n1)
     \<and> uint (val32 rho0 lo) + 2 ^ 32 * uint (val32 rho0 hi) = uint (src_word (Src_gpr G0) cpu0) * uint (src_word (Src_gpr G1) cpu0)"
  by (rule multiply32 [where A = X32 and B = Y32]) simp_all

theorem assumption_name_injective_witness:
  "get_id fin = get_id fin \<and> (3 :: nat) = 3 \<and> True = True \<and> instr_name fin = instr_name fin"
  by (rule assumption_name_injective) (rule refl)

text \<open>A state that knows a pointer into the packet and a word to be transferred.\<close>

definition packet :: avar where "packet = Avar 32 8 ''pkt''"

definition memory0 :: exec where
  "memory0 = store_all [Reg (gpr_location G0) (Pointer packet (Bitvector 32 16)), Reg (xfer_out_location 3) Y32] empty_exec"

lemma xfer_not_gpr [simp]: "gpr_location g \<noteq> xfer_out_location x" "xfer_out_location x \<noteq> gpr_location g"
  by (auto simp: gpr_location_alt xfer_out_location_def)

lemma memory0_regs [simp]:
  "get_reg memory0 r = (if r = xfer_out_location 3 then Some Y32
     else if r = gpr_location G0 then Some (Pointer packet (Bitvector 32 16)) else None)"
  unfolding memory0_def get_reg_store_all by (auto simp del: store_all_simps)

lemma memory0_ok [simp]: "exec_ok memory0"
  unfolding memory0_def by (rule store_all_ok) (auto simp: exec_ok_def well_def packet_def)

lemma memory0_points: "points_to memory0 (Src_gpr G0) (Src_constant 0) packet (Bitvector 32 16)"
  by (simp add: points_to_def packet_def bvadd.simps BVAddConstant_def cast_constant_def bvconstant_def typed2_def)

lemma memory0_write8: "\<exists>us m. op_perform memory0 (Mem_write Write8_swap 3 (Src_gpr G0) None (Src_constant 0) None 4 False 0) 0 = Some (us, m)"
  using write_word [OF memory0_points memory0_ok, of 3 Y32 Write8_swap 4 0 0] by auto

theorem write_then_read_witness:
  "\<exists>us m us' k' e. op_perform memory0 (Mem_write Write8_swap 3 (Src_gpr G0) None (Src_constant 0) None 4 False 0) 0 = Some (us, m)
     \<and> op_perform (store_all us memory0) (Mem_read Read32_swap 5 (Src_gpr G0) None (Src_constant 0) None 1 False 0) m = Some (us', k')
     \<and> us' = [Reg (xfer_in_location 5) e] \<and> bveval rho0 e = bveval rho0 Y32"
proof -
  obtain us m where w: "op_perform memory0 (Mem_write Write8_swap 3 (Src_gpr G0) None (Src_constant 0) None 4 False 0) 0 = Some (us, m)"
    using memory0_write8 by blast
  then obtain a where us: "us = [Mem8 (declname packet) a]"
    using write_word [OF memory0_points memory0_ok, of 3 Y32 Write8_swap 4 0 0] by auto
  have "exec_ok (store_all us memory0)"
    using perform_typed [of "Instr 0 (Mem_write Write8_swap 3 (Src_gpr G0) None (Src_constant 0) None 4 False 0)" memory0] w
    by (auto intro!: store_all_ok simp: perform_def)
  moreover have "points_to (store_all us memory0) (Src_gpr G0) (Src_constant 0) packet (Bitvector 32 16)"
    using memory0_points by (simp add: us points_to_store del: update_store.simps)
  ultimately obtain us' k' where
    r: "op_perform (store_all us memory0) (Mem_read Read32_swap 5 (Src_gpr G0) None (Src_constant 0) None 1 False 0) m = Some (us', k')"
    using read_word [of "store_all us memory0" "Src_gpr G0" "Src_constant 0" packet "Bitvector 32 16" a 5 0 m]
    by (auto simp: us get_mem8_def update_conv')
  have "\<exists>e. us' = [Reg (xfer_in_location 5) e] \<and> bveval rho0 e = bveval rho0 Y32"
    by (rule write_then_read [OF memory0_ok memory0_points _ w r]) simp
  with w r show ?thesis by blast
qed

theorem write32_writes_one_byte_witness:
  "\<exists>us m a a'. op_perform memory0 (Mem_write Write32_swap 3 (Src_gpr G0) None (Src_constant 0) None 1 False 0) 0 = Some (us, m)
     \<and> read_mem8 memory0 packet 0 = Some (a, m) \<and> us = [Mem8 (declname packet) a']
     \<and> aeval rho0 a' = (aeval rho0 a)(take_bit 32 (bveval rho0 (Bitvector 32 16)) := byte (bveval rho0 Y32) 0)"
proof -
  obtain us m where w: "op_perform memory0 (Mem_write Write32_swap 3 (Src_gpr G0) None (Src_constant 0) None 1 False 0) 0 = Some (us, m)"
    using write_word [OF memory0_points memory0_ok, of 3 Y32 Write32_swap 1 0 0] by auto
  have "get_reg memory0 (xfer_out_location 3) = Some Y32" by simp
  from write32_writes_one_byte [OF memory0_ok memory0_points this w, of rho0] w show ?thesis by blast
qed

theorem add_imm_loses_memory_witness:
  "\<exists>us m k. op_perform memory0 (Mem_write Add_imm 3 (Src_gpr G0) None (Src_constant 0) None 1 False 0) 0 = Some (us, m)
     \<and> us = [Mem8 (declname packet) (Undefined_array 32 8 (Fresh k) ''non_ptr_mem_inc'' (Some (Ebvexpr (Bitvector 32 16))))]"
proof -
  obtain a m where a: "read_mem8 memory0 packet 0 = Some (a, m)" using read_total(3) by blast
  have "cast_ptr 32 8 (byte_at (Bitvector 32 16) 0) = None"
    by (simp add: byte_at_0 cast_ptr_def)
  then have "\<exists>us m. op_perform memory0 (Mem_write Add_imm 3 (Src_gpr G0) None (Src_constant 0) None 1 False 0) 0 = Some (us, m)"
    using a points_to_ok(1,4) [OF memory0_points memory0_ok] read_reg_known [of memory0 "xfer_out_location 3" Y32]
    by (simp add: mem_write_perform_def write_xfers_def xfers_def add_imm_def fresh_array_def)
  then obtain us m where w: "op_perform memory0 (Mem_write Add_imm 3 (Src_gpr G0) None (Src_constant 0) None 1 False 0) 0 = Some (us, m)"
    by blast
  from add_imm_loses_memory [OF memory0_ok memory0_points w] w show ?thesis by blast
qed

definition keep0 :: instr where
  "keep0 = Instr 1 (Alu_shf Dst_omitted (Src_gpr G0) Op_B (Src_gpr G1) None False)"

lemma keep0_apply:
  "\<exists>s1 k1. exec_apply keep0 (Info 0 0) 0 False state0 0 = Some (s1, k1) \<and> sat s1 \<noteq> Some False \<and> sumcycles s1 = 1
     \<and> exec_apply (Instr 2 Nop) (Info 1 1) 0 False s1 k1 \<noteq> None"
proof -
  have st: "state0 = empty_exec\<lparr>registers := [(gpr_location G0, X32), (gpr_location G1, Y32)]\<rparr>"
    by (simp add: state0_def)
  have "sumcycles empty_exec = 0" "lastcc empty_exec = 0" "lastmem empty_exec = 0" by (simp_all add: empty_exec_def)
  then show ?thesis unfolding st
    by (simp add: exec_apply_def tick_def keep0_def perf_cycles_def itype_def instr_cycles_def dram_cycles_def writescc_def
        take_branch_def perform_def assign_perform_def alu_like_calc_def shift_opt_def read_reg_def fire_def
        logic_result_def mk_result_def condition_codes_def wrboth_def Let_def) auto
qed

theorem prev_window_witness:
  "\<exists>s1 k1 s2 k2 v1 m1 A dst v2 m2 us2 w2. exec_apply keep0 (Info 0 0) 0 False state0 0 = Some (s1, k1)
     \<and> exec_apply (Instr 2 Nop) (Info 1 1) 0 False s1 k1 = Some (s2, k2)
     \<and> seen keep0 (Info 0 0) 0 False state0 0 = Some (v1, m1) \<and> alu_hidden v1 (Src_gpr G0) Op_B (Src_gpr G1) None m1 = Some (A, dst)
     \<and> seen (Instr 2 Nop) (Info 1 1) 0 False s1 k1 = Some (v2, m2) \<and> get_reg v2 PREV_A = Some A \<and> get_reg v2 PREV_ALU = Some dst
     \<and> perform (Instr 2 Nop) v2 m2 = Some (us2, k2) \<and> s2 = store_all us2 w2
     \<and> get_reg w2 PREV_A = Some (undef 32) \<and> get_reg w2 PREV_ALU = Some (undef 32)"
proof -
  obtain s1 k1 s2 k2 where r: "exec_apply keep0 (Info 0 0) 0 False state0 0 = Some (s1, k1)" "sat s1 \<noteq> Some False" "sumcycles s1 = 1"
    "exec_apply (Instr 2 Nop) (Info 1 1) 0 False s1 k1 = Some (s2, k2)"
    using keep0_apply by fastforce
  have "is_alu (operation keep0) Dst_omitted (Src_gpr G0) Op_B (Src_gpr G1) None False" by (simp add: keep0_def is_alu_def)
  from prev_window [OF state0_ok _ this _ r(1) _ r(4,2)] r(1,3,4) show ?thesis by (simp add: itype_def)
qed

section \<open>The control flow graph\<close>

text \<open>
  Three small listings: one with a branch out of the program, one with an instruction that is not
  reached, and one with a loop.
\<close>

definition listing0 :: "instr list" where
  "listing0 = [Instr 0 Nop, Instr 1 (Proper_branch Beq 100 0)]"

definition listing_dead :: "instr list" where
  "listing_dead = [Instr 0 (Br 100 0), Instr 1 Nop]"

definition listing_loop :: "instr list" where
  "listing_loop = [Instr 0 Nop, Instr 1 (Proper_branch Beq 1 0)]"

definition graph0 :: cfg where
  "graph0 = the (build_cfg default_settings listing0)"

definition graph_dead :: cfg where
  "graph_dead = the (edges_graph default_settings listing_dead)"

definition graph_loop :: cfg where
  "graph_loop = the (edges_graph default_settings listing_loop)"

definition shape :: "cfg \<Rightarrow> (nptr \<times> (nptr \<times> bool) list) list \<times> nptr \<times> nptr" where
  "shape g = (map (\<lambda>p. (p, succs (heap g p))) (nodes g), start_nd g, fin_nd g)"

lemma no_unrolling [simp]: "UNROLL_LIMIT default_settings = 0" "UNROLL_LIMITS default_settings = []"
  by (simp_all add: default_settings_def)

lemma listings_ok: "listing_ok listing0" "listing_ok listing_dead" "listing_ok listing_loop"
  by (simp_all add: listing_ok_def listing0_def listing_dead_def listing_loop_def fin_def itype_def)

lemma graphs:
  "build_cfg default_settings listing0 = Some graph0"
  "edges_graph default_settings listing_dead = Some graph_dead" "edges_graph default_settings listing_loop = Some graph_loop"
  using build_cfg_loops(1) [of default_settings listing0] edges_graph_None [of default_settings listing_dead]
    edges_graph_None [of default_settings listing_loop] listings_ok
  by (auto simp: graph0_def graph_dead_def graph_loop_def)

lemma shapes:
  "shape graph0 = ([(0, [(2, True), (2, False)]), (2, [])], 0, 2)"
  "shape graph_dead = ([(0, [(2, True)]), (1, [(2, False)]), (2, [])], 0, 2)"
  "shape graph_loop = ([(0, [(1, False)]), (1, [(1, True), (2, False)]), (2, [])], 0, 2)"
  unfolding graph0_def graph_dead_def graph_loop_def by code_simp+

lemma instrs_graph0: "map (\<lambda>p. length (instrs (heap graph0 p))) (nodes graph0) = [2, 1]"
    "map (\<lambda>p. map dram_cycles (instrs (heap graph0 p))) (nodes graph0) = [[Some 0, Some 0], [Some 0]]"
  unfolding graph0_def by code_simp+

lemma graphs_sel [simp]:
  "set (nodes graph0) = {0, 2}" "start_nd graph0 = 0" "fin_nd graph0 = 2"
  "set (nodes graph_dead) = {0, 1, 2}" "start_nd graph_dead = 0" "fin_nd graph_dead = 2"
  "set (nodes graph_loop) = {0, 1, 2}" "start_nd graph_loop = 0" "fin_nd graph_loop = 2"
  using arg_cong [OF shapes(1), of "map fst \<circ> fst"] arg_cong [OF shapes(2), of "map fst \<circ> fst"]
    arg_cong [OF shapes(3), of "map fst \<circ> fst"] shapes
  by (auto simp: shape_def comp_def)

lemma graphs_step [simp]:
  "step graph0 0 q \<longleftrightarrow> q = 2" "\<not> step graph0 2 q"
  "step graph_dead 0 q \<longleftrightarrow> q = 2" "step graph_dead (Suc 0) q \<longleftrightarrow> q = 2" "\<not> step graph_dead 2 q"
  "step graph_loop 0 q \<longleftrightarrow> q = 1" "step graph_loop (Suc 0) q \<longleftrightarrow> q = 1 \<or> q = 2" "\<not> step graph_loop 2 q"
  using shapes by (auto simp: shape_def step_def mem_succs [symmetric] simp del: mem_succs)

lemma loop_rank:
  assumes "(step g)\<^sup>+\<^sup>+ p q" "p \<in> N" "\<forall>r \<in> N. \<forall>s. step g r s \<longrightarrow> s \<in> N \<and> (f r :: nat) < f s"
  shows "q \<in> N \<and> f p < f q"
  using assms
proof (induction rule: tranclp_induct)
  case (step r s)
  then have "r \<in> N" "f p < f r" by blast+
  moreover from this step have "s \<in> N" "f r < f s" by blast+
  ultimately show ?case by simp
qed blast

lemma graph0_no_loop: "\<forall>p \<in> {0, 2}. \<not> (step graph0)\<^sup>+\<^sup>+ p p"
  using loop_rank [of graph0 _ _ "{0, 2}" "\<lambda>p. p"] by fastforce

lemma graph0_ok: "graph_ok graph0" "graph_runs graph0 = prog_runs listing0" "built graph0 {0, 2}" "loop_free graph0"
  "affordable default_settings graph0"
proof -
  show "graph_ok graph0" "graph_runs graph0 = prog_runs listing0" "built graph0 {0, 2}"
    using build_cfg_loops(2) [OF no_unrolling graphs(1)] build_cfg_built [OF no_unrolling graphs(1)] by simp_all
  show "loop_free graph0" by (rule build_cfg_loop_free [OF no_unrolling graphs(1)]) (use graph0_no_loop in simp_all)
  have d: "\<forall>p \<in> set (nodes graph0). \<forall>n \<in> set (instrs (heap graph0 p)). dram_cycles n \<noteq> None"
  proof -
    have "set (concat (map (\<lambda>p. map dram_cycles (instrs (heap graph0 p))) (nodes graph0))) \<subseteq> {Some 0}"
      unfolding instrs_graph0 by simp
    then have "dram_cycles n = Some 0" if "p \<in> set (nodes graph0)" "n \<in> set (instrs (heap graph0 p))" for p n
      using that by (auto simp del: graphs_sel)
    then show ?thesis by simp
  qed
  have "nodes graph0 = [0, 2]" using arg_cong [OF shapes(1), of "map fst \<circ> fst"] by (simp add: shape_def comp_def)
  then have "(\<Sum>p \<in> {0, 2}. length (instrs (heap graph0 p))) = 3" using instrs_graph0 by simp
  then show "affordable default_settings graph0" using d by (simp add: affordable_def default_settings_def)
qed

lemma graph_dead_ok: "graph_ok graph_dead" "graph_ok graph_loop"
  using edges_graph_run(1) graphs by blast+

definition run0 :: "(instr \<times> bool) list" where
  "run0 = [(Instr 0 Nop, False), (Instr 1 (Proper_branch Beq 100 0), True), (fin, False)]"

lemma run0: "run0 \<in> prog_runs listing0"
proof -
  have "prog_run listing0 0 [False, True] = Some run0"
    by (simp add: listing0_def run0_def fetch_def next_of_def itype_def br_target_def)
  then show ?thesis unfolding prog_runs_def by blast
qed



text \<open>
  C4: built without unrolling (no option \<open>-U\<close>), the graph has exactly the runs of the
  listing: the removal of unreachable nodes and the merge of chains neither lose nor add one, and change
  neither the order nor the flag of an instruction.
\<close>

theorem build_keeps_runs:
  assumes "UNROLL_LIMIT cf = 0" "UNROLL_LIMITS cf = []" and "build_cfg cf ns = Some g"
  shows "graph_ok g \<and> graph_runs g = prog_runs ns"
  using build_cfg_loops(2) [OF assms] by blast

theorem build_keeps_runs_witness:
  "graph_ok graph0 \<and> graph_runs graph0 = prog_runs listing0 \<and> run0 \<in> graph_runs graph0"
  using build_keeps_runs [OF no_unrolling graphs(1)] run0 by simp

text \<open>
  C10: without unrolling (no option \<open>-U\<close>) the construction stops with an error exactly for listings that
  it should not accept: addresses that occur twice or are too large, an explicit final instruction, no instruction at address 0.
\<close>

theorem build_accepts:
  assumes "UNROLL_LIMIT cf = 0" "UNROLL_LIMITS cf = []"
  shows "build_cfg cf ns = None \<longleftrightarrow> \<not> listing_ok ns"
  by (rule build_cfg_loops(1) [OF assms])

theorem build_accepts_witness: "build_cfg default_settings [Instr 1 Nop] = None \<and> (build_cfg default_settings listing0 \<noteq> None)"
  using build_accepts [OF no_unrolling, of "[Instr 1 Nop]"] build_accepts [OF no_unrolling, of listing0] listings_ok
  by (simp add: listing_ok_def)

text \<open>
  C11: \<open>remove_unreachable\<close> leaves exactly the nodes that the start reaches, with all their edges, and
  no trace of the others.
\<close>

theorem unreachable_removed:
  assumes "graph_ok g"
  shows "\<exists>h. remove_unreachable cf g = Some h \<and> graph_ok h \<and> set (nodes h) = {p. reach g (start_nd g) p}
    \<and> (\<forall>p \<in> set (nodes h). \<forall>b q. edge h p b q \<longleftrightarrow> edge g p b q) \<and> start h = start g \<and> fin_nd h = fin_nd g"
  by (rule remove_unreachable_correct [OF assms, of cf]) blast

theorem unreachable_removed_witness:
  "\<exists>h. remove_unreachable default_settings graph_dead = Some h \<and> graph_ok h \<and> 1 \<notin> set (nodes h) \<and> 2 \<in> set (nodes h)"
proof -
  have "\<not> reach graph_dead 0 1"
  proof
    assume r: "reach graph_dead 0 1"
    have "1 \<in> {0 :: nptr, 2}" by (rule reach_closed [OF r]) auto
    then show False by simp
  qed
  moreover have "reach graph_dead 0 2" by (rule r_into_rtranclp) simp
  ultimately show ?thesis using unreachable_removed [OF graph_dead_ok(1), of default_settings] by auto
qed

text \<open>\<open>is_in_loop\<close> returns, and says whether a path leads from the node back to it.\<close>

theorem loops_found:
  assumes "graph_ok g" "p \<in> set (nodes g)"
  shows "is_in_loop g p = Some ((step g)\<^sup>+\<^sup>+ p p)"
  by (rule is_in_loop_correct [OF assms])

theorem loops_found_witness: "is_in_loop graph_loop 1 = Some True \<and> is_in_loop graph_loop 0 = Some False"
proof -
  have "(step graph_loop)\<^sup>+\<^sup>+ 1 1" by (rule tranclp.r_into_trancl) simp
  moreover have "\<not> (step graph_loop)\<^sup>+\<^sup>+ 0 0"
  proof
    assume "(step graph_loop)\<^sup>+\<^sup>+ 0 0"
    then obtain r where "reach graph_loop 0 r" "step graph_loop r 0" by (cases rule: tranclp.cases) (auto dest: tranclp_into_rtranclp)
    moreover have "r \<in> {0, 1, 2}" by (rule reach_closed [OF \<open>reach graph_loop 0 r\<close>]) auto
    ultimately show False by auto
  qed
  ultimately show ?thesis
    using loops_found [OF graph_dead_ok(2), of 1] loops_found [OF graph_dead_ok(2), of 0] by simp
qed

text \<open>
  C12: if nothing leads back to the start node and \<open>topo_sort\<close> returns without an error, the nodes are
  those of before, and those in front of the remainder come after all their predecessors; start and
  final node are among them.  (It takes a start node that has predecessors before these.)
\<close>

theorem sorted_in_order:
  assumes "graph_ok g" "preds (heap g (start_nd g)) = []" "topo_sort g = Some (Inr h)"
  shows "\<exists>out rest. h = g\<lparr>nodes := out @ rest\<rparr> \<and> distinct (out @ rest) \<and> set (out @ rest) = set (nodes g)
    \<and> topological g out \<and> start_nd g \<in> set out \<and> (fin_nd g \<in> set (nodes g) \<longrightarrow> fin_nd g \<in> set out)"
  by (rule topo_sort_Some [OF assms]) blast

text \<open>
  C13: \<open>topo_sort\<close> returns for every well-formed graph.  If nothing leads back to the start node and all
  nodes can be reached from it, it reports an error exactly if the final node is one of the nodes and a
  loop leads to it.  (It does not notice loops through the start node.)
\<close>

theorem loops_rejected:
  assumes "graph_ok g"
  shows "\<exists>r. topo_sort g = Some r \<and>
    (preds (heap g (start_nd g)) = [] \<and> (\<forall>q \<in> set (nodes g). reach g (start_nd g) q) \<longrightarrow>
      (r = Inl Not_loop_free \<longleftrightarrow>
         fin_nd g \<in> set (nodes g) \<and> (\<exists>p \<in> set (nodes g). (step g)\<^sup>+\<^sup>+ p p \<and> reach g p (fin_nd g))))"
  using topo_sort_ends [OF assms] topo_sort_error [OF assms] by auto

lemma no_entry: "preds (heap graph0 0) = []" "preds (heap graph_loop 0) = []"
  unfolding graph0_def graph_loop_def by code_simp+

theorem sorted_in_order_witness:
  "\<exists>h out rest. topo_sort graph0 = Some (Inr h) \<and> h = graph0\<lparr>nodes := out @ rest\<rparr> \<and> set (out @ rest) = {0, 2}
     \<and> topological graph0 out \<and> 2 \<in> set out"
proof -
  have "reach graph0 0 2" by (rule r_into_rtranclp) simp
  then have "topo_sort graph0 \<noteq> Some (Inl Not_loop_free)"
    using topo_sort_error [OF graph0_ok(1)] no_entry graph0_no_loop by auto
  then obtain h where "topo_sort graph0 = Some (Inr h)"
    using topo_sort_ends [OF graph0_ok(1)] by (metis sumE topo_error.exhaust)
  then show ?thesis using sorted_in_order [OF graph0_ok(1), of h] no_entry(1) by auto
qed

theorem loops_rejected_witness: "topo_sort graph_loop = Some (Inl Not_loop_free)"
proof -
  have r: "reach graph_loop 0 1" "reach graph_loop 1 2" by (simp_all add: r_into_rtranclp)
  then have "reach graph_loop 0 2" by (rule rtranclp_trans)
  moreover have "(step graph_loop)\<^sup>+\<^sup>+ 1 1" by (rule tranclp.r_into_trancl) simp
  ultimately show ?thesis
    using loops_rejected [OF graph_dead_ok(2)] no_entry(2) r by auto
qed

text \<open>C6: what an instruction writes in a well-formed state is well-typed: every value has the width of its place.\<close>

theorem perform_well_typed:
  assumes "perform n s k = Some (us, m)" and "exec_ok s" and "u \<in> set us"
  shows "update_ok u"
  by (rule perform_typed [OF assms])

theorem perform_well_typed_witness: "update_ok (Flag C_flag (Bvbit Bvsubstraction_carry X32 Y32))"
  using perform_well_typed [OF compare_sample [of 0] state0_ok, of "cmp0 ! 4"] by (simp add: cmp0_def)

end
